(* ===== verification/Prelude.thy ===== *)
theory Prelude
  imports Main "HOL-Library.Word"
begin

text \<open>
  Shared vocabulary of the development.

  The libOS is C++ compiled for x86-64: \<open>size_t\<close>, \<open>uint64_t\<close> and pointers are 64 bits wide and
  wrap, \<open>int\<close> is 32 bits wide. Words that the code treats as bit vectors (bitmaps, flag words,
  queue sequence numbers) are \<open>w word\<close> values. Addresses and byte counts are natural numbers with
  the reduction modulo \<open>2 ^ 64\<close> written out by the operations of this theory, so that the address
  arithmetic of the allocators stays linear arithmetic wherever it does not wrap.

  A \<open>ud2\<close> instruction, an \<open>exit(-1)\<close>, a failed \<open>assert\<close> and an operation without a meaning end
  the run of the program; they are values of the type \<open>fault\<close>.
\<close>

unbundle bit_operations_syntax

named_theorems wrap_simps \<open>64-bit and 32-bit arithmetic that does not wrap\<close>

type_synonym u8 = "8 word"
type_synonym u16 = "16 word"
type_synonym u32 = "32 word"
type_synonym u64 = "64 word"
type_synonym vaddr = nat

section \<open>Runs that end\<close>

datatype fault =
    Ud2         \<comment> \<open>\<open>__asm__("ud2")\<close>: invalid opcode, the enclave dies\<close>
  | Exit_Minus1 \<comment> \<open>\<open>exit(-1)\<close> in the untrusted loader\<close>
  | Wild        \<comment> \<open>access to memory that holds no object of the type the code assumes\<close>
  | Abort       \<comment> \<open>a failed \<open>assert\<close> of the C library\<close>
  | Undefined   \<comment> \<open>an operation the language gives no meaning, such as \<open>__builtin_clz(0)\<close>\<close>

type_synonym 'a result = "fault + 'a"

definition rbind :: "'a result \<Rightarrow> ('a \<Rightarrow> 'b result) \<Rightarrow> 'b result" where
  "rbind m f = (case m of Inl e \<Rightarrow> Inl e | Inr x \<Rightarrow> f x)"

lemma rbind_Inl [simp]: "rbind (Inl e) f = Inl e"
  by (simp add: rbind_def)

lemma rbind_Inr [simp]: "rbind (Inr x) f = f x"
  by (simp add: rbind_def)

lemma rbind_eq_Inr: "rbind m f = Inr y \<longleftrightarrow> (\<exists>x. m = Inr x \<and> f x = Inr y)"
  by (cases m) auto

lemma rbind_cong [fundef_cong]:
  "m = m' \<Longrightarrow> (\<And>x. m' = Inr x \<Longrightarrow> f x = f' x) \<Longrightarrow> rbind m f = rbind m' f'"
  by (cases m) auto

text \<open>Sequencing after a loop that may not end: \<open>None\<close> is a run that goes on forever.\<close>

definition lbind :: "'a result option \<Rightarrow> ('a \<Rightarrow> 'b result option) \<Rightarrow> 'b result option" where
  "lbind m f = (case m of None \<Rightarrow> None | Some (Inl e) \<Rightarrow> Some (Inl e) | Some (Inr x) \<Rightarrow> f x)"

lemma lbind_simps [simp]: "lbind None f = None" "lbind (Some (Inl e)) f = Some (Inl e)" "lbind (Some (Inr x)) f = f x"
  by (simp_all add: lbind_def)

text \<open>A check of the source that stops the program with \<open>ud2\<close> when it fails.\<close>

definition LIBOS_ASSERT :: "bool \<Rightarrow> 'a result \<Rightarrow> 'a result" where
  "LIBOS_ASSERT b k = (if b then k else Inl Ud2)"

section \<open>64-bit unsigned arithmetic\<close>

definition add64 :: "nat \<Rightarrow> nat \<Rightarrow> nat" where
  "add64 a b = (a + b) mod 2 ^ 64"

definition sub64 :: "nat \<Rightarrow> nat \<Rightarrow> nat" where
  "sub64 a b = nat ((int a - int b) mod 2 ^ 64)"

definition mul64 :: "nat \<Rightarrow> nat \<Rightarrow> nat" where
  "mul64 a b = (a * b) mod 2 ^ 64"

text \<open>The conversion of a signed value to \<open>size_t\<close> and of a \<open>size_t\<close> to \<open>int\<close>.\<close>

definition u64_of_int :: "int \<Rightarrow> nat" where
  "u64_of_int i = nat (i mod 2 ^ 64)"

definition s32 :: "int \<Rightarrow> int" where
  "s32 i = (i + 2 ^ 31) mod 2 ^ 32 - 2 ^ 31"

text \<open>\<open>x & ~4095\<close> on a 64-bit value.\<close>

definition page_mask :: "nat \<Rightarrow> nat" where
  "page_mask x = x div 4096 * 4096"

lemma add64_small [wrap_simps]: "a + b < 2 ^ 64 \<Longrightarrow> add64 a b = a + b"
  by (simp add: add64_def)

lemma sub64_small [wrap_simps]: "b \<le> a \<Longrightarrow> a < 2 ^ 64 \<Longrightarrow> sub64 a b = a - b"
  unfolding sub64_def by (subst mod_pos_pos_trivial) auto

lemma mul64_small [wrap_simps]: "a * b < 2 ^ 64 \<Longrightarrow> mul64 a b = a * b"
  by (simp add: mul64_def)

lemma u64_of_int_small [wrap_simps]: "0 \<le> i \<Longrightarrow> i < 2 ^ 64 \<Longrightarrow> u64_of_int i = nat i"
  by (simp add: u64_of_int_def)

lemma s32_small [wrap_simps]: "- (2 ^ 31) \<le> i \<Longrightarrow> i < 2 ^ 31 \<Longrightarrow> s32 i = i"
  by (simp add: s32_def)

lemma add64_bound [simp]: "add64 a b < 2 ^ 64"
  by (simp add: add64_def)

lemma s32_range: "- (2 ^ 31) \<le> s32 i \<and> s32 i < 2 ^ 31"
  by (simp add: s32_def)

lemma page_mask_le: "page_mask x \<le> x"
  by (simp add: page_mask_def)

lemma page_mask_mod [simp]: "page_mask x mod 4096 = 0"
  by (simp add: page_mask_def)

lemma page_mask_aligned: "x mod 4096 = 0 \<Longrightarrow> page_mask x = x"
  unfolding page_mask_def by (metis add.right_neutral div_mult_mod_eq)

lemma page_mask_up: "x \<le> page_mask (x + 4095)"
  unfolding page_mask_def
  using div_mult_mod_eq [of "x + 4095" 4096] mod_less_divisor [of 4096 "x + 4095"] by linarith

lemma page_mask_up_less: "page_mask (x + 4095) < x + 4096"
  using page_mask_le [of "x + 4095"] by linarith

text \<open>The nat form agrees with the bitwise \<open>&\<close> of the source.\<close>

lemma unat_and_not_4095: "unat ((w :: u64) AND NOT 4095) = page_mask (unat w)"
proof -
  have eq: "w AND NOT 4095 = push_bit 12 (drop_bit 12 w)"
  proof -
    have m: "(4095 :: u64) = mask 12"
      by (simp add: mask_eq_exp_minus_1)
    show ?thesis
      unfolding m
      by (rule bit_eqI)
        (auto simp: bit_and_iff bit_not_iff bit_mask_iff bit_push_bit_iff bit_drop_bit_eq)
  qed
  have tb: "take_bit 64 (unat w) = unat w"
    using unsigned_less [where 'a = nat, of w] by (simp add: take_bit_nat_eq_self)
  then have "take_bit 52 (drop_bit 12 (unat w)) = drop_bit 12 (unat w)"
    using drop_bit_take_bit [of 12 64 "unat w"] by simp
  then have "unat (push_bit 12 (drop_bit 12 w)) = push_bit 12 (drop_bit 12 (unat w))"
    by (simp add: unsigned_push_bit_eq unsigned_drop_bit_eq take_bit_push_bit tb)
  then show ?thesis
    unfolding eq by (simp add: page_mask_def push_bit_eq_mult drop_bit_eq_div)
qed

section \<open>Leading zeros\<close>

fun ilog2 :: "nat \<Rightarrow> nat" where
  "ilog2 n = (if n < 2 then 0 else Suc (ilog2 (n div 2)))"

declare ilog2.simps [simp del]

text \<open>\<open>__builtin_clz\<close> (32 bits) and \<open>__builtin_clzl\<close> (64 bits) on a value that is not 0.\<close>

definition clz :: "nat \<Rightarrow> nat \<Rightarrow> nat" where
  "clz w x = w - 1 - ilog2 x"

lemma ilog2_lower: "0 < n \<Longrightarrow> 2 ^ ilog2 n \<le> n"
proof (induction n rule: ilog2.induct)
  case (1 n)
  show ?case
  proof (cases "n < 2")
    case False
    then have "2 ^ ilog2 (n div 2) \<le> n div 2"
      using 1 by simp
    then show ?thesis
      using False by (subst ilog2.simps) simp
  qed (use 1 in \<open>simp add: ilog2.simps [of n]\<close>)
qed

lemma ilog2_upper: "n < 2 ^ Suc (ilog2 n)"
proof (induction n rule: ilog2.induct)
  case (1 n)
  show ?case
  proof (cases "n < 2")
    case False
    then have "n div 2 < 2 ^ Suc (ilog2 (n div 2))"
      using 1 by simp
    then show ?thesis
      using False by (subst ilog2.simps) simp
  qed (simp add: ilog2.simps [of n])
qed

lemma ilog2_less: "0 < n \<Longrightarrow> n < 2 ^ k \<Longrightarrow> ilog2 n < k"
  using ilog2_lower [of n] by (meson le_less_trans nat_power_less_imp_less zero_less_numeral)

section \<open>Loops over an index range\<close>

lemma fold_upt_Suc: "fold f [0..<Suc n] s = f n (fold f [0..<n] s)"
  by simp

lemma list_ex_upt: "list_ex P [0..<n] \<longleftrightarrow> (\<exists>i<n. P i)"
  by (auto simp: list_ex_iff)

end
