(* ===== verification/Allocator.thy ===== *)
theory Allocator
  imports Prelude "HOL-Library.Multiset"
begin

text \<open>
  The chunk allocator behind \<open>malloc\<close> (\<open>libOS/allocator.h\<close>, \<open>libOS/allocator.cpp\<close>).

  A chunk is a header \<open>MemoryArea\<close> followed by its bytes; \<open>areas\<close> is the store of the headers that
  were constructed, by address. \<open>root\<close> is the intrusive red-black tree of the free chunks,
  represented by its elements in tree order, and \<open>chunkList\<close> the array of intrusive lists. An
  intrusive \<open>erase\<close> unlinks the node from the list that holds it, whichever list it is called on,
  and inserting a node that is linked in the tree already fails the assertion of its safe-link hook.
  \<open>MA_SIZE\<close>, the size of the header, depends on the hooks of the container library and is a
  parameter. The two locks are held around the accesses, so an operation is one step;
  \<open>ALLOCATOR_DEBUG\<close> is undefined in the source, so its blocks are absent here.
\<close>

section \<open>State and operations\<close>

record memory_area =
  ma_len :: nat
  ma_free :: bool
  memBase :: nat
  magic :: nat
  canary :: nat

record allocator =
  areas :: "nat \<rightharpoonup> memory_area"
  root :: "nat list"
  chunkList :: "nat list list"

definition CHUNK_LIST_SIZE :: nat where
  "CHUNK_LIST_SIZE = 40"

definition MIN_PRESERVE_SIZE :: "nat \<Rightarrow> nat" where
  "MIN_PRESERVE_SIZE MA_SIZE = 2 * MA_SIZE"

definition MemoryArea :: "nat \<Rightarrow> nat \<Rightarrow> memory_area" where
  "MemoryArea l vm =
     \<lparr>ma_len = l, ma_free = True, memBase = vm, magic = 0xdeadbeef, canary = 0xbeefbeef\<rparr>"

definition hdr :: "(nat \<rightharpoonup> memory_area) \<Rightarrow> nat \<Rightarrow> memory_area" where
  "hdr A a = the (A a)"

text \<open>\<open>__builtin_clz\<close> takes an \<open>unsigned int\<close> and has no meaning at 0.\<close>

definition myLog2 :: "nat \<Rightarrow> nat result" where
  "myLog2 x = (let y = x mod 2 ^ 32 in if y = 0 then Inl Undefined else Inr (4 * 8 - clz 32 y - 1))"

definition sizeToBucket :: "nat \<Rightarrow> nat result" where
  "sizeToBucket len = rbind (myLog2 len) (\<lambda>n. Inr (if n > 0 then n - 1 else n))"

text \<open>\<open>rbtree::insert_equal\<close> with the comparison of \<open>__key_comp\<close>, and the list operations.\<close>

definition insert_equal :: "(nat \<rightharpoonup> memory_area) \<Rightarrow> nat \<Rightarrow> nat list \<Rightarrow> nat list" where
  "insert_equal A a xs =
     takeWhile (\<lambda>x. \<not> memBase (hdr A a) < memBase (hdr A x)) xs @ a #
     dropWhile (\<lambda>x. \<not> memBase (hdr A a) < memBase (hdr A x)) xs"

definition push_back :: "nat \<Rightarrow> nat \<Rightarrow> nat list list \<Rightarrow> nat list list" where
  "push_back i a cl = cl[i := cl ! i @ [a]]"

definition unlink :: "nat \<Rightarrow> nat list list \<Rightarrow> nat list list" where
  "unlink a cl = map (removeAll a) cl"

text \<open>Constructing a header at the null pointer is an access to memory that is not there.\<close>

definition expandHeap :: "nat \<Rightarrow> nat \<Rightarrow> nat \<Rightarrow> allocator \<Rightarrow> allocator result" where
  "expandHeap MA_SIZE base len s =
     (if base = 0 then Inl Wild else
      let A = (areas s)(base \<mapsto> MemoryArea (sub64 len MA_SIZE) base)
      in Inr (s\<lparr>areas := A, root := insert_equal A base (root s),
                chunkList := push_back (CHUNK_LIST_SIZE - 1) base (chunkList s)\<rparr>))"

definition Allocator :: "nat \<Rightarrow> (nat \<rightharpoonup> memory_area) \<Rightarrow> nat \<Rightarrow> nat \<Rightarrow> allocator result" where
  "Allocator MA_SIZE mem len heapBase =
     expandHeap MA_SIZE heapBase len
       \<lparr>areas = mem, root = [], chunkList = replicate CHUNK_LIST_SIZE []\<rparr>"

fun malloc_scan :: "allocator \<Rightarrow> nat \<Rightarrow> nat list \<Rightarrow> (nat \<times> nat) option" where
  "malloc_scan s len [] = None"
| "malloc_scan s len (i # is) =
     (if len \<ge> 2 ^ (i + 2) then malloc_scan s len is
      else case find (\<lambda>a. \<not> ma_len (hdr (areas s) a) < len) (chunkList s ! i) of
             Some a \<Rightarrow> Some (i, a)
           | None \<Rightarrow> malloc_scan s len is)"

definition malloc_take ::
  "nat \<Rightarrow> nat \<Rightarrow> nat \<Rightarrow> nat \<Rightarrow> allocator \<Rightarrow> (nat \<times> allocator) result" where
  "malloc_take MA_SIZE len i a s =
     (let m = hdr (areas s) a;
          retAddr = add64 a MA_SIZE;
          oldLen = ma_len m;
          A1 = (areas s)(a \<mapsto> m\<lparr>ma_free := False, ma_len := len\<rparr>);
          s1 = s\<lparr>areas := A1, root := removeAll a (root s),
                 chunkList := (chunkList s)[i := removeAll a (chunkList s ! i)]\<rparr>
      in if oldLen - len \<ge> MIN_PRESERVE_SIZE MA_SIZE then
           let curBase = add64 retAddr len;
               A2 = A1(curBase \<mapsto> MemoryArea (oldLen - len - MA_SIZE) curBase);
               s2 = s1\<lparr>areas := A2, root := insert_equal A2 curBase (root s1)\<rparr>
           in if oldLen - len - MA_SIZE = 1
              then Inr (retAddr, s2\<lparr>chunkList := push_back 0 curBase (chunkList s2)\<rparr>)
              else rbind (sizeToBucket (oldLen - len - MA_SIZE)) (\<lambda>b.
                     Inr (retAddr, s2\<lparr>chunkList := push_back b curBase (chunkList s2)\<rparr>))
         else Inr (retAddr, s1))"

definition Allocator_malloc :: "nat \<Rightarrow> nat \<Rightarrow> allocator \<Rightarrow> (nat \<times> allocator) result" where
  "Allocator_malloc MA_SIZE len s =
     (if len = 0 then Inr (0, s)
      else case malloc_scan s len [0..<CHUNK_LIST_SIZE] of
             None \<Rightarrow> Inr (0, s)
           | Some (i, a) \<Rightarrow> malloc_take MA_SIZE len i a s)"

partial_function (option) memAlign_loop :: "nat \<Rightarrow> nat \<Rightarrow> nat option" where
  "memAlign_loop alignment newTmp =
     (if newTmp mod alignment \<noteq> 0 then memAlign_loop alignment (add64 newTmp 1)
      else Some newTmp)"

text \<open>A remainder by 0 has no meaning; \<open>None\<close> inside a result is a run that does not return.\<close>

definition memAlign :: "nat \<Rightarrow> nat \<Rightarrow> nat \<Rightarrow> allocator \<Rightarrow> (nat \<times> allocator) option result" where
  "memAlign MA_SIZE alignment sz s =
     (if sz = 0 then Inr (Some (0, s))
      else
        rbind (Allocator_malloc MA_SIZE
                 (add64 (add64 sz (MIN_PRESERVE_SIZE MA_SIZE)) alignment) s)
          (\<lambda>(oldAddr, s1).
        let a = sub64 oldAddr MA_SIZE in
        (case areas s1 a of None \<Rightarrow> Inl Wild | Some m \<Rightarrow>
        if alignment = 0 then Inl Undefined else
        (case memAlign_loop alignment (add64 oldAddr (MIN_PRESERVE_SIZE MA_SIZE)) of
          None \<Rightarrow> Inr None
        | Some newAddr \<Rightarrow>
            let oldLen = sub64 (sub64 newAddr MA_SIZE) oldAddr;
                A = (areas s1)(a \<mapsto> m\<lparr>ma_free := True, ma_len := oldLen\<rparr>);
                s2 = s1\<lparr>areas := A, root := insert_equal A a (root s1)\<rparr>
            in rbind (if oldLen = 1 then Inr 0 else sizeToBucket oldLen) (\<lambda>b.
                 Inr (Some (newAddr, s2\<lparr>chunkList := push_back b a (chunkList s2)\<rparr>)))))))"

definition checkWholeTree :: "allocator \<Rightarrow> unit result" where
  "checkWholeTree s =
     (if list_ex (\<lambda>a. canary (hdr (areas s) a) \<noteq> 0xbeefbeef) (root s) then Inl Ud2 else Inr ())"

text \<open>
  \<open>free\<close> in the three parts of its body: the merge with the following chunk, the merge with the
  preceding one, and the frame around them. \<open>post\<close> and \<open>pre\<close> are the tree before and after the
  position of the freed chunk.
\<close>

definition free_next :: "nat \<Rightarrow> nat \<Rightarrow> nat list \<Rightarrow> allocator \<Rightarrow> allocator result" where
  "free_next MA_SIZE a post s =
     (case post of [] \<Rightarrow> Inr s
      | n # _ \<Rightarrow>
          let m = hdr (areas s) a; mn = hdr (areas s) n in
          if \<not> ma_free mn then Inl Abort
          else if add64 (add64 a MA_SIZE) (ma_len m) = n then
            rbind (sizeToBucket (ma_len mn)) (\<lambda>_.
              Inr (s\<lparr>areas := (areas s)(a \<mapsto> m\<lparr>ma_len := add64 (ma_len m) (add64 MA_SIZE (ma_len mn))\<rparr>),
                     root := removeAll n (root s),
                     chunkList := unlink n (chunkList s)\<rparr>))
          else Inr s)"

definition free_finish :: "nat \<Rightarrow> allocator \<Rightarrow> allocator result" where
  "free_finish a s =
     rbind (sizeToBucket (ma_len (hdr (areas s) a))) (\<lambda>b.
       let s' = s\<lparr>chunkList := push_back b a (chunkList s),
                  areas := (areas s)(a \<mapsto> (hdr (areas s) a)\<lparr>ma_free := True\<rparr>)\<rparr>
       in rbind (checkWholeTree s') (\<lambda>_. Inr s'))"

definition free_prev :: "nat \<Rightarrow> nat \<Rightarrow> nat list \<Rightarrow> allocator \<Rightarrow> allocator result" where
  "free_prev MA_SIZE a pre s =
     (if pre = [] then free_finish a s
      else
        let p = last pre; m = hdr (areas s) a; mp = hdr (areas s) p in
        if \<not> ma_free mp then Inl Abort
        else if add64 (add64 p MA_SIZE) (ma_len mp) = a then
          rbind (sizeToBucket (ma_len mp)) (\<lambda>_.
            let plen = add64 (ma_len mp) (add64 MA_SIZE (ma_len m)) in
            rbind (sizeToBucket plen) (\<lambda>b.
              Inr (s\<lparr>areas := (areas s)(p \<mapsto> mp\<lparr>ma_len := plen\<rparr>),
                     root := removeAll a (root s),
                     chunkList := push_back b p (unlink p (chunkList s))\<rparr>)))
        else free_finish a s)"

definition Allocator_free :: "nat \<Rightarrow> nat \<Rightarrow> allocator \<Rightarrow> allocator result" where
  "Allocator_free MA_SIZE baseAddr s =
     (if baseAddr = 0 then Inr s
      else
        let a = sub64 baseAddr MA_SIZE in
        case areas s a of
          None \<Rightarrow> Inl Wild
        | Some m \<Rightarrow>
            if a \<in> set (root s) then Inl Abort
            else
              let le = (\<lambda>x. \<not> memBase m < memBase (hdr (areas s) x));
                  pre = takeWhile le (root s);
                  post = dropWhile le (root s)
              in rbind (free_next MA_SIZE a post (s\<lparr>root := insert_equal (areas s) a (root s)\<rparr>)) (\<lambda>s1.
                 rbind (checkWholeTree s1) (\<lambda>_. free_prev MA_SIZE a pre s1)))"

definition getLen :: "nat \<Rightarrow> nat \<Rightarrow> allocator \<Rightarrow> nat result" where
  "getLen MA_SIZE ptr s =
     (if ptr = 0 then Inr 0
      else case areas s (sub64 ptr MA_SIZE) of None \<Rightarrow> Inl Wild | Some m \<Rightarrow> Inr (ma_len m))"

definition checkSumAll :: "allocator \<Rightarrow> bool" where
  "checkSumAll s =
     list_all (list_all (\<lambda>a. magic (hdr (areas s) a) = 0xdeadbeef)) (chunkList s)"

section \<open>Buckets\<close>

lemma sizeToBucket_small:
  assumes "0 < n" "n < 2 ^ 32"
  shows "sizeToBucket n = Inr (ilog2 n - 1)"
proof -
  have "ilog2 n < 32"
    using assms by (rule ilog2_less)
  then show ?thesis
    using assms by (simp add: sizeToBucket_def myLog2_def clz_def)
qed

lemma bucket_bound: "n < 2 ^ (ilog2 n - 1 + 2)"
proof -
  have "(2 :: nat) ^ Suc (ilog2 n) \<le> 2 ^ (ilog2 n - 1 + 2)"
    by (rule power_increasing) auto
  then show ?thesis
    using ilog2_upper [of n] by linarith
qed

lemma bucket_index: "0 < n \<Longrightarrow> n < 2 ^ 32 \<Longrightarrow> ilog2 n - 1 < 39"
  using ilog2_less [of n 32] by simp

section \<open>The invariant\<close>

text \<open>
  \<open>L\<close> is the set of the headers of the chunks in use. \<open>X\<close> holds the chunk that \<open>free\<close> has put in
  the tree and not yet in a list; it is empty between operations. All chunks lie in the heap
  \<open>lo ..< hi\<close>, which is shorter than 4 GiB.
\<close>

definition area_end :: "nat \<Rightarrow> allocator \<Rightarrow> nat \<Rightarrow> nat" where
  "area_end MA s a = a + MA + ma_len (hdr (areas s) a)"

definition area_ok :: "nat \<Rightarrow> nat \<Rightarrow> nat \<Rightarrow> allocator \<Rightarrow> nat \<Rightarrow> bool" where
  "area_ok MA lo hi s a \<longleftrightarrow>
     a \<in> dom (areas s) \<and> memBase (hdr (areas s) a) = a \<and> canary (hdr (areas s) a) = 0xbeefbeef \<and>
     0 < ma_len (hdr (areas s) a) \<and> lo \<le> a \<and> area_end MA s a \<le> hi"

definition bucket_ok :: "allocator \<Rightarrow> nat \<Rightarrow> nat \<Rightarrow> bool" where
  "bucket_ok s i a \<longleftrightarrow> i = 39 \<or> ilog2 (ma_len (hdr (areas s) a)) - 1 = i"

definition separated :: "nat \<Rightarrow> allocator \<Rightarrow> nat set \<Rightarrow> bool" where
  "separated MA s S \<longleftrightarrow> (\<forall>a\<in>S. \<forall>b\<in>S. a < b \<longrightarrow> area_end MA s a \<le> b)"

definition heap_ok :: "nat \<Rightarrow> nat \<Rightarrow> nat \<Rightarrow> bool" where
  "heap_ok MA lo hi \<longleftrightarrow> 0 < MA \<and> 0 < lo \<and> hi \<le> lo + 2 ^ 32 \<and> hi < 2 ^ 64"

definition chunks_ok :: "nat set \<Rightarrow> allocator \<Rightarrow> bool" where
  "chunks_ok X s \<longleftrightarrow>
     length (chunkList s) = 40 \<and> sorted_wrt (<) (root s) \<and>
     distinct (concat (chunkList s)) \<and> set (concat (chunkList s)) = set (root s) - X \<and>
     (\<forall>i<40. \<forall>a\<in>set (chunkList s ! i). bucket_ok s i a \<and> ma_free (hdr (areas s) a))"

definition alloc_invX :: "nat \<Rightarrow> nat \<Rightarrow> nat \<Rightarrow> nat set \<Rightarrow> nat set \<Rightarrow> allocator \<Rightarrow> bool" where
  "alloc_invX MA lo hi L X s \<longleftrightarrow>
     heap_ok MA lo hi \<and> chunks_ok X s \<and> X \<subseteq> set (root s) \<and> L \<inter> set (root s) = {} \<and>
     (\<forall>a \<in> L \<union> set (root s). area_ok MA lo hi s a) \<and> separated MA s (L \<union> set (root s))"

abbreviation alloc_inv :: "nat \<Rightarrow> nat \<Rightarrow> nat \<Rightarrow> nat set \<Rightarrow> allocator \<Rightarrow> bool" where
  "alloc_inv MA lo hi L s \<equiv> alloc_invX MA lo hi L {} s"

definition region :: "nat \<Rightarrow> allocator \<Rightarrow> nat \<Rightarrow> nat set" where
  "region MA s a = {a ..< area_end MA s a}"

definition free_bytes :: "nat \<Rightarrow> allocator \<Rightarrow> nat set" where
  "free_bytes MA s = (\<Union>a\<in>set (root s). region MA s a)"

lemmas inv_defs = alloc_invX_def chunks_ok_def heap_ok_def

section \<open>Containers\<close>

lemma hdr_upd: "hdr (A(a \<mapsto> m)) b = (if b = a then m else hdr A b)"
  by (simp add: hdr_def)

lemma set_insert_equal [simp]: "set (insert_equal A a xs) = insert a (set xs)"
  unfolding insert_equal_def by (simp, metis set_append takeWhile_dropWhile_id)

lemma takeWhile_le: "sorted_wrt (<) xs \<Longrightarrow> takeWhile (\<lambda>x. x \<le> (a :: nat)) xs = filter (\<lambda>x. x \<le> a) xs"
  by (induction xs) (auto simp: empty_filter_conv)

lemma dropWhile_le: "sorted_wrt (<) xs \<Longrightarrow> dropWhile (\<lambda>x. x \<le> (a :: nat)) xs = filter (\<lambda>x. a < x) xs"
  by (induction xs) (auto intro!: filter_True [symmetric])

lemma insert_equal_filter:
  assumes "sorted_wrt (<) xs" "\<forall>x\<in>insert a (set xs). memBase (hdr A x) = x"
  shows "takeWhile (\<lambda>x. \<not> memBase (hdr A a) < memBase (hdr A x)) xs = filter (\<lambda>x. x \<le> a) xs"
    and "dropWhile (\<lambda>x. \<not> memBase (hdr A a) < memBase (hdr A x)) xs = filter (\<lambda>x. a < x) xs"
proof -
  have "takeWhile (\<lambda>x. \<not> memBase (hdr A a) < memBase (hdr A x)) xs = takeWhile (\<lambda>x. x \<le> a) xs"
    using assms(2) by (intro takeWhile_cong) auto
  then show "takeWhile (\<lambda>x. \<not> memBase (hdr A a) < memBase (hdr A x)) xs = filter (\<lambda>x. x \<le> a) xs"
    using takeWhile_le assms(1) by simp
  have "dropWhile (\<lambda>x. \<not> memBase (hdr A a) < memBase (hdr A x)) xs = dropWhile (\<lambda>x. x \<le> a) xs"
    using assms(2) by (intro dropWhile_cong) auto
  then show "dropWhile (\<lambda>x. \<not> memBase (hdr A a) < memBase (hdr A x)) xs = filter (\<lambda>x. a < x) xs"
    using dropWhile_le assms(1) by simp
qed

lemma sorted_insert_equal:
  assumes "sorted_wrt (<) xs" "a \<notin> set xs" "\<forall>x\<in>insert a (set xs). memBase (hdr A x) = x"
  shows "sorted_wrt (<) (insert_equal A a xs)"
  unfolding insert_equal_def insert_equal_filter [OF assms(1,3)]
  using assms(1,2) by (auto simp: sorted_wrt_append sorted_wrt_filter le_less)

lemma concat_unlink: "concat (unlink a cl) = removeAll a (concat cl)"
  by (induction cl) (auto simp: unlink_def)

lemma length_unlink [simp]: "length (unlink a cl) = length cl"
  by (simp add: unlink_def)

lemma nth_unlink: "i < length cl \<Longrightarrow> unlink a cl ! i = removeAll a (cl ! i)"
  by (simp add: unlink_def)

lemma unlink_id: "a \<notin> set (concat cl) \<Longrightarrow> unlink a cl = cl"
  unfolding unlink_def by (intro map_idI) auto

lemma removeAll_at:
  assumes "distinct (concat cl)" "i < length cl" "a \<in> set (cl ! i)"
  shows "cl[i := removeAll a (cl ! i)] = unlink a cl"
proof (rule nth_equalityI)
  fix j assume j: "j < length (cl[i := removeAll a (cl ! i)])"
  have "a \<notin> set (cl ! j)" if "j \<noteq> i"
  proof -
    have "set (cl ! j) \<inter> set (cl ! i) = {}"
      using assms(1,2) j [simplified] that by (induction cl arbitrary: i j) (fastforce simp: nth_Cons split: nat.splits)+
    then show ?thesis using assms(3) by blast
  qed
  then show "cl[i := removeAll a (cl ! i)] ! j = unlink a cl ! j"
    using j by (cases "j = i") (auto simp: nth_unlink)
qed (simp add: unlink_def)

lemma length_push_back [simp]: "length (push_back i a cl) = length cl"
  by (simp add: push_back_def)

lemma nth_push_back: "i < length cl \<Longrightarrow> push_back i a cl ! j = (if j = i then cl ! i @ [a] else cl ! j)"
  by (simp add: push_back_def)

lemma mset_push_back:
  "i < length cl \<Longrightarrow> mset (concat (push_back i a cl)) = add_mset a (mset (concat cl))"
proof (induction cl arbitrary: i)
  case (Cons xs cl)
  then show ?case by (cases i) (auto simp: push_back_def)
qed simp

lemma push_back_concat:
  assumes "i < length cl"
  shows "set (concat (push_back i a cl)) = insert a (set (concat cl))"
    and "distinct (concat (push_back i a cl)) \<longleftrightarrow> a \<notin> set (concat cl) \<and> distinct (concat cl)"
proof -
  have *: "mset (concat (push_back i a cl)) = mset (a # concat cl)"
    using mset_push_back [OF assms] by simp
  show "set (concat (push_back i a cl)) = insert a (set (concat cl))"
    using mset_eq_setD [OF *] by simp
  show "distinct (concat (push_back i a cl)) \<longleftrightarrow> a \<notin> set (concat cl) \<and> distinct (concat cl)"
    using mset_eq_imp_distinct_iff [OF *] by simp
qed

section \<open>Invariant steps\<close>

lemma chunks_areas:
  assumes "chunks_ok X s" "\<forall>a\<in>set (root s) - X. hdr A a = hdr (areas s) a"
  shows "chunks_ok X (s\<lparr>areas := A\<rparr>)"
proof -
  have "a \<in> set (root s) - X" if "i < 40" "a \<in> set (chunkList s ! i)" for i a
    using assms(1) that unfolding chunks_ok_def by fastforce
  then show ?thesis
    using assms unfolding chunks_ok_def by (auto simp: bucket_ok_def)
qed

lemma chunks_insert_root:
  assumes "chunks_ok X s" "a \<notin> set (root s)" "\<forall>x\<in>insert a (set (root s)). memBase (hdr A x) = x"
  shows "chunks_ok (insert a X) (s\<lparr>root := insert_equal A a (root s)\<rparr>)"
  using assms sorted_insert_equal [of "root s" a A] unfolding chunks_ok_def by (auto simp: bucket_ok_def)

lemma chunks_unlink:
  assumes "chunks_ok X s"
  shows "chunks_ok (insert a X) (s\<lparr>chunkList := unlink a (chunkList s)\<rparr>)"
  using assms unfolding chunks_ok_def
  by (auto simp: bucket_ok_def nth_unlink distinct_removeAll concat_unlink simp del: set_concat)

lemma chunks_unroot:
  assumes "chunks_ok X s" "a \<in> X"
  shows "chunks_ok (X - {a}) (s\<lparr>root := removeAll a (root s)\<rparr>)"
  using assms unfolding chunks_ok_def
  by (auto simp: bucket_ok_def removeAll_filter_not_eq sorted_wrt_filter)

lemma chunks_push:
  assumes "chunks_ok (insert a X) s" "a \<in> set (root s)" "a \<notin> X" "i < 40"
    "bucket_ok s i a" "ma_free (hdr (areas s) a)"
  shows "chunks_ok X (s\<lparr>chunkList := push_back i a (chunkList s)\<rparr>)"
proof -
  have i: "i < length (chunkList s)" and "set (concat (chunkList s)) = set (root s) - insert a X"
    using assms unfolding chunks_ok_def by auto
  then have "set (concat (push_back i a (chunkList s))) = set (root s) - X"
    "distinct (concat (push_back i a (chunkList s)))"
    using assms unfolding push_back_concat [OF i] by (auto simp: chunks_ok_def)
  then show ?thesis
    using assms i unfolding chunks_ok_def by (auto simp: bucket_ok_def nth_push_back)
qed

lemma alloc_invXD:
  assumes "alloc_invX MA lo hi L X s"
  shows "heap_ok MA lo hi" "chunks_ok X s" "X \<subseteq> set (root s)" "L \<inter> set (root s) = {}"
    "a \<in> L \<union> set (root s) \<Longrightarrow> area_ok MA lo hi s a"
    "separated MA s (L \<union> set (root s))"
  using assms unfolding alloc_invX_def by auto

lemma area_len_bound:
  assumes "heap_ok MA lo hi" "area_ok MA lo hi s a"
  shows "0 < ma_len (hdr (areas s) a)" "ma_len (hdr (areas s) a) < 2 ^ 32"
    "a + MA + ma_len (hdr (areas s) a) < 2 ^ 64" "0 < a"
  using assms unfolding heap_ok_def area_ok_def area_end_def by auto

lemma area_ok_cong:
  "hdr (areas s') a = hdr (areas s) a \<Longrightarrow> a \<in> dom (areas s') \<longleftrightarrow> a \<in> dom (areas s) \<Longrightarrow>
   area_ok MA lo hi s' a \<longleftrightarrow> area_ok MA lo hi s a"
  by (simp add: area_ok_def area_end_def)

lemma region_disjoint:
  assumes "alloc_invX MA lo hi L X s" "a \<in> L \<union> set (root s)" "b \<in> L \<union> set (root s)" "a \<noteq> b"
  shows "region MA s a \<inter> region MA s b = {}"
proof (cases "a < b")
  case True
  then have "area_end MA s a \<le> b"
    using alloc_invXD(6) [OF assms(1)] assms(2,3) unfolding separated_def by blast
  then show ?thesis unfolding region_def by auto
next
  case False
  then have "area_end MA s b \<le> a"
    using alloc_invXD(6) [OF assms(1)] assms(2-4) unfolding separated_def by (meson nat_neq_iff)
  then show ?thesis unfolding region_def by auto
qed

text \<open>A fresh chunk joins the tree: \<open>expandHeap\<close>, the rest of a split, a chunk that is given back.\<close>

definition add_area :: "nat \<Rightarrow> memory_area \<Rightarrow> nat \<Rightarrow> allocator \<Rightarrow> allocator" where
  "add_area c m i s =
     s\<lparr>areas := (areas s)(c \<mapsto> m), root := insert_equal ((areas s)(c \<mapsto> m)) c (root s),
       chunkList := push_back i c (chunkList s)\<rparr>"

lemma add_area_inv:
  assumes inv: "alloc_inv MA lo hi L s"
    and m: "memBase m = c" "canary m = 0xbeefbeef" "ma_free m" "0 < ma_len m"
    and c: "lo \<le> c" "c + MA + ma_len m \<le> hi"
    and fresh: "\<forall>x\<in>L \<union> set (root s). x \<noteq> c \<and> (x < c \<longrightarrow> area_end MA s x \<le> c) \<and>
                   (c < x \<longrightarrow> c + MA + ma_len m \<le> x)"
    and i: "i < 40" "i = 39 \<or> ilog2 (ma_len m) - 1 = i"
  shows "alloc_inv MA lo hi L (add_area c m i s)"
    and "free_bytes MA (add_area c m i s) = free_bytes MA s \<union> {c ..< c + MA + ma_len m}"
proof -
  let ?A = "(areas s)(c \<mapsto> m)"
  note d = alloc_invXD [OF inv]
  have mb: "\<forall>x\<in>insert c (set (root s)). memBase (hdr ?A x) = x"
    using d(5) m(1) by (auto simp: hdr_upd area_ok_def)
  have cr: "c \<notin> set (root s)" and cL: "c \<notin> L"
    using fresh by auto
  have 1: "chunks_ok {} (s\<lparr>areas := ?A\<rparr>)"
    using d(2) cr by (intro chunks_areas) (auto simp: hdr_upd)
  have 2: "chunks_ok {c} (s\<lparr>areas := ?A, root := insert_equal ?A c (root s)\<rparr>)"
    using chunks_insert_root [OF 1, of c ?A] cr mb by simp
  have 3: "chunks_ok {} (add_area c m i s)"
    using chunks_push [of c "{}" "s\<lparr>areas := ?A, root := insert_equal ?A c (root s)\<rparr>" i] 2 i m
    by (simp add: add_area_def bucket_ok_def hdr_upd)
  have ok: "area_ok MA lo hi (add_area c m i s) x" if "x \<in> L \<union> insert c (set (root s))" for x
    using that d(5) [of x] m c by (auto simp: area_ok_def area_end_def add_area_def hdr_upd)
  have sep: "separated MA (add_area c m i s) (L \<union> insert c (set (root s)))"
    using d(6) fresh unfolding separated_def
    by (auto simp: area_end_def add_area_def hdr_upd)
  show "alloc_inv MA lo hi L (add_area c m i s)"
    unfolding alloc_invX_def using d(1,4) 3 ok sep cL by (auto simp: add_area_def)
  show "free_bytes MA (add_area c m i s) = free_bytes MA s \<union> {c ..< c + MA + ma_len m}"
    using cr by (auto simp: free_bytes_def region_def area_end_def add_area_def hdr_upd split: if_splits)
qed

text \<open>A free chunk is taken into use, its length cut to \<open>len\<close>.\<close>

definition take_area :: "nat \<Rightarrow> nat \<Rightarrow> allocator \<Rightarrow> allocator" where
  "take_area len a s =
     s\<lparr>areas := (areas s)(a \<mapsto> (hdr (areas s) a)\<lparr>ma_free := False, ma_len := len\<rparr>),
       root := removeAll a (root s), chunkList := unlink a (chunkList s)\<rparr>"

lemma take_area_inv:
  assumes inv: "alloc_inv MA lo hi L s" and a: "a \<in> set (root s)"
    and len: "0 < len" "len \<le> ma_len (hdr (areas s) a)"
  shows "alloc_inv MA lo hi (insert a L) (take_area len a s)"
    and "free_bytes MA (take_area len a s) = free_bytes MA s - region MA s a"
proof -
  note d = alloc_invXD [OF inv]
  let ?A = "(areas s)(a \<mapsto> (hdr (areas s) a)\<lparr>ma_free := False, ma_len := len\<rparr>)"
  have 1: "chunks_ok {} (s\<lparr>chunkList := unlink a (chunkList s), root := removeAll a (root s)\<rparr>)"
    using chunks_unroot [OF chunks_unlink [OF d(2), of a], of a] by simp
  have 2: "chunks_ok {} (take_area len a s)"
  proof -
    have "s\<lparr>chunkList := unlink a (chunkList s), root := removeAll a (root s), areas := ?A\<rparr> =
        take_area len a s"
      unfolding take_area_def by (rule allocator.equality) simp_all
    then show ?thesis
      using chunks_areas [OF 1, of ?A] by (auto simp: hdr_upd)
  qed
  have ok: "area_ok MA lo hi (take_area len a s) x" if "x \<in> L \<union> set (root s)" for x
    using that d(5) [of x] a len by (auto simp: area_ok_def area_end_def take_area_def hdr_upd)
  have "area_end MA (take_area len a s) x \<le> area_end MA s x" for x
    using len by (auto simp: area_end_def take_area_def hdr_upd)
  then have sep: "separated MA (take_area len a s) (L \<union> set (root s))"
    using d(6) unfolding separated_def by (meson order_trans)
  have rt: "root (take_area len a s) = removeAll a (root s)"
    by (simp add: take_area_def)
  have S: "insert a L \<union> set (removeAll a (root s)) = L \<union> set (root s)"
    using a by auto
  have "insert a L \<inter> set (removeAll a (root s)) = {}"
    using d(4) by auto
  then show "alloc_inv MA lo hi (insert a L) (take_area len a s)"
    unfolding alloc_invX_def rt S using d(1) 2 ok sep by blast
  have dis: "region MA s x - region MA s a = region MA s x" if "x \<in> set (root s) - {a}" for x
    using region_disjoint [OF inv, of x a] that a by blast
  have same: "region MA (take_area len a s) x = region MA s x" if "x \<in> set (root s) - {a}" for x
    using that by (simp add: region_def area_end_def take_area_def hdr_upd)
  have "free_bytes MA s = (\<Union>x\<in>set (root s) - {a}. region MA s x) \<union> region MA s a"
    using a unfolding free_bytes_def by blast
  then have "free_bytes MA s - region MA s a = (\<Union>x\<in>set (root s) - {a}. region MA s x)"
    using dis by blast
  then show "free_bytes MA (take_area len a s) = free_bytes MA s - region MA s a"
    using same unfolding free_bytes_def rt by simp
qed

section \<open>malloc\<close>

lemma malloc_scan_Some:
  assumes "malloc_scan s len is = Some (i, a)"
  shows "i \<in> set is \<and> a \<in> set (chunkList s ! i) \<and> len \<le> ma_len (hdr (areas s) a)"
  using assms
proof (induction s len "is" rule: malloc_scan.induct)
  case (2 s len j "is")
  then show ?case
    by (auto split: if_splits option.splits simp: find_Some_iff)
qed simp

lemma malloc_scan_None:
  assumes "malloc_scan s len is = None" "i \<in> set is" "len < 2 ^ (i + 2)" "a \<in> set (chunkList s ! i)"
  shows "ma_len (hdr (areas s) a) < len"
  using assms
proof (induction s len "is" rule: malloc_scan.induct)
  case (2 s len j "is")
  then show ?case
    by (cases "j = i") (auto split: if_splits option.splits simp: find_None_iff)
qed simp

lemma chunk_in_root:
  assumes "alloc_inv MA lo hi L s" "i < 40" "a \<in> set (chunkList s ! i)"
  shows "a \<in> set (root s)"
  using alloc_invXD(2) [OF assms(1)] assms(2,3) unfolding chunks_ok_def by fastforce

lemma root_in_chunk:
  assumes "alloc_inv MA lo hi L s" "a \<in> set (root s)"
  obtains i where "i < 40" "a \<in> set (chunkList s ! i)" "bucket_ok s i a"
proof -
  note c = alloc_invXD(2) [OF assms(1)]
  then have "a \<in> set (concat (chunkList s))"
    using assms(2) unfolding chunks_ok_def by simp
  then obtain xs where "xs \<in> set (chunkList s)" "a \<in> set xs"
    by auto
  then obtain i where "i < 40" "a \<in> set (chunkList s ! i)"
    using c unfolding chunks_ok_def by (metis in_set_conv_nth)
  then show thesis
    using c that unfolding chunks_ok_def by blast
qed

lemma malloc_finds:
  assumes inv: "alloc_inv MA lo hi L s" and a: "a \<in> set (root s)" "len \<le> ma_len (hdr (areas s) a)"
  shows "malloc_scan s len [0..<CHUNK_LIST_SIZE] \<noteq> None"
proof
  assume none: "malloc_scan s len [0..<CHUNK_LIST_SIZE] = None"
  from inv a(1) obtain i where i: "i < 40" "a \<in> set (chunkList s ! i)" "bucket_ok s i a"
    by (rule root_in_chunk)
  have "ma_len (hdr (areas s) a) < 2 ^ (i + 2)"
  proof (cases "i = 39")
    case True
    then show ?thesis
      using area_len_bound(2) [OF alloc_invXD(1) [OF inv] alloc_invXD(5) [OF inv, of a]] a(1) by simp
  next
    case False
    then show ?thesis
      using i(3) bucket_bound [of "ma_len (hdr (areas s) a)"] unfolding bucket_ok_def by auto
  qed
  then have "len < 2 ^ (i + 2)"
    using a(2) by linarith
  then have "ma_len (hdr (areas s) a) < len"
    using malloc_scan_None [OF none, of i a] i by (simp add: CHUNK_LIST_SIZE_def)
  then show False
    using a(2) by simp
qed

lemma malloc_take_eq:
  assumes inv: "alloc_inv MA lo hi L s" and i: "i < 40" "a \<in> set (chunkList s ! i)"
    and len: "0 < len" "len \<le> ma_len (hdr (areas s) a)"
  defines "rest \<equiv> ma_len (hdr (areas s) a) - len"
  shows "malloc_take MA len i a s =
     Inr (a + MA, if rest \<ge> 2 * MA
                  then add_area (a + MA + len) (MemoryArea (rest - MA) (a + MA + len))
                         (ilog2 (rest - MA) - 1) (take_area len a s)
                  else take_area len a s)"
proof -
  have a: "a \<in> set (root s)"
    using chunk_in_root [OF inv i] .
  note b = area_len_bound [OF alloc_invXD(1) [OF inv] alloc_invXD(5) [OF inv, of a]]
  have w: "add64 a MA = a + MA" "add64 (a + MA) len = a + MA + len"
    using b a len by (auto simp: add64_small)
  have cl: "(chunkList s)[i := removeAll a (chunkList s ! i)] = unlink a (chunkList s)"
    using removeAll_at [of "chunkList s" i a] alloc_invXD(2) [OF inv] i
    unfolding chunks_ok_def by simp
  have one: "ilog2 (Suc 0) = 0"
    by (simp add: ilog2.simps)
  have sb: "sizeToBucket (rest - MA) = Inr (ilog2 (rest - MA) - 1)" if "rest \<ge> 2 * MA"
    using that alloc_invXD(1) [OF inv] b(2) a unfolding heap_ok_def rest_def
    by (intro sizeToBucket_small) auto
  show ?thesis
    unfolding malloc_take_def Let_def w cl MIN_PRESERVE_SIZE_def rest_def [symmetric]
    using sb by (auto simp: take_area_def add_area_def one rest_def split: if_splits)
qed


definition malloc_spec ::
  "nat \<Rightarrow> nat \<Rightarrow> nat \<Rightarrow> nat set \<Rightarrow> nat \<Rightarrow> allocator \<Rightarrow> nat \<Rightarrow> allocator \<Rightarrow> bool" where
  "malloc_spec MA lo hi L len s p s' \<longleftrightarrow>
     (if p = 0 then s' = s
      else MA < p \<and> p - MA \<notin> L \<and> alloc_inv MA lo hi (insert (p - MA) L) s' \<and>
           ma_len (hdr (areas s') (p - MA)) = len \<and>
           region MA s' (p - MA) \<subseteq> free_bytes MA s \<and>
           free_bytes MA s' \<subseteq> free_bytes MA s - region MA s' (p - MA) \<and>
           (\<exists>slack. card slack < 2 * MA \<and>
              free_bytes MA s = free_bytes MA s' \<union> region MA s' (p - MA) \<union> slack) \<and>
           (\<forall>x\<in>L. areas s' x = areas s x))"

lemma area_domD: "area_ok MA lo hi s a \<Longrightarrow> areas s a = Some (hdr (areas s) a)"
  by (auto simp: area_ok_def hdr_def)

lemma split_inv:
  assumes inv: "alloc_inv MA lo hi L s" and a: "a \<in> set (root s)"
    and len: "0 < len" "len + 2 * MA \<le> ma_len (hdr (areas s) a)"
  defines "c \<equiv> a + MA + len" and "rest \<equiv> ma_len (hdr (areas s) a) - len - MA"
  defines "s' \<equiv> add_area c (MemoryArea rest c) (ilog2 rest - 1) (take_area len a s)"
  shows "alloc_inv MA lo hi (insert a L) s'"
    and "free_bytes MA s' = free_bytes MA s - {a ..< c}"
    and "c \<notin> insert a L"
proof -
  note d = alloc_invXD [OF inv]
  have MA: "0 < MA"
    using d(1) by (simp add: heap_ok_def)
  have le: "len \<le> ma_len (hdr (areas s) a)"
    using len by simp
  note t = take_area_inv [OF inv a len(1) le]
  have e: "c + MA + rest = area_end MA s a"
    using len by (simp add: c_def rest_def area_end_def)
  have aok: "area_ok MA lo hi s a"
    using d(5) a by blast
  have r: "0 < rest" "rest < 2 ^ 32"
    using area_len_bound [OF d(1) aok] len MA by (auto simp: rest_def)
  have S: "insert a L \<union> set (root (take_area len a s)) = L \<union> set (root s)"
    using a by (auto simp: take_area_def)
  have fresh: "x \<noteq> c \<and> (x < c \<longrightarrow> area_end MA (take_area len a s) x \<le> c) \<and>
      (c < x \<longrightarrow> c + MA + rest \<le> x)" if "x \<in> L \<union> set (root s)" for x
  proof (cases "x = a")
    case True
    then show ?thesis
      using MA len(1) by (auto simp: c_def area_end_def take_area_def hdr_upd)
  next
    case False
    then have "area_end MA (take_area len a s) x = area_end MA s x"
      by (simp add: area_end_def take_area_def hdr_upd)
    moreover have "x < a \<longrightarrow> area_end MA s x \<le> a" "a < x \<longrightarrow> area_end MA s a \<le> x"
      using d(6) that a unfolding separated_def by blast+
    ultimately show ?thesis
      using False e MA len(1) r(1) unfolding c_def by linarith
  qed
  have c: "lo \<le> c" "c + MA + rest \<le> hi"
    using aok e unfolding area_ok_def c_def by simp_all
  note add = add_area_inv [OF t(1), of "MemoryArea rest c" c "ilog2 rest - 1", unfolded S]
  have i: "ilog2 rest - 1 < 40"
    using bucket_index [OF r] by simp
  show "alloc_inv MA lo hi (insert a L) s'"
    unfolding s'_def using add(1) r c fresh i by (simp add: MemoryArea_def)
  have "free_bytes MA s' = (free_bytes MA s - region MA s a) \<union> {c ..< area_end MA s a}"
    unfolding s'_def t(2) [symmetric] e [symmetric]
    using add(2) r c fresh i by (simp add: MemoryArea_def)
  moreover have "region MA s a \<subseteq> free_bytes MA s"
    using a by (auto simp: free_bytes_def)
  ultimately show "free_bytes MA s' = free_bytes MA s - {a ..< c}"
    using e MA len(1) unfolding region_def c_def by auto
  show "c \<notin> insert a L"
    using fresh a by blast
qed

lemma malloc_take_spec:
  assumes inv: "alloc_inv MA lo hi L s" and i: "i < 40" "a \<in> set (chunkList s ! i)"
    and len: "0 < len" "len \<le> ma_len (hdr (areas s) a)"
  shows "\<exists>s'. malloc_take MA len i a s = Inr (a + MA, s') \<and> malloc_spec MA lo hi L len s (a + MA) s'"
proof -
  have a: "a \<in> set (root s)"
    using chunk_in_root [OF inv i] .
  note d = alloc_invXD [OF inv]
  have MA: "0 < MA" and a0: "0 < a"
    using d(1) area_len_bound(4) [OF d(1) d(5)] a by (auto simp: heap_ok_def)
  have aL: "a \<notin> L"
    using d(4) a by blast
  have fr: "{a ..< area_end MA s a} \<subseteq> free_bytes MA s"
    using a unfolding free_bytes_def region_def by blast
  have ae: "a + MA + len \<le> area_end MA s a"
    using len by (simp add: area_end_def)
  show ?thesis
  proof (cases "ma_len (hdr (areas s) a) - len \<ge> 2 * MA")
    case True
    let ?s' = "add_area (a + MA + len) (MemoryArea (ma_len (hdr (areas s) a) - len - MA) (a + MA + len))
                 (ilog2 (ma_len (hdr (areas s) a) - len - MA) - 1) (take_area len a s)"
    have sp: "len + 2 * MA \<le> ma_len (hdr (areas s) a)"
      using True MA len by linarith
    note t = split_inv [OF inv a len(1) sp]
    have h: "hdr (areas ?s') a = (hdr (areas s) a)\<lparr>ma_free := False, ma_len := len\<rparr>"
      using MA len(1) by (simp add: add_area_def take_area_def hdr_upd)
    have rg: "region MA ?s' a = {a ..< a + MA + len}"
      unfolding region_def area_end_def h by simp
    have "areas ?s' x = areas s x" if "x \<in> L" for x
      using t(3) aL that by (auto simp: add_area_def take_area_def)
    then have "malloc_spec MA lo hi L len s (a + MA) ?s'"
      unfolding malloc_spec_def using a0 aL t MA h rg fr ae
      by (auto intro!: exI [of _ "{}"])
    then show ?thesis
      using malloc_take_eq [OF inv i len] True by simp
  next
    case False
    note t = take_area_inv [OF inv a len]
    let ?s' = "take_area len a s"
    have h: "hdr (areas ?s') a = (hdr (areas s) a)\<lparr>ma_free := False, ma_len := len\<rparr>"
      by (simp add: take_area_def hdr_upd)
    have rg: "region MA ?s' a = {a ..< a + MA + len}"
      by (simp add: region_def area_end_def h)
    have un: "free_bytes MA s = free_bytes MA ?s' \<union> region MA ?s' a \<union> {a + MA + len ..< area_end MA s a}"
      using t(2) [unfolded region_def] fr ae unfolding rg by auto
    have "card {a + MA + len ..< area_end MA s a} < 2 * MA"
      using False len by (simp add: area_end_def)
    then have sl: "\<exists>slack. card slack < 2 * MA \<and>
        free_bytes MA s = free_bytes MA ?s' \<union> region MA ?s' a \<union> slack"
      using un by blast
    have "areas ?s' x = areas s x" if "x \<in> L" for x
      using aL that by (auto simp: take_area_def)
    moreover have "free_bytes MA ?s' \<subseteq> free_bytes MA s - region MA ?s' a"
      using t(2) [unfolded region_def] ae unfolding rg by auto
    ultimately have "malloc_spec MA lo hi L len s (a + MA) ?s'"
      unfolding malloc_spec_def using a0 aL t(1) MA h sl rg fr ae by auto
    then show ?thesis
      using malloc_take_eq [OF inv i len] False by simp
  qed
qed

lemma Allocator_malloc_aux:
  assumes inv: "alloc_inv MA lo hi L s"
  shows "\<exists>p s'. Allocator_malloc MA len s = Inr (p, s') \<and> malloc_spec MA lo hi L len s p s' \<and>
           (p = 0 \<longleftrightarrow> len = 0 \<or> (\<forall>a\<in>set (root s). ma_len (hdr (areas s) a) < len))"
proof (cases "len = 0")
  case True
  then show ?thesis
    by (simp add: Allocator_malloc_def malloc_spec_def)
next
  case False
  show ?thesis
  proof (cases "malloc_scan s len [0..<CHUNK_LIST_SIZE]")
    case None
    then have "\<forall>a\<in>set (root s). ma_len (hdr (areas s) a) < len"
      using malloc_finds [OF inv, of _ len] by (meson not_le)
    then show ?thesis
      using None False by (simp add: Allocator_malloc_def malloc_spec_def)
  next
    case (Some ia)
    then obtain i a where ia: "malloc_scan s len [0..<CHUNK_LIST_SIZE] = Some (i, a)"
      by (cases ia) auto
    then have i: "i < 40" "a \<in> set (chunkList s ! i)" "len \<le> ma_len (hdr (areas s) a)"
      using malloc_scan_Some by (force simp: CHUNK_LIST_SIZE_def)+
    then have "a \<in> set (root s)"
      using chunk_in_root [OF inv] by blast
    then show ?thesis
      using malloc_take_spec [OF inv i(1,2) _ i(3)] False ia i(3) alloc_invXD(1) [OF inv]
      by (force simp: Allocator_malloc_def heap_ok_def)
  qed
qed

section \<open>free\<close>

text \<open>Two adjacent chunks of the tree become one, which is left out of the lists.\<close>

definition absorb :: "nat \<Rightarrow> nat \<Rightarrow> nat \<Rightarrow> allocator \<Rightarrow> allocator" where
  "absorb MA a b s =
     s\<lparr>areas := (areas s)(a \<mapsto> (hdr (areas s) a)
          \<lparr>ma_len := ma_len (hdr (areas s) a) + (MA + ma_len (hdr (areas s) b))\<rparr>),
       root := removeAll b (root s),
       chunkList := unlink a (unlink b (chunkList s))\<rparr>"

lemma absorb_inv:
  assumes inv: "alloc_invX MA lo hi L {x} s" and ab: "a \<in> set (root s)" "b \<in> set (root s)"
    and x: "x = a \<or> x = b" and adj: "area_end MA s a = b"
  shows "alloc_invX MA lo hi L {a} (absorb MA a b s)"
    and "free_bytes MA (absorb MA a b s) = free_bytes MA s"
proof -
  note d = alloc_invXD [OF inv]
  let ?s = "absorb MA a b s"
  have MA: "0 < MA"
    using d(1) by (simp add: heap_ok_def)
  then have lt: "a < b"
    using adj by (auto simp: area_end_def)
  let ?t = "s\<lparr>chunkList := unlink a (unlink b (chunkList s)), root := removeAll b (root s)\<rparr>"
  have "chunks_ok {a, b} (s\<lparr>chunkList := unlink a (unlink b (chunkList s))\<rparr>)"
    using chunks_unlink [OF chunks_unlink [OF d(2), of b], of a] x by (auto simp: insert_commute)
  from chunks_unroot [OF this, of b] have "chunks_ok {a} ?t"
    using lt by (simp add: insert_Diff_if)
  then have "chunks_ok {a} (?t\<lparr>areas := areas ?s\<rparr>)"
    by (rule chunks_areas) (simp add: absorb_def hdr_upd)
  moreover have "?t\<lparr>areas := areas ?s\<rparr> = ?s"
    by (rule allocator.equality) (simp_all add: absorb_def)
  ultimately have ch: "chunks_ok {a} ?s"
    by simp
  have e: "area_end MA ?s y = (if y = a then area_end MA s b else area_end MA s y)" for y
    using adj by (simp add: absorb_def area_end_def hdr_upd)
  have rt: "set (root ?s) = set (root s) - {b}"
    by (simp add: absorb_def)
  have ok: "area_ok MA lo hi ?s y" if "y \<in> L \<union> (set (root s) - {b})" for y
    using that d(5) [of y] d(5) [of b] ab unfolding area_ok_def e
    by (auto simp: absorb_def hdr_upd)
  have "separated MA ?s (L \<union> (set (root s) - {b}))"
    unfolding separated_def e
  proof (intro ballI impI)
    fix y z assume yz: "y \<in> L \<union> (set (root s) - {b})" "z \<in> L \<union> (set (root s) - {b})" "y < z"
    have "b \<noteq> z"
      using yz(2) d(4) ab(2) by blast
    moreover have "b \<le> z" if "y = a"
      using d(6) adj yz ab that unfolding separated_def by blast
    moreover have "area_end MA s b \<le> z" if "b < z"
      using d(6) that yz ab unfolding separated_def by blast
    moreover have "area_end MA s y \<le> z"
      using d(6) yz unfolding separated_def by blast
    ultimately show "(if y = a then area_end MA s b else area_end MA s y) \<le> z"
      by (auto simp: le_less)
  qed
  then show "alloc_invX MA lo hi L {a} ?s"
    unfolding alloc_invX_def rt using d(1,4) ch ok ab lt by auto
  have ra: "region MA ?s a = region MA s a \<union> region MA s b"
    using lt adj unfolding region_def e by (auto simp: area_end_def)
  have ry: "region MA ?s y = region MA s y" if "y \<in> set (root s) - {a, b}" for y
    using that unfolding region_def e by simp
  have "set (root s) - {b} = insert a (set (root s) - {a, b})"
    "set (root s) = insert a (insert b (set (root s) - {a, b}))"
    using ab lt by auto
  then have "free_bytes MA ?s = region MA ?s a \<union> (\<Union>y\<in>set (root s) - {a, b}. region MA ?s y)"
    "free_bytes MA s = region MA s a \<union> region MA s b \<union> (\<Union>y\<in>set (root s) - {a, b}. region MA s y)"
    unfolding free_bytes_def rt by auto
  then show "free_bytes MA ?s = free_bytes MA s"
    unfolding ra using ry by simp
qed

lemma invX_bucket:
  assumes "alloc_invX MA lo hi L X s" "n \<in> L \<union> set (root s)"
  shows "sizeToBucket (ma_len (hdr (areas s) n)) = Inr (ilog2 (ma_len (hdr (areas s) n)) - 1)"
    and "ilog2 (ma_len (hdr (areas s) n)) - 1 < 39"
    and "add64 (add64 n MA) (ma_len (hdr (areas s) n)) = area_end MA s n"
proof -
  note b = area_len_bound [OF alloc_invXD(1) [OF assms(1)] alloc_invXD(5) [OF assms]]
  show "sizeToBucket (ma_len (hdr (areas s) n)) = Inr (ilog2 (ma_len (hdr (areas s) n)) - 1)"
    using sizeToBucket_small [OF b(1,2)] .
  show "ilog2 (ma_len (hdr (areas s) n)) - 1 < 39"
    using bucket_index [OF b(1,2)] .
  show "add64 (add64 n MA) (ma_len (hdr (areas s) n)) = area_end MA s n"
    using b(3) by (simp add: add64_small area_end_def)
qed

lemma invX_free:
  assumes "alloc_invX MA lo hi L X s" "n \<in> set (root s)" "n \<notin> X"
  shows "ma_free (hdr (areas s) n)"
proof -
  note c = alloc_invXD(2) [OF assms(1)]
  then have "n \<in> set (concat (chunkList s))"
    using assms(2,3) unfolding chunks_ok_def by simp
  then obtain xs where "xs \<in> set (chunkList s)" "n \<in> set xs"
    by auto
  then show ?thesis
    using c unfolding chunks_ok_def by (metis in_set_conv_nth)
qed

lemma invX_check:
  "alloc_invX MA lo hi L X s \<Longrightarrow> checkWholeTree s = Inr ()"
  using alloc_invXD(5) by (fastforce simp: checkWholeTree_def list_ex_iff area_ok_def)

lemma invX_unlink:
  assumes "alloc_invX MA lo hi L X s" "x \<in> X"
  shows "unlink x (chunkList s) = chunkList s"
  using alloc_invXD(2) [OF assms(1)] assms(2) unfolding chunks_ok_def by (intro unlink_id) auto

lemma unlink_commute: "unlink a (unlink b cl) = unlink b (unlink a cl)"
  by (induction cl) (auto simp: unlink_def removeAll_filter_not_eq conj_commute)

lemma push_inv:
  assumes inv: "alloc_invX MA lo hi L {a} s" and f: "ma_free (hdr (areas s) a)"
  defines "s' \<equiv> s\<lparr>chunkList := push_back (ilog2 (ma_len (hdr (areas s) a)) - 1) a (chunkList s)\<rparr>"
  shows "alloc_inv MA lo hi L s'" and "free_bytes MA s' = free_bytes MA s"
proof -
  note d = alloc_invXD [OF inv]
  have a: "a \<in> set (root s)"
    using d(3) by blast
  have "chunks_ok {} s'"
    unfolding s'_def using d(2) a f invX_bucket(2) [OF inv, of a]
    by (intro chunks_push) (auto simp: bucket_ok_def)
  then show "alloc_inv MA lo hi L s'"
    using inv unfolding alloc_invX_def s'_def by (auto simp: area_ok_def area_end_def separated_def)
  show "free_bytes MA s' = free_bytes MA s"
    by (simp add: s'_def free_bytes_def region_def area_end_def)
qed

lemma free_start_inv:
  assumes inv: "alloc_inv MA lo hi L s" and a: "a \<in> L"
  defines "s' \<equiv> s\<lparr>root := insert_equal (areas s) a (root s)\<rparr>"
  shows "alloc_invX MA lo hi (L - {a}) {a} s'"
    and "free_bytes MA s' = free_bytes MA s \<union> region MA s a"
    and "takeWhile (\<lambda>x. \<not> memBase (hdr (areas s) a) < memBase (hdr (areas s) x)) (root s) =
         filter (\<lambda>x. x < a) (root s)"
    and "dropWhile (\<lambda>x. \<not> memBase (hdr (areas s) a) < memBase (hdr (areas s) x)) (root s) =
         filter (\<lambda>x. a < x) (root s)"
proof -
  note d = alloc_invXD [OF inv]
  have ar: "a \<notin> set (root s)"
    using d(4) a by blast
  have mb: "\<forall>x\<in>insert a (set (root s)). memBase (hdr (areas s) x) = x"
    using d(5) a by (auto simp: area_ok_def)
  have ch: "chunks_ok {a} s'"
    using chunks_insert_root [OF d(2) ar mb] by (simp add: s'_def)
  have S: "L - {a} \<union> set (root s') = L \<union> set (root s)"
    using a by (auto simp: s'_def)
  have "a \<in> set (root s')" "(L - {a}) \<inter> set (root s') = {}"
    using d(4) by (auto simp: s'_def)
  moreover have "area_ok MA lo hi s' x \<longleftrightarrow> area_ok MA lo hi s x" for x
    by (simp add: s'_def area_ok_def area_end_def)
  moreover have "separated MA s' (L \<union> set (root s))"
    using d(6) by (simp add: s'_def separated_def area_end_def)
  ultimately show "alloc_invX MA lo hi (L - {a}) {a} s'"
    unfolding alloc_invX_def S using d(1,5) ch by auto
  show "free_bytes MA s' = free_bytes MA s \<union> region MA s a"
    by (auto simp: s'_def free_bytes_def region_def area_end_def)
  have srt: "sorted_wrt (<) (root s)"
    using d(2) by (simp add: chunks_ok_def)
  have "filter (\<lambda>x. x \<le> a) (root s) = filter (\<lambda>x. x < a) (root s)"
    using ar by (intro filter_cong) (auto simp: le_less)
  then show "takeWhile (\<lambda>x. \<not> memBase (hdr (areas s) a) < memBase (hdr (areas s) x)) (root s) =
         filter (\<lambda>x. x < a) (root s)"
    using insert_equal_filter(1) [OF srt mb] by simp
  show "dropWhile (\<lambda>x. \<not> memBase (hdr (areas s) a) < memBase (hdr (areas s) x)) (root s) =
         filter (\<lambda>x. a < x) (root s)"
    using insert_equal_filter(2) [OF srt mb] .
qed

lemma free_next_inv:
  assumes inv: "alloc_invX MA lo hi L {a} s" and post: "\<forall>n\<in>set post. n \<in> set (root s) \<and> a < n"
  shows "\<exists>s'. free_next MA a post s = Inr s' \<and> alloc_invX MA lo hi L {a} s' \<and>
           free_bytes MA s' = free_bytes MA s \<and>
           (\<forall>p\<in>set (root s). p < a \<longrightarrow> p \<in> set (root s')) \<and> (\<forall>x\<in>L. areas s' x = areas s x)"
proof (cases post)
  case Nil
  then show ?thesis
    using inv by (simp add: free_next_def)
next
  case (Cons n rest)
  note d = alloc_invXD [OF inv]
  have n: "n \<in> set (root s)" "a < n" and a: "a \<in> set (root s)"
    using post Cons d(3) by auto
  have f: "ma_free (hdr (areas s) n)"
    using invX_free [OF inv n(1)] n(2) by simp
  have na: "n \<in> L \<union> set (root s)" "a \<in> L \<union> set (root s)"
    using n a by auto
  note bn = invX_bucket [OF inv na(1)] and ba = invX_bucket [OF inv na(2)]
  show ?thesis
  proof (cases "area_end MA s a = n")
    case True
    have "area_end MA s n < 2 ^ 64"
      using d(1) d(5) [OF na(1)] by (simp add: heap_ok_def area_ok_def)
    then have w: "add64 (ma_len (hdr (areas s) a)) (add64 MA (ma_len (hdr (areas s) n))) =
        ma_len (hdr (areas s) a) + (MA + ma_len (hdr (areas s) n))"
      using True by (simp add: add64_small area_end_def)
    have ul: "unlink a (unlink n (chunkList s)) = unlink n (chunkList s)"
      using invX_unlink [OF inv] by (simp add: unlink_commute [of a])
    have "free_next MA a post s = Inr (absorb MA a n s)"
      using Cons f bn ba True by (simp add: free_next_def w absorb_def ul Let_def)
    moreover have "\<forall>x\<in>L. areas (absorb MA a n s) x = areas s x"
      using d(4) a by (auto simp: absorb_def)
    ultimately show ?thesis
      using absorb_inv [OF inv a n(1) _ True] n(2) by (auto simp: absorb_def)
  next
    case False
    then have "free_next MA a post s = Inr s"
      using Cons f bn ba by (simp add: free_next_def Let_def)
    then show ?thesis
      using inv by simp
  qed
qed

lemma free_finish_inv:
  assumes inv: "alloc_invX MA lo hi L {a} s"
  shows "\<exists>s'. free_finish a s = Inr s' \<and> alloc_inv MA lo hi L s' \<and>
           free_bytes MA s' = free_bytes MA s \<and> (\<forall>x\<in>L. areas s' x = areas s x)"
proof -
  note d = alloc_invXD [OF inv]
  have a: "a \<in> set (root s)" "a \<in> L \<union> set (root s)"
    using d(3) by auto
  let ?A = "(areas s)(a \<mapsto> (hdr (areas s) a)\<lparr>ma_free := True\<rparr>)"
  let ?t = "s\<lparr>areas := ?A\<rparr>"
  have "chunks_ok {a} ?t"
    using d(2) by (intro chunks_areas) (auto simp: hdr_upd)
  moreover have "area_ok MA lo hi ?t x" if "x \<in> L \<union> set (root s)" for x
    using d(5) [OF that] by (auto simp: area_ok_def area_end_def hdr_upd)
  moreover have "separated MA ?t (L \<union> set (root s))"
    using d(6) by (auto simp: separated_def area_end_def hdr_upd)
  ultimately have t: "alloc_invX MA lo hi L {a} ?t"
    using d(1,3,4) unfolding alloc_invX_def by simp
  let ?s' = "s\<lparr>chunkList := push_back (ilog2 (ma_len (hdr (areas s) a)) - 1) a (chunkList s), areas := ?A\<rparr>"
  have eq: "?t\<lparr>chunkList := push_back (ilog2 (ma_len (hdr (areas ?t) a)) - 1) a (chunkList ?t)\<rparr> = ?s'"
    by (rule allocator.equality) (simp_all add: hdr_upd)
  note p = push_inv [OF t, unfolded eq]
  have f: "ma_free (hdr (areas ?t) a)"
    by (simp add: hdr_upd)
  have "free_finish a s = Inr ?s'"
    using invX_bucket(1) [OF inv a(2)] invX_check [OF p(1) [OF f]] by (simp add: free_finish_def Let_def)
  moreover have "free_bytes MA ?t = free_bytes MA s"
  proof -
    have "region MA ?t x = region MA s x" for x
      by (simp add: region_def area_end_def hdr_upd)
    then show ?thesis by (simp add: free_bytes_def)
  qed
  moreover have "\<forall>x\<in>L. areas ?s' x = areas s x"
    using d(4) a by auto
  ultimately show ?thesis
    using p [OF f] by metis
qed


lemma free_prev_inv:
  assumes inv: "alloc_invX MA lo hi L {a} s" and pre: "\<forall>p\<in>set pre. p \<in> set (root s) \<and> p < a"
  shows "\<exists>s'. free_prev MA a pre s = Inr s' \<and> alloc_inv MA lo hi L s' \<and>
           free_bytes MA s' = free_bytes MA s \<and> (\<forall>x\<in>L. areas s' x = areas s x)"
proof (cases "pre \<noteq> [] \<and> area_end MA s (last pre) = a")
  case True
  note d = alloc_invXD [OF inv]
  let ?p = "last pre" and ?s = "absorb MA (last pre) a s"
  have p: "?p \<in> set (root s)" "?p < a" and a: "a \<in> set (root s)"
    using pre True d(3) last_in_set by auto
  have pa: "?p \<in> L \<union> set (root s)" "a \<in> L \<union> set (root s)"
    using p a by auto
  have f: "ma_free (hdr (areas s) ?p)"
    using invX_free [OF inv p(1)] p(2) by simp
  note ab = absorb_inv [OF inv p(1) a _ conjunct2 [OF True]]
  note bp = invX_bucket [OF inv pa(1)]
  have "area_end MA s a < 2 ^ 64"
    using d(1) d(5) [OF pa(2)] by (simp add: heap_ok_def area_ok_def)
  then have w: "add64 (ma_len (hdr (areas s) ?p)) (add64 MA (ma_len (hdr (areas s) a))) =
      ma_len (hdr (areas ?s) ?p)"
    using True by (simp add: add64_small area_end_def absorb_def hdr_upd)
  have ul: "chunkList ?s = unlink ?p (chunkList s)"
    using invX_unlink [OF inv] by (simp add: absorb_def)
  have b: "sizeToBucket (ma_len (hdr (areas ?s) ?p)) = Inr (ilog2 (ma_len (hdr (areas ?s) ?p)) - 1)"
    using invX_bucket(1) ab(1) alloc_invXD(3) by (metis Un_iff insert_subset)
  have f': "ma_free (hdr (areas ?s) ?p)"
    using f by (simp add: absorb_def hdr_upd)
  have L: "\<forall>x\<in>L. areas ?s x = areas s x"
    using d(4) p by (auto simp: absorb_def)
  let ?s' = "?s\<lparr>chunkList := push_back (ilog2 (ma_len (hdr (areas ?s) ?p)) - 1) ?p (chunkList ?s)\<rparr>"
  have "free_prev MA a pre s = Inr ?s'"
    using True f bp(1,3) b
    by (simp add: free_prev_def Let_def w ul) (simp add: absorb_def hdr_upd)
  then show ?thesis
    using push_inv [OF ab(1) f'] ab(2) L by simp
next
  case False
  have "free_prev MA a pre s = free_finish a s"
  proof (cases "pre = []")
    case False
    then have p: "last pre \<in> set (root s)" "last pre \<noteq> a" "last pre \<in> L \<union> set (root s)"
      using pre last_in_set by auto
    then show ?thesis
      using False \<open>\<not> (pre \<noteq> [] \<and> _)\<close> invX_free [OF inv p(1)] invX_bucket(3) [OF inv p(3)]
      by (simp add: free_prev_def Let_def)
  qed (simp add: free_prev_def)
  then show ?thesis
    using free_finish_inv [OF inv] by simp
qed

lemma Allocator_free_aux:
  assumes inv: "alloc_inv MA lo hi L s" and a: "a \<in> L"
  shows "\<exists>s'. Allocator_free MA (a + MA) s = Inr s' \<and> alloc_inv MA lo hi (L - {a}) s' \<and>
           free_bytes MA s' = free_bytes MA s \<union> region MA s a \<and>
           (\<forall>x\<in>L - {a}. areas s' x = areas s x)"
proof -
  note d = alloc_invXD [OF inv]
  note b = area_len_bound [OF d(1) d(5), of a]
  have sub: "sub64 (a + MA) MA = a" "0 < a" "a \<notin> set (root s)"
    using a b(3,4) d(4) by (auto simp: sub64_small)
  have as: "areas s a = Some (hdr (areas s) a)"
    using area_domD d(5) a by blast
  let ?s1 = "s\<lparr>root := insert_equal (areas s) a (root s)\<rparr>"
  note st = free_start_inv [OF inv a]
  have "\<forall>n\<in>set (filter ((<) a) (root s)). n \<in> set (root ?s1) \<and> a < n"
    by simp
  from free_next_inv [OF st(1) this] obtain s2 where s2:
    "free_next MA a (filter ((<) a) (root s)) ?s1 = Inr s2" "alloc_invX MA lo hi (L - {a}) {a} s2"
    "free_bytes MA s2 = free_bytes MA ?s1" "\<forall>p\<in>set (root ?s1). p < a \<longrightarrow> p \<in> set (root s2)"
    "\<forall>x\<in>L - {a}. areas s2 x = areas ?s1 x"
    by blast
  have "\<forall>p\<in>set (filter (\<lambda>x. x < a) (root s)). p \<in> set (root s2) \<and> p < a"
    using s2(4) by simp
  from free_prev_inv [OF s2(2) this] obtain s3 where s3:
    "free_prev MA a (filter (\<lambda>x. x < a) (root s)) s2 = Inr s3" "alloc_inv MA lo hi (L - {a}) s3"
    "free_bytes MA s3 = free_bytes MA s2" "\<forall>x\<in>L - {a}. areas s3 x = areas s2 x"
    by blast
  have "Allocator_free MA (a + MA) s = Inr s3"
    using sub as s2(1) s3(1) invX_check [OF s2(2)]
    by (simp add: Allocator_free_def Let_def st(3,4))
  then show ?thesis
    using s2(3,5) s3(2-4) st(2) by simp
qed

section \<open>memAlign\<close>

lemma memAlign_loop_steps:
  assumes "n + k < 2 ^ 64" "(n + k) mod al = 0" "\<forall>j<k. (n + j) mod al \<noteq> 0"
  shows "memAlign_loop al n = Some (n + k)"
  using assms
proof (induction k arbitrary: n)
  case 0
  then show ?case by (simp add: memAlign_loop.simps)
next
  case (Suc k)
  have "memAlign_loop al (n + 1) = Some (n + 1 + k)"
    using Suc.prems by (intro Suc.IH) (auto dest: spec [of _ "Suc _"])
  moreover have "n mod al \<noteq> 0" "add64 n 1 = n + 1"
    using Suc.prems by (auto simp: add64_small dest: spec [of _ 0])
  ultimately show ?case
    by (subst memAlign_loop.simps) simp
qed

lemma memAlign_loop_finds:
  assumes "0 < al" "n + al \<le> 2 ^ 64"
  obtains k where "k < al" "(n + k) mod al = 0" "memAlign_loop al n = Some (n + k)"
proof -
  let ?k = "LEAST k. (n + k) mod al = 0"
  obtain k0 where "k0 < al" "(n + k0) mod al = 0"
  proof (cases "n mod al = 0")
    case False
    then have "al - n mod al < al" "(n + (al - n mod al)) mod al = 0"
      using assms(1) by (simp, metis mod_add_left_eq le_add_diff_inverse mod_less_divisor
        less_or_eq_imp_le mod_self)
    then show ?thesis by (rule that)
  qed (use assms in auto)
  then have "?k < al" "(n + ?k) mod al = 0"
    using Least_le [of "\<lambda>k. (n + k) mod al = 0" k0] LeastI [of "\<lambda>k. (n + k) mod al = 0" k0] by auto
  moreover have "\<forall>j<?k. (n + j) mod al \<noteq> 0"
    using not_less_Least by blast
  moreover have "n + ?k < 2 ^ 64"
    using assms(2) \<open>?k < al\<close> by linarith
  ultimately show thesis
    using that memAlign_loop_steps [of n ?k al] by metis
qed

lemma alloc_inv_drop:
  assumes "alloc_inv MA lo hi (insert a L) s"
  shows "alloc_inv MA lo hi L s"
  using assms unfolding alloc_invX_def separated_def by auto

definition memAlign_spec ::
  "nat \<Rightarrow> nat \<Rightarrow> nat \<Rightarrow> nat set \<Rightarrow> nat \<Rightarrow> nat \<Rightarrow> allocator \<Rightarrow> nat \<Rightarrow> allocator \<Rightarrow> bool" where
  "memAlign_spec MA lo hi L alignment sz s p s' \<longleftrightarrow>
     p mod alignment = 0 \<and> MA < p \<and> alloc_inv MA lo hi L s' \<and>
     {p ..< p + sz} \<subseteq> free_bytes MA s - free_bytes MA s' \<and>
     (\<forall>x\<in>L. areas s' x = areas s x) \<and> areas s' (p - MA) = areas s (p - MA)"

lemma malloc_areas:
  assumes "malloc_spec MA lo hi L len s p s'" "p \<noteq> 0" "Allocator_malloc MA len s = Inr (p, s')"
    "p - MA < x" "x < p + len" "alloc_inv MA lo hi L s"
  shows "areas s' x = areas s x"
proof -
  from assms(2,3) obtain i a where ia: "malloc_scan s len [0..<CHUNK_LIST_SIZE] = Some (i, a)"
    "malloc_take MA len i a s = Inr (p, s')" "0 < len"
    by (auto simp: Allocator_malloc_def split: if_splits option.splits)
  then have i: "i < 40" "a \<in> set (chunkList s ! i)" "len \<le> ma_len (hdr (areas s) a)"
    using malloc_scan_Some by (force simp: CHUNK_LIST_SIZE_def)+
  show ?thesis
    using malloc_take_eq [OF assms(6) i(1,2) ia(3) i(3)] ia(2) assms(4,5)
    by (auto simp: add_area_def take_area_def split: if_splits)
qed

text \<open>The front part of a chunk in use, cut to length \<open>n\<close>, is given back.\<close>

lemma give_back:
  assumes inv: "alloc_inv MA lo hi (insert a L) s" and a: "a \<notin> L"
    and n: "0 < n" "n \<le> ma_len (hdr (areas s) a)"
  defines "s' \<equiv> add_area a ((hdr (areas s) a)\<lparr>ma_free := True, ma_len := n\<rparr>) (ilog2 n - 1) s"
  shows "alloc_inv MA lo hi L s'" and "free_bytes MA s' = free_bytes MA s \<union> {a ..< a + MA + n}"
proof -
  note d = alloc_invXD [OF inv]
  let ?m = "(hdr (areas s) a)\<lparr>ma_free := True, ma_len := n\<rparr>"
  have aok: "area_ok MA lo hi s a"
    using d(5) by blast
  have r: "n < 2 ^ 32"
    using area_len_bound(2) [OF d(1) aok] n(2) by simp
  have e: "a + MA + n \<le> area_end MA s a"
    using n(2) by (simp add: area_end_def)
  have fresh: "\<forall>x\<in>L \<union> set (root s). x \<noteq> a \<and> (x < a \<longrightarrow> area_end MA s x \<le> a) \<and>
      (a < x \<longrightarrow> a + MA + ma_len ?m \<le> x)"
  proof
    fix x assume x: "x \<in> L \<union> set (root s)"
    then have "x \<noteq> a" "x < a \<longrightarrow> area_end MA s x \<le> a" "a < x \<longrightarrow> area_end MA s a \<le> x"
      using d(4,6) a unfolding separated_def by blast+
    then show "x \<noteq> a \<and> (x < a \<longrightarrow> area_end MA s x \<le> a) \<and> (a < x \<longrightarrow> a + MA + ma_len ?m \<le> x)"
      using e by auto
  qed
  have mm: "memBase ?m = a" "canary ?m = 0xbeefbeef" "ma_free ?m" "0 < ma_len ?m"
    "lo \<le> a" "a + MA + ma_len ?m \<le> hi"
    using aok e n(1) by (auto simp: area_ok_def)
  note add = add_area_inv [OF alloc_inv_drop [OF inv] mm fresh, of "ilog2 n - 1"]
  have b: "ilog2 n - 1 < 40"
    using bucket_index [OF n(1) r] by simp
  show "alloc_inv MA lo hi L s'" and "free_bytes MA s' = free_bytes MA s \<union> {a ..< a + MA + n}"
    unfolding s'_def using add b by simp_all
qed

lemma memAlign_eq:
  assumes inv: "alloc_inv MA lo hi (insert a L) s1" and sz: "0 < sz" "0 < alignment"
    and len: "ma_len (hdr (areas s1) a) = sz + 2 * MA + alignment"
    and q: "Allocator_malloc MA (sz + 2 * MA + alignment) s = Inr (a + MA, s1)"
  obtains k where "k < alignment" "(a + 3 * MA + k) mod alignment = 0"
    "memAlign MA alignment sz s =
       Inr (Some (a + 3 * MA + k,
         add_area a ((hdr (areas s1) a)\<lparr>ma_free := True, ma_len := MA + k\<rparr>) (ilog2 (MA + k) - 1) s1))"
proof -
  note d = alloc_invXD [OF inv]
  have MA: "0 < MA"
    using d(1) by (simp add: heap_ok_def)
  have aok: "area_ok MA lo hi s1 a"
    using d(5) by blast
  note b = area_len_bound [OF d(1) aok, unfolded len]
  have w: "add64 (add64 sz (MIN_PRESERVE_SIZE MA)) alignment = sz + 2 * MA + alignment"
    "sub64 (a + MA) MA = a" "add64 (a + MA) (MIN_PRESERVE_SIZE MA) = a + 3 * MA"
    using b by (simp_all add: MIN_PRESERVE_SIZE_def add64_small sub64_small)
  have "a + 3 * MA + alignment \<le> 2 ^ 64"
    using b by simp
  from memAlign_loop_finds [OF sz(2) this] obtain k where
    k: "k < alignment" "(a + 3 * MA + k) mod alignment = 0"
      "memAlign_loop alignment (a + 3 * MA) = Some (a + 3 * MA + k)"
    by metis
  have ol: "sub64 (sub64 (a + 3 * MA + k) MA) (a + MA) = MA + k"
    using b k(1) by (simp add: sub64_small)
  have sb: "sizeToBucket (MA + k) = Inr (ilog2 (MA + k) - 1)"
    using MA b(2) k(1) by (intro sizeToBucket_small) simp_all
  have one: "ilog2 (Suc 0) = 0"
    by (simp add: ilog2.simps)
  have bk: "(if MA + k = Suc 0 then Inr 0
        else sizeToBucket (sub64 (sub64 (a + 3 * MA + k) MA) (a + MA))) = Inr (ilog2 (MA + k) - Suc 0)"
    unfolding ol sb using one by simp
  have "memAlign MA alignment sz s =
       Inr (Some (a + 3 * MA + k,
         add_area a ((hdr (areas s1) a)\<lparr>ma_free := True, ma_len := MA + k\<rparr>) (ilog2 (MA + k) - 1) s1))"
    unfolding memAlign_def w q Let_def add_area_def rbind_Inr prod.case
    using sz by (simp add: area_domD [OF aok] w k(3) ol bk split del: if_split)
  then show thesis
    by (rule that [OF k(1,2)])
qed

lemma memAlign_aux:
  assumes inv: "alloc_inv MA lo hi L s" and sz: "0 < sz" "0 < alignment"
    and fit: "a0 \<in> set (root s)" "sz + 2 * MA + alignment \<le> ma_len (hdr (areas s) a0)"
  shows "\<exists>p s'. memAlign MA alignment sz s = Inr (Some (p, s')) \<and>
           memAlign_spec MA lo hi L alignment sz s p s'"
proof -
  let ?len = "sz + 2 * MA + alignment"
  have MA: "0 < MA"
    using alloc_invXD(1) [OF inv] by (simp add: heap_ok_def)
  obtain q s1 where q: "Allocator_malloc MA ?len s = Inr (q, s1)" "malloc_spec MA lo hi L ?len s q s1"
    "q \<noteq> 0"
    using Allocator_malloc_aux [OF inv, of ?len] fit sz
    by (metis add_eq_0_iff_both_eq_0 not_le less_numeral_extra(3))
  define a where "a = q - MA"
  have m: "MA < q" "a \<notin> L" "alloc_inv MA lo hi (insert a L) s1"
    "ma_len (hdr (areas s1) a) = ?len" "region MA s1 a \<subseteq> free_bytes MA s"
    "free_bytes MA s1 \<subseteq> free_bytes MA s - region MA s1 a" "\<forall>x\<in>L. areas s1 x = areas s x"
    using q(2,3) by (auto simp: malloc_spec_def a_def)
  have qa: "q = a + MA"
    using m(1) by (simp add: a_def)
  obtain k where k: "k < alignment" "(a + 3 * MA + k) mod alignment = 0"
    "memAlign MA alignment sz s =
       Inr (Some (a + 3 * MA + k,
         add_area a ((hdr (areas s1) a)\<lparr>ma_free := True, ma_len := MA + k\<rparr>) (ilog2 (MA + k) - 1) s1))"
    using memAlign_eq [OF m(3) sz m(4)] q(1) qa by metis
  let ?p = "a + 3 * MA + k"
  let ?s = "add_area a ((hdr (areas s1) a)\<lparr>ma_free := True, ma_len := MA + k\<rparr>) (ilog2 (MA + k) - 1) s1"
  have n: "0 < MA + k" "MA + k \<le> ma_len (hdr (areas s1) a)"
    using MA k(1) m(4) by simp_all
  note g = give_back [OF m(3,2) n]
  have rg: "region MA s1 a = {a ..< a + MA + ?len}"
    by (simp add: region_def area_end_def m(4))
  have sub: "{?p ..< ?p + sz} \<subseteq> free_bytes MA s - free_bytes MA ?s"
  proof
    fix y assume y: "y \<in> {?p ..< ?p + sz}"
    then have "y \<in> region MA s1 a" "y \<notin> {a ..< a + MA + (MA + k)}"
      using k(1) MA unfolding rg by auto
    then show "y \<in> free_bytes MA s - free_bytes MA ?s"
      using m(5,6) unfolding g(2) by blast
  qed
  have ar: "areas ?s (?p - MA) = areas s (?p - MA)"
    using malloc_areas [OF q(2,3,1) _ _ inv, of "?p - MA"] MA k(1) qa
    by (simp add: add_area_def)
  have L: "\<forall>x\<in>L. areas ?s x = areas s x"
    using m(2,7) by (auto simp: add_area_def)
  have "MA < ?p"
    using m(1) qa MA by linarith
  then have "memAlign_spec MA lo hi L alignment sz s ?p ?s"
    unfolding memAlign_spec_def using k(2) g(1) sub ar L by blast
  then show ?thesis
    using k(3) by blast
qed

section \<open>Construction and growth\<close>

text \<open>
  \<open>expandHeap\<close> turns a fresh range of the heap into one free chunk: the invariant holds again,
  the range joins the free bytes, and the chunks in use stay as they were.
\<close>

lemma expandHeap_aux:
  assumes inv: "alloc_inv MA lo hi L s" and base: "lo \<le> base" "base + len \<le> hi" "MA < len"
    and fresh: "\<forall>x\<in>L \<union> set (root s). region MA s x \<inter> {base ..< base + len} = {}"
  shows "\<exists>s'. expandHeap MA base len s = Inr s' \<and> alloc_inv MA lo hi L s' \<and>
           free_bytes MA s' = free_bytes MA s \<union> {base ..< base + len} \<and>
           (\<forall>x\<in>L. areas s' x = areas s x) \<and> base \<in> set (root s') \<and>
           ma_len (hdr (areas s') base) = len - MA"
proof -
  note d = alloc_invXD [OF inv]
  have w: "sub64 len MA = len - MA"
    using base d(1) by (intro sub64_small) (auto simp: heap_ok_def)
  have eq: "expandHeap MA base len s = Inr (add_area base (MemoryArea (len - MA) base) 39 s)"
    using base(1) d(1) by (simp add: expandHeap_def add_area_def w CHUNK_LIST_SIZE_def Let_def heap_ok_def)
  have fr: "\<forall>x\<in>L \<union> set (root s). x \<noteq> base \<and> (x < base \<longrightarrow> area_end MA s x \<le> base) \<and>
      (base < x \<longrightarrow> base + MA + ma_len (MemoryArea (len - MA) base) \<le> x)"
  proof
    fix x assume x: "x \<in> L \<union> set (root s)"
    then have "x < area_end MA s x"
      using d(5) d(1) by (auto simp: area_ok_def heap_ok_def area_end_def)
    moreover have "max x base < min (area_end MA s x) (base + len) \<longrightarrow>
        max x base \<in> region MA s x \<inter> {base ..< base + len}"
      by (auto simp: region_def)
    ultimately show "x \<noteq> base \<and> (x < base \<longrightarrow> area_end MA s x \<le> base) \<and>
        (base < x \<longrightarrow> base + MA + ma_len (MemoryArea (len - MA) base) \<le> x)"
      using bspec [OF fresh x] base(3) by (auto simp: MemoryArea_def max_def min_def split: if_splits)
  qed
  have L: "\<forall>x\<in>L. areas (add_area base (MemoryArea (len - MA) base) 39 s) x = areas s x"
    using fr by (auto simp: add_area_def)
  show ?thesis
    using add_area_inv [OF inv _ _ _ _ base(1) _ fr, of 39] base L eq
    by (auto simp: MemoryArea_def) (auto simp: add_area_def hdr_upd)
qed

lemma empty_inv:
  "heap_ok MA lo hi \<Longrightarrow> alloc_inv MA lo hi {} \<lparr>areas = mem, root = [], chunkList = replicate 40 []\<rparr>"
  by (simp add: alloc_invX_def chunks_ok_def separated_def)

definition ex_alloc :: allocator where
  "ex_alloc = \<lparr>areas = [65536 \<mapsto> MemoryArea 4000 65536], root = [65536],
               chunkList = (replicate 40 [])[39 := [65536]]\<rparr>"

definition ex_alloc1 :: allocator where
  "ex_alloc1 =
     \<lparr>areas = [65536 \<mapsto> (MemoryArea 100 65536)\<lparr>ma_free := False\<rparr>, 65732 \<mapsto> MemoryArea 3804 65732],
      root = [65732], chunkList = (replicate 40 [])[10 := [65732]]\<rparr>"

lemma ex_alloc_inv: "alloc_inv 96 65536 131072 {} ex_alloc"
proof -
  have "heap_ok 96 65536 131072"
    by (simp add: heap_ok_def)
  from expandHeap_aux [OF empty_inv [OF this, of Map.empty], of 65536 4096]
  show ?thesis
    by (simp add: expandHeap_def ex_alloc_def sub64_small insert_equal_def push_back_def
        CHUNK_LIST_SIZE_def Let_def)
qed

lemma malloc_scan_skip:
  "\<forall>i\<in>set is. chunkList s ! i = [] \<Longrightarrow> malloc_scan s len (is @ js) = malloc_scan s len js"
  by (induction "is") auto

lemma ex_alloc_scan:
  "len \<le> 4000 \<Longrightarrow> malloc_scan ex_alloc len [0..<CHUNK_LIST_SIZE] = Some (39, 65536)"
proof -
  assume "len \<le> 4000"
  moreover have "[0..<CHUNK_LIST_SIZE] = [0..<39] @ [39]"
    using upt_Suc_append [of 0 39] by (simp add: CHUNK_LIST_SIZE_def)
  ultimately show ?thesis
    using malloc_scan_skip [of "[0..<39]" ex_alloc len "[39]"]
    by (simp add: ex_alloc_def hdr_def MemoryArea_def)
qed

lemma ex_bucket: "sizeToBucket 3804 = Inr 10"
  by (simp add: sizeToBucket_def myLog2_def clz_def ilog2.simps)

lemma ex_replicate: "(replicate 40 [])[39 := []] = replicate 40 []"
  by (simp add: list_update_same_conv)

lemma ex_alloc_malloc: "Allocator_malloc 96 100 ex_alloc = Inr (65632, ex_alloc1)"
  unfolding Allocator_malloc_def ex_alloc_scan [of 100, simplified]
  by (simp add: ex_alloc_def ex_alloc1_def malloc_take_def hdr_def MemoryArea_def MIN_PRESERVE_SIZE_def
      add64_small push_back_def insert_equal_def ex_bucket ex_replicate Let_def)

lemma ex_alloc1_inv: "alloc_inv 96 65536 131072 {65536} ex_alloc1"
  using Allocator_malloc_aux [OF ex_alloc_inv, of 100] ex_alloc_malloc by (auto simp: malloc_spec_def)

section \<open>Properties\<close>

text \<open>
  C10. On a well-formed heap \<open>Allocator::malloc\<close> always returns. It returns null exactly for length
  0 or when no free chunk is long enough, and then changes nothing. Otherwise it hands out the
  length asked for, out of bytes that were free, keeps the invariant and every chunk in use, and
  fewer than \<open>2 * MA_SIZE\<close> bytes fall between the chunks.
\<close>

theorem Allocator_malloc_correct:
  assumes "alloc_inv MA lo hi L s"
  shows "\<exists>p s'. Allocator_malloc MA len s = Inr (p, s') \<and> malloc_spec MA lo hi L len s p s' \<and>
           (p = 0 \<longleftrightarrow> len = 0 \<or> (\<forall>a\<in>set (root s). ma_len (hdr (areas s) a) < len))"
  using assms by (rule Allocator_malloc_aux)

theorem Allocator_malloc_correct_witness:
  "alloc_inv 96 65536 131072 {} ex_alloc \<and> Allocator_malloc 96 100 ex_alloc = Inr (65632, ex_alloc1) \<and>
   malloc_spec 96 65536 131072 {} 100 ex_alloc 65632 ex_alloc1"
  using Allocator_malloc_correct [OF ex_alloc_inv, of 100] ex_alloc_inv ex_alloc_malloc by auto

text \<open>
  C11. \<open>Allocator::free\<close> of a chunk in use runs to its end without a fault, keeps the invariant and
  the other chunks in use, and the free bytes afterwards are exactly the free bytes before and the
  bytes of the chunk, whatever it was merged with.
\<close>

theorem Allocator_free_correct:
  assumes "alloc_inv MA lo hi L s" "a \<in> L"
  shows "\<exists>s'. Allocator_free MA (a + MA) s = Inr s' \<and> alloc_inv MA lo hi (L - {a}) s' \<and>
           free_bytes MA s' = free_bytes MA s \<union> region MA s a \<and>
           (\<forall>x\<in>L - {a}. areas s' x = areas s x)"
  using assms by (rule Allocator_free_aux)

theorem Allocator_free_correct_witness:
  "alloc_inv 96 65536 131072 {65536} ex_alloc1 \<and>
   (\<exists>s'. Allocator_free 96 65632 ex_alloc1 = Inr s' \<and> alloc_inv 96 65536 131072 {} s' \<and>
      free_bytes 96 s' = {65536 ..< 69632})"
proof -
  have "free_bytes 96 ex_alloc1 \<union> region 96 ex_alloc1 65536 = {65536 ..< 69632}"
    by (auto simp: free_bytes_def region_def area_end_def ex_alloc1_def hdr_def MemoryArea_def)
  then show ?thesis
    using Allocator_free_correct [OF ex_alloc1_inv, of 65536] ex_alloc1_inv by auto
qed

text \<open>
  The rest of a chunk that is too short for a header of its own is lost for good: when the chunk
  found is less than \<open>2 * MA_SIZE\<close> bytes longer than the request, freeing the result gives back only
  the length asked for, so the bytes between the two lengths belong to no chunk any more.
\<close>

lemma malloc_free_loses_slack:
  assumes "alloc_inv MA lo hi L s" "0 < len"
    "malloc_scan s len [0..<CHUNK_LIST_SIZE] = Some (i, a)"
    "ma_len (hdr (areas s) a) < len + 2 * MA"
  shows "\<exists>s1 s2. Allocator_malloc MA len s = Inr (a + MA, s1) \<and> Allocator_free MA (a + MA) s1 = Inr s2 \<and>
           free_bytes MA s2 = free_bytes MA s - {a + MA + len ..< area_end MA s a}"
proof -
  have i: "i < 40" "a \<in> set (chunkList s ! i)" "len \<le> ma_len (hdr (areas s) a)"
    using malloc_scan_Some [OF assms(3)] by (auto simp: CHUNK_LIST_SIZE_def)
  have a: "a \<in> set (root s)"
    using chunk_in_root [OF assms(1) i(1,2)] .
  let ?s1 = "take_area len a s"
  have 1: "Allocator_malloc MA len s = Inr (a + MA, ?s1)"
    using malloc_take_eq [OF assms(1) i(1,2) assms(2) i(3)] assms(2-4) alloc_invXD(1) [OF assms(1)]
    by (auto simp: Allocator_malloc_def heap_ok_def)
  note t = take_area_inv [OF assms(1) a assms(2) i(3)]
  obtain s2 where s2: "Allocator_free MA (a + MA) ?s1 = Inr s2"
    "free_bytes MA s2 = free_bytes MA ?s1 \<union> region MA ?s1 a"
    using Allocator_free_aux [OF t(1), of a] by auto
  have "region MA ?s1 a = {a ..< a + MA + len}"
    by (simp add: region_def area_end_def take_area_def hdr_upd)
  moreover have "{a ..< area_end MA s a} \<subseteq> free_bytes MA s"
    using a unfolding free_bytes_def region_def by blast
  moreover have "a + MA + len \<le> area_end MA s a"
    using i(3) by (simp add: area_end_def)
  ultimately have "free_bytes MA s2 = free_bytes MA s - {a + MA + len ..< area_end MA s a}"
    using s2(2) t(2) [unfolded region_def] by auto
  then show ?thesis
    using 1 s2(1) by blast
qed

lemma malloc_free_loses_slack_example:
  "\<exists>s1 s2. Allocator_malloc 96 3900 ex_alloc = Inr (65632, s1) \<and> Allocator_free 96 65632 s1 = Inr s2 \<and>
     free_bytes 96 s2 = free_bytes 96 ex_alloc - {69532 ..< 69632}"
proof -
  have "malloc_scan ex_alloc 3900 [0..<CHUNK_LIST_SIZE] = Some (39, 65536)"
    by (rule ex_alloc_scan) simp
  from malloc_free_loses_slack [OF ex_alloc_inv _ this] show ?thesis
    by (simp add: ex_alloc_def hdr_def MemoryArea_def area_end_def)
qed

text \<open>
  C32. When a chunk fits, \<open>memAlign\<close> ends and returns an aligned block inside the bytes that were
  free, outside what is free afterwards, and keeps the invariant and the chunks in use. It writes no
  header in front of the block: what precedes the block is what was there before.
\<close>

theorem memAlign_correct:
  assumes "alloc_inv MA lo hi L s" "0 < sz" "0 < alignment" "a0 \<in> set (root s)"
    "sz + 2 * MA + alignment \<le> ma_len (hdr (areas s) a0)"
  shows "\<exists>p s'. memAlign MA alignment sz s = Inr (Some (p, s')) \<and>
           memAlign_spec MA lo hi L alignment sz s p s'"
  using assms by (rule memAlign_aux)

theorem memAlign_correct_witness:
  "\<exists>p s'. memAlign 96 64 200 ex_alloc = Inr (Some (p, s')) \<and>
     memAlign_spec 96 65536 131072 {} 64 200 ex_alloc p s'"
  using memAlign_correct [OF ex_alloc_inv, of 200 64 65536]
  by (simp add: ex_alloc_def hdr_def MemoryArea_def)

text \<open>
  A block from \<open>memAlign\<close> cannot be given back: where no header was constructed in front of it
  before, \<open>free\<close> and \<open>getLen\<close> of the block read a header that does not exist.
\<close>

lemma memAlign_block_not_freeable:
  assumes "alloc_inv MA lo hi L s" "0 < sz" "0 < alignment" "a0 \<in> set (root s)"
    "sz + 2 * MA + alignment \<le> ma_len (hdr (areas s) a0)"
    "memAlign MA alignment sz s = Inr (Some (p, s'))" "p < 2 ^ 64" "areas s (p - MA) = None"
  shows "Allocator_free MA p s' = Inl Wild \<and> getLen MA p s' = Inl Wild"
proof -
  have "memAlign_spec MA lo hi L alignment sz s p s'"
    using memAlign_aux [OF assms(1-5)] assms(6) by auto
  then have "areas s' (p - MA) = None" "MA < p"
    using assms(8) by (auto simp: memAlign_spec_def)
  then show ?thesis
    using assms(7) by (simp add: Allocator_free_def getLen_def sub64_small)
qed

lemma memAlign_block_not_freeable_example:
  "\<exists>s'. memAlign 96 32 200 ex_alloc = Inr (Some (65824, s')) \<and> Allocator_free 96 65824 s' = Inl Wild \<and>
     getLen 96 65824 s' = Inl Wild"
proof -
  have b: "sizeToBucket 3480 = Inr 10" "sizeToBucket 96 = Inr 5"
    by (simp_all add: sizeToBucket_def myLog2_def clz_def ilog2.simps)
  have m: "\<exists>s1. Allocator_malloc 96 424 ex_alloc = Inr (65632, s1) \<and> 65536 \<in> dom (areas s1)"
    unfolding Allocator_malloc_def ex_alloc_scan [of 424, simplified]
    by (simp add: ex_alloc_def malloc_take_def hdr_def MemoryArea_def MIN_PRESERVE_SIZE_def
        add64_small b Let_def)
  have "memAlign_loop 32 65824 = Some 65824"
    by (simp add: memAlign_loop.simps)
  with m have "\<exists>s'. memAlign 96 32 200 ex_alloc = Inr (Some (65824, s'))"
    by (auto simp: memAlign_def MIN_PRESERVE_SIZE_def add64_small sub64_small b Let_def)
  then obtain s' where s': "memAlign 96 32 200 ex_alloc = Inr (Some (65824, s'))"
    by blast
  show ?thesis
    using memAlign_block_not_freeable [OF ex_alloc_inv _ _ _ _ s', of 65536] s'
    by (simp add: ex_alloc_def hdr_def MemoryArea_def)
qed

lemma expandHeap_example:
  "\<exists>s'. expandHeap 96 73728 8192 ex_alloc1 = Inr s' \<and> alloc_inv 96 65536 131072 {65536} s' \<and>
     free_bytes 96 s' = {65732 ..< 69632} \<union> {73728 ..< 81920}"
proof -
  have "\<forall>x\<in>{65536} \<union> set (root ex_alloc1). region 96 ex_alloc1 x \<inter> {73728 ..< 73728 + 8192} = {}"
    by (simp add: region_def area_end_def ex_alloc1_def hdr_def MemoryArea_def)
  moreover have "free_bytes 96 ex_alloc1 = {65732 ..< 69632}"
    by (simp add: free_bytes_def region_def area_end_def ex_alloc1_def hdr_def MemoryArea_def)
  ultimately show ?thesis
    using expandHeap_aux [OF ex_alloc1_inv, of 73728 8192] by auto
qed

end
