(* ===== verification/Page_Manager.thy ===== *)
theory Page_Manager
  imports Prelude
begin

text \<open>
  The page allocator of the trusted heap: \<open>class PageManager\<close> and the \<open>mmap\<close> family
  (\<open>libOS/mmap.h\<close>, \<open>libOS/mmap.cpp\<close>).

  The object sits at the start of the heap it manages; \<open>bitset\<close> is a flexible array member, so the
  model keeps the bytes that follow the header as a function from offsets to bytes, whatever the
  constructor initialised of it. Every operation runs under \<open>pageManager->lock\<close> and is one step.
  Console output is not modelled. \<open>allocPages\<close> is a \<open>do ... while\<close> loop that need not end for an
  arbitrary object; \<open>None\<close> is a run that does not return.
\<close>

record page_manager =
  availableBase :: nat
  availableLength :: nat
  clock :: nat
  bitset :: "nat \<Rightarrow> u8"

definition MAP_FAILED :: nat where
  "MAP_FAILED = 2 ^ 64 - 1"

text \<open>\<open>offsetof(PageManager, bitset)\<close>: a two-byte lock padded to 8, then three 8-byte members.\<close>

definition headerLen :: nat where
  "headerLen = 32"

definition PageManager :: "nat \<Rightarrow> nat \<Rightarrow> (nat \<Rightarrow> u8) \<Rightarrow> page_manager" where
  "PageManager base len mem =
     (let bitsetByteLen = len div (4096 * 8);
          ab = page_mask (add64 (add64 (add64 base headerLen) bitsetByteLen) 4095);
          al = page_mask (sub64 (add64 base len) ab)
      in \<lparr>availableBase = ab, availableLength = al, clock = 0,
          bitset = (\<lambda>i. if i < bitsetByteLen then 0 else mem i)\<rparr>)"

definition getBit :: "nat \<Rightarrow> page_manager \<Rightarrow> bool" where
  "getBit index pm = (drop_bit (index mod 8) (bitset pm (index div 8)) AND 1 \<noteq> 0)"

definition setBit :: "nat \<Rightarrow> bool \<Rightarrow> page_manager \<Rightarrow> page_manager" where
  "setBit index t pm =
     (let temp = bitset pm (index div 8);
          new = (if t then temp OR push_bit (index mod 8) 1
                 else temp AND NOT (push_bit (index mod 8) 1))
      in pm\<lparr>bitset := (bitset pm)(index div 8 := new)\<rparr>)"

definition setBits :: "nat \<Rightarrow> nat \<Rightarrow> bool \<Rightarrow> page_manager \<Rightarrow> page_manager" where
  "setBits start n t pm = fold (\<lambda>i. setBit (start + i) t) [0..<n] pm"

definition explicitPage :: "nat \<Rightarrow> int \<Rightarrow> page_manager \<Rightarrow> bool \<times> page_manager" where
  "explicitPage addr nPages pm =
     (if addr < availableBase pm \<or>
         add64 addr (u64_of_int (s32 (nPages * 4096)))
           > add64 (availableBase pm) (availableLength pm)
      then (False, pm)
      else
        let start = sub64 addr (availableBase pm) div 4096 in
        if list_ex (\<lambda>i. getBit (start + i) pm) [0..<nat nPages] then (False, pm)
        else (True, setBits start (nat nPages) True pm))"

definition freePages :: "nat \<Rightarrow> int \<Rightarrow> page_manager \<Rightarrow> page_manager" where
  "freePages addr nPages pm =
     (let start = sub64 addr (availableBase pm) div 4096
      in setBits start (nat nPages) False pm)"

partial_function (option) allocPages_loop ::
  "int \<Rightarrow> nat \<Rightarrow> int \<Rightarrow> page_manager \<Rightarrow> (nat \<times> page_manager) option" where
  "allocPages_loop nPages start nConsec0 pm =
     (let nConsec = (if \<not> getBit (clock pm) pm then nConsec0 + 1 else 0) in
      if nConsec = nPages then
        let ret = add64 (availableBase pm) (mul64 (u64_of_int (int (clock pm) - nPages + 1)) 4096);
            (ok, pm') = explicitPage ret nPages pm
        in if \<not> ok then Some (MAP_FAILED, pm') else Some (ret, pm')
      else
        let wrap = (clock pm + 1 > availableLength pm div 4096);
            pm' = pm\<lparr>clock := (if wrap then 0 else clock pm + 1)\<rparr>;
            nConsec' = (if wrap then 0 else nConsec)
        in if clock pm' \<noteq> start then allocPages_loop nPages start nConsec' pm'
           else Some (MAP_FAILED, pm'))"

definition allocPages :: "int \<Rightarrow> page_manager \<Rightarrow> (nat \<times> page_manager) option" where
  "allocPages nPages pm =
     (if nPages \<le> 0 then Some (0, pm) else allocPages_loop nPages (clock pm) 0 pm)"

text \<open>
  The C entry points. \<open>pageManager\<close> is a global pointer that is null until \<open>mmap_init\<close> ran.
  \<open>libos_panic\<close> prints and returns, so \<open>libos_munmap\<close> goes on with the null pointer.
\<close>

definition mmap_init :: "nat \<Rightarrow> nat \<Rightarrow> (nat \<Rightarrow> u8) \<Rightarrow> page_manager option" where
  "mmap_init heapBase heapSize mem = Some (PageManager heapBase heapSize mem)"

definition libos_mmap ::
  "nat \<Rightarrow> nat \<Rightarrow> page_manager option \<Rightarrow> (nat \<times> page_manager option) option" where
  "libos_mmap base len0 pageManager =
     (let len = add64 len0 4095 in
      case pageManager of
        None \<Rightarrow> Some (MAP_FAILED, None)
      | Some pm \<Rightarrow>
          if base = 0 then
            map_option (\<lambda>(r, pm'). (r, Some pm')) (allocPages (s32 (int (len div 4096))) pm)
          else
            let (successful, pm1) = explicitPage base (s32 (int len)) pm in
            if successful then Some (base, Some pm1)
            else map_option (\<lambda>(r, pm'). (r, Some pm')) (allocPages (s32 (int (len div 4096))) pm1))"

definition libos_munmap :: "nat \<Rightarrow> nat \<Rightarrow> page_manager option \<Rightarrow> page_manager option result" where
  "libos_munmap base len0 pageManager =
     (let len = page_mask (add64 len0 4095) in
      case pageManager of
        None \<Rightarrow> Inl Wild
      | Some pm \<Rightarrow> Inr (Some (freePages base (s32 (int (len div 4096))) pm)))"

definition mmap_entry ::
  "nat \<Rightarrow> nat \<Rightarrow> int \<Rightarrow> page_manager option \<Rightarrow> (nat \<times> page_manager option) option result" where
  "mmap_entry addr len fd pageManager =
     (if fd \<ge> 0 then Inl Ud2 else Inr (libos_mmap addr len pageManager))"

definition munmap_entry ::
  "nat \<Rightarrow> nat \<Rightarrow> page_manager option \<Rightarrow> (int \<times> page_manager option) result" where
  "munmap_entry addr len pageManager =
     rbind (libos_munmap addr len pageManager) (\<lambda>pm. Inr (0, pm))"

section \<open>Single bits\<close>

lemma getBit_iff: "getBit i pm \<longleftrightarrow> bit (bitset pm (i div 8)) (i mod 8)"
proof -
  have "drop_bit n w AND 1 \<noteq> 0 \<longleftrightarrow> bit w n" for w :: u8 and n
    by (simp add: bit_iff_odd_drop_bit and_one_eq odd_iff_mod_2_eq_one)
  then show ?thesis by (simp add: getBit_def)
qed

lemma getBit_setBit: "getBit j (setBit i t pm) \<longleftrightarrow> (if j = i then t else getBit j pm)"
proof (cases "j div 8 = i div 8")
  case True
  then have "j = i \<longleftrightarrow> j mod 8 = i mod 8"
    by (metis div_mult_mod_eq)
  moreover have "j mod 8 < 8" "i mod 8 < 8" by simp_all
  ultimately show ?thesis
    using True
    by (auto simp: getBit_iff setBit_def Let_def bit_simps)
next
  case False
  then show ?thesis
    by (auto simp: getBit_iff setBit_def Let_def)
qed

lemma setBit_frame [simp]:
  "availableBase (setBit i t pm) = availableBase pm"
  "availableLength (setBit i t pm) = availableLength pm"
  "clock (setBit i t pm) = clock pm"
  by (simp_all add: setBit_def Let_def)

lemma getBit_setBits:
  "getBit j (setBits s n t pm) \<longleftrightarrow>
     (if s \<le> j \<and> j < s + n then t else getBit j pm)"
  unfolding setBits_def by (induction n) (auto simp: getBit_setBit)

lemma setBits_frame [simp]:
  "availableBase (setBits s n t pm) = availableBase pm"
  "availableLength (setBits s n t pm) = availableLength pm"
  "clock (setBits s n t pm) = clock pm"
  unfolding setBits_def by (induction n; simp)+

lemma getBit_clock [simp]: "getBit i (pm\<lparr>clock := c\<rparr>) = getBit i pm"
  by (simp add: getBit_def)

section \<open>The invariant of the object\<close>

text \<open>
  \<open>pages\<close> is the number of pages the object hands out. The scan of \<open>allocPages\<close> runs over the
  indices \<open>0 .. pages\<close>, one more than there are pages; the bit of that last index is never set.
  The heap is smaller than 2 GiB (\<open>SAFE_HEAP_LEN\<close> is 300 MiB), so that \<open>nPages * 4096\<close> stays in
  the range of \<open>int\<close>.
\<close>

definition pages :: "page_manager \<Rightarrow> nat" where
  "pages pm = availableLength pm div 4096"

definition pm_inv :: "page_manager \<Rightarrow> bool" where
  "pm_inv pm \<longleftrightarrow>
     availableBase pm mod 4096 = 0 \<and> availableLength pm mod 4096 = 0 \<and>
     0 < availableBase pm \<and>
     availableBase pm + availableLength pm + 4096 < 2 ^ 64 \<and>
     availableLength pm + 4096 < 2 ^ 31 \<and>
     clock pm \<le> pages pm \<and> \<not> getBit (pages pm) pm"

text \<open>The pages that are in use, the abstract state of the object.\<close>

definition used :: "page_manager \<Rightarrow> nat set" where
  "used pm = {i. i < pages pm \<and> getBit i pm}"

lemma availableLength_pages: "pm_inv pm \<Longrightarrow> availableLength pm = pages pm * 4096"
  unfolding pm_inv_def pages_def by (metis add.right_neutral div_mult_mod_eq)

lemma explicitPage_char:
  assumes inv: "pm_inv pm" and n: "n * 4096 < 2 ^ 31" and addr: "addr + n * 4096 < 2 ^ 64"
  defines "k \<equiv> (addr - availableBase pm) div 4096"
  shows "explicitPage addr (int n) pm =
    (if availableBase pm \<le> addr \<and> addr + n * 4096 \<le> availableBase pm + availableLength pm \<and>
        (\<forall>i<n. \<not> getBit (k + i) pm)
     then (True, setBits k n True pm) else (False, pm))"
proof -
  have s: "s32 (int n * 4096) = int (n * 4096)"
    using n by (subst s32_small) auto
  have u: "u64_of_int (int (n * 4096)) = n * 4096"
    using n by (subst u64_of_int_small) auto
  have a: "add64 addr (n * 4096) = addr + n * 4096"
    using addr by (rule add64_small)
  have b: "add64 (availableBase pm) (availableLength pm) = availableBase pm + availableLength pm"
    using inv by (auto simp: pm_inv_def intro: add64_small)
  have d: "availableBase pm \<le> addr \<Longrightarrow> sub64 addr (availableBase pm) = addr - availableBase pm"
    using addr by (auto intro: sub64_small)
  show ?thesis
    unfolding explicitPage_def s u a b
    by (auto simp: d k_def list_ex_upt Let_def)
qed

lemma explicitPage_index:
  assumes inv: "pm_inv pm" and n: "0 < n" "k + n \<le> pages pm + 1"
  shows "explicitPage (availableBase pm + k * 4096) (int n) pm =
    (if k + n \<le> pages pm \<and> (\<forall>i<n. \<not> getBit (k + i) pm)
     then (True, setBits k n True pm) else (False, pm))"
proof -
  note len = availableLength_pages [OF inv]
  have kn: "k * 4096 + n * 4096 \<le> availableLength pm + 4096"
    using mult_le_mono1 [OF n(2), of 4096] unfolding len by (simp add: add_mult_distrib)
  have "availableBase pm + availableLength pm + 4096 < 2 ^ 64" "availableLength pm + 4096 < 2 ^ 31"
    using inv by (simp_all add: pm_inv_def)
  with kn have "n * 4096 < 2 ^ 31" "availableBase pm + k * 4096 + n * 4096 < 2 ^ 64"
    by linarith+
  from explicitPage_char [OF inv this] show ?thesis
    using len by simp
qed

section \<open>Allocation\<close>

text \<open>
  What an allocation of \<open>n\<close> pages promises about the set of used pages: it fails and leaves the set
  alone, or it hands out \<open>n\<close> pages of the heap that were all unused.
\<close>

definition alloc_spec :: "nat \<Rightarrow> page_manager \<Rightarrow> nat \<Rightarrow> page_manager \<Rightarrow> bool" where
  "alloc_spec n pm r pm' \<longleftrightarrow>
     availableBase pm' = availableBase pm \<and> availableLength pm' = availableLength pm \<and>
     (r = MAP_FAILED \<and> used pm' = used pm \<or>
      (\<exists>k. r = availableBase pm + k * 4096 \<and> k + n \<le> pages pm \<and>
           {k..<k + n} \<inter> used pm = {} \<and> used pm' = used pm \<union> {k..<k + n}))"

lemma pm_inv_clock: "pm_inv pm \<Longrightarrow> c \<le> pages pm \<Longrightarrow> pm_inv (pm\<lparr>clock := c\<rparr>)"
  by (simp add: pm_inv_def pages_def)

lemma used_clock [simp]: "used (pm\<lparr>clock := c\<rparr>) = used pm"
  and pages_clock [simp]: "pages (pm\<lparr>clock := c\<rparr>) = pages pm"
  by (simp_all add: used_def pages_def)

lemma pages_setBits [simp]:
  "pages (setBits s n t pm) = pages pm"
  by (simp add: pages_def)

lemma used_setBits:
  "k + n \<le> pages pm \<Longrightarrow>
    used (setBits k n True pm) = used pm \<union> {k..<k + n}"
  by (auto simp: used_def getBit_setBits split: if_splits)

lemma used_clearBits:
  "used (setBits k n False pm) = used pm - {k..<k + n}"
  by (auto simp: used_def getBit_setBits split: if_splits)

lemma pm_inv_setBits:
  "pm_inv pm \<Longrightarrow> t \<Longrightarrow> k + n \<le> pages pm \<Longrightarrow> pm_inv (setBits k n t pm)"
  by (simp add: pm_inv_def getBit_setBits)

lemma pm_inv_clearBits: "pm_inv pm \<Longrightarrow> pm_inv (setBits k n False pm)"
  by (simp add: pm_inv_def getBit_setBits)

text \<open>
  The scan keeps a run of free pages that ends just below the clock. \<open>run_len m pm\<close> is the length
  of the run once the page at the clock has been looked at.
\<close>

definition free_run :: "nat \<Rightarrow> nat \<Rightarrow> page_manager \<Rightarrow> bool" where
  "free_run m e pm \<longleftrightarrow> m \<le> e \<and> (\<forall>i. e - m \<le> i \<and> i < e \<longrightarrow> \<not> getBit i pm)"

definition run_len :: "nat \<Rightarrow> page_manager \<Rightarrow> nat" where
  "run_len m pm = (if \<not> getBit (clock pm) pm then m + 1 else 0)"

definition tick :: "page_manager \<Rightarrow> page_manager" where
  "tick pm = pm\<lparr>clock := (if clock pm + 1 > availableLength pm div 4096 then 0 else clock pm + 1)\<rparr>"

lemma free_run_0 [simp]: "free_run 0 e pm"
  by (auto simp: free_run_def)

lemma free_run_1 [simp]: "free_run (Suc 0) (Suc e) pm \<longleftrightarrow> \<not> getBit e pm"
  by (auto simp: free_run_def le_less_Suc_eq)

lemma free_run_run_len: "free_run m (clock pm) pm \<Longrightarrow> free_run (run_len m pm) (clock pm + 1) pm"
  by (auto simp: free_run_def run_len_def less_Suc_eq)

lemma allocPages_loop_found:
  assumes inv: "pm_inv pm" and n: "0 < n" and nc: "run_len m pm = n"
    and free: "free_run n (clock pm + 1) pm"
  defines "k \<equiv> clock pm + 1 - n"
  shows "allocPages_loop (int n) start (int m) pm =
    Some (if clock pm < pages pm
          then (availableBase pm + k * 4096, setBits k n True pm)
          else (MAP_FAILED, pm))"
proof -
  note len = availableLength_pages [OF inv]
  have nle: "n \<le> clock pm + 1" using free by (simp add: free_run_def)
  then have bits: "\<forall>i<n. \<not> getBit (k + i) pm"
    using free unfolding free_run_def k_def by (metis le_add1 add_less_cancel_left le_add_diff_inverse2)
  have c: "clock pm \<le> pages pm" and b: "availableBase pm + availableLength pm + 4096 < 2 ^ 64"
    using inv by (simp_all add: pm_inv_def)
  have kp: "k \<le> pages pm" "k + n \<le> pages pm + 1" "k + n = clock pm + 1"
    using c nle n by (auto simp: k_def)
  have k: "int (clock pm) - int n + 1 = int k" using nle by (simp add: k_def)
  have k4: "k * 4096 \<le> availableLength pm" unfolding len using kp(1) by simp
  have "u64_of_int (int k) = k"
    using k4 b by (subst u64_of_int_small) auto
  then have ret: "add64 (availableBase pm) (mul64 (u64_of_int (int (clock pm) - int n + 1)) 4096)
           = availableBase pm + k * 4096"
    unfolding k using k4 b by (simp add: add64_small mul64_small)
  have ex: "explicitPage (availableBase pm + k * 4096) (int n) pm =
      (if clock pm < pages pm then (True, setBits k n True pm) else (False, pm))"
    using explicitPage_index [OF inv n kp(2)] bits kp(3) by (simp add: Suc_le_eq)
  have nci: "(if \<not> getBit (clock pm) pm then int m + 1 else 0) = int n"
    using nc by (auto simp: run_len_def split: if_splits)
  show ?thesis
    by (subst allocPages_loop.simps) (simp add: nci ret ex Let_def)
qed

lemma allocPages_loop_next:
  assumes "run_len m pm \<noteq> n"
  shows "allocPages_loop (int n) start (int m) pm =
    (if clock (tick pm) \<noteq> start
     then allocPages_loop (int n) start (int (if clock (tick pm) = 0 then 0 else run_len m pm)) (tick pm)
     else Some (MAP_FAILED, tick pm))"
proof -
  have "(if \<not> getBit (clock pm) pm then int m + 1 else 0) = int (run_len m pm)"
    by (simp add: run_len_def)
  with assms show ?thesis
    by (subst allocPages_loop.simps) (auto simp: Let_def tick_def)
qed

text \<open>How many steps are left until the clock is back at \<open>start\<close>.\<close>

definition clock_dist :: "nat \<Rightarrow> page_manager \<Rightarrow> nat" where
  "clock_dist start pm =
     (if clock pm < start then start - clock pm else pages pm + 1 - clock pm + start)"

lemma clock_dist_tick:
  assumes "pm_inv pm" "start \<le> pages pm" "clock (tick pm) \<noteq> start"
  shows "clock_dist start (tick pm) < clock_dist start pm"
  using assms by (auto simp: clock_dist_def tick_def pages_def pm_inv_def split: if_splits)

lemma tick_props [simp]:
  "used (tick pm) = used pm" "pages (tick pm) = pages pm"
  "availableBase (tick pm) = availableBase pm" "availableLength (tick pm) = availableLength pm"
  "getBit i (tick pm) = getBit i pm"
  by (simp_all add: tick_def)

lemma pm_inv_tick: "pm_inv pm \<Longrightarrow> pm_inv (tick pm)"
  unfolding tick_def by (rule pm_inv_clock) (auto simp: pages_def)

lemma free_run_tick:
  assumes "free_run m (clock pm) pm"
  shows "free_run (if clock (tick pm) = 0 then 0 else run_len m pm) (clock (tick pm)) (tick pm)"
  using free_run_run_len [OF assms] by (auto simp: free_run_def tick_def split: if_splits)

lemma alloc_spec_found:
  assumes "clock pm < pages pm" "0 < n" "free_run n (clock pm + 1) pm"
  defines "k \<equiv> clock pm + 1 - n"
  shows "alloc_spec n pm (availableBase pm + k * 4096) (setBits k n True pm)"
proof -
  have kn: "k + n \<le> pages pm" and bits: "{k..<k + n} \<inter> used pm = {}"
    using assms by (auto simp: free_run_def used_def)
  show ?thesis
    unfolding alloc_spec_def
    using kn bits used_setBits [OF kn] by (intro conjI disjI2 exI [of _ k]) auto
qed

lemma allocPages_loop_correct:
  assumes "pm_inv pm" "0 < n" "start \<le> pages pm" "m < n" "free_run m (clock pm) pm"
  shows "\<exists>r pm'. allocPages_loop (int n) start (int m) pm = Some (r, pm') \<and>
           pm_inv pm' \<and> alloc_spec n pm r pm'"
  using assms
proof (induction "clock_dist start pm" arbitrary: m pm rule: less_induct)
  case less
  note inv = less.prems(1) and n = less.prems(2)
  note run = free_run_run_len [OF less.prems(5)]
  let ?m' = "if clock (tick pm) = 0 then 0 else run_len m pm"
  show ?case
  proof (cases "run_len m pm = n")
    case True
    note run' = run [unfolded True]
    show ?thesis
      using allocPages_loop_found [OF inv n True run'] inv alloc_spec_found [OF _ n run']
        pm_inv_setBits [OF inv, of True "clock pm + 1 - n" n] run'
      by (auto simp: alloc_spec_def free_run_def)
  next
    case False
    note step = allocPages_loop_next [OF False, of start]
    show ?thesis
    proof (cases "clock (tick pm) = start")
      case True
      then show ?thesis using step pm_inv_tick [OF inv] by (simp add: alloc_spec_def)
    next
      case ne: False
      have "?m' < n" using False less.prems(4) n by (auto simp: run_len_def)
      with less.hyps [OF clock_dist_tick [OF inv less.prems(3) ne] pm_inv_tick [OF inv] n, of ?m']
        less.prems(3) free_run_tick [OF less.prems(5)]
      show ?thesis using step ne by (simp add: alloc_spec_def)
    qed
  qed
qed

lemma allocPages_correct_aux:
  assumes "pm_inv pm" "0 < n"
  shows "\<exists>r pm'. allocPages (int n) pm = Some (r, pm') \<and> pm_inv pm' \<and> alloc_spec n pm r pm'"
proof -
  have "clock pm \<le> pages pm" using assms(1) by (simp add: pm_inv_def)
  then show ?thesis
    using allocPages_loop_correct [of pm n "clock pm" 0] assms
    by (simp add: allocPages_def)
qed

lemma allocPages_loop_succeeds:
  assumes "pm_inv pm" "0 < n" "start \<le> clock pm" "m < n" "free_run m (clock pm) pm"
    and "clock pm < k + n" "clock pm - m \<le> k" "k + n \<le> pages pm" "\<forall>i. k \<le> i \<and> i < k + n \<longrightarrow> \<not> getBit i pm"
  shows "\<exists>j pm'. allocPages_loop (int n) start (int m) pm = Some (availableBase pm + j * 4096, pm') \<and> j \<le> k"
  using assms
proof (induction "k + n - clock pm" arbitrary: m pm rule: less_induct)
  case less
  note inv = less.prems(1) and n = less.prems(2)
  note run = free_run_run_len [OF less.prems(5)]
  show ?case
  proof (cases "run_len m pm = n")
    case True
    then show ?thesis
      using allocPages_loop_found [OF inv n True run [unfolded True]] less.prems(6,8)
      by (auto intro!: exI [of _ "clock pm + 1 - n"])
  next
    case False
    have tick: "clock (tick pm) = clock pm + 1"
      using less.prems(6,8) by (auto simp: tick_def pages_def)
    have busy: "getBit (clock pm) pm \<Longrightarrow> clock pm < k"
      using less.prems(6,9) not_le by blast
    then have "clock pm + 1 < k + n"
      using False less.prems(4,6,7) n by (cases "getBit (clock pm) pm") (auto simp: run_len_def)
    moreover have "clock pm + 1 - run_len m pm \<le> k"
      using busy less.prems(7) by (auto simp: run_len_def)
    moreover have "run_len m pm < n" using False less.prems(4) n by (auto simp: run_len_def)
    ultimately have "\<exists>j pm'. allocPages_loop (int n) start (int (run_len m pm)) (tick pm)
        = Some (availableBase (tick pm) + j * 4096, pm') \<and> j \<le> k"
      using less.hyps [of "tick pm" "run_len m pm"] less.prems pm_inv_tick [OF inv]
        free_run_tick [OF less.prems(5)]
      by (simp add: tick)
    then show ?thesis
      using allocPages_loop_next [OF False, of start] less.prems(3) by (simp add: tick)
  qed
qed

lemma PageManager_fields:
  fixes mem :: "nat \<Rightarrow> u8"
  assumes "base mod 4096 = 0" "0 < q" "base + q * 32768 + 4096 < 2 ^ 64"
  defines "pm \<equiv> PageManager base (q * 32768) mem"
  shows "availableBase pm = base + page_mask (headerLen + q + 4095)"
    and "availableLength pm = q * 32768 - page_mask (headerLen + q + 4095)"
proof -
  define h where "h = headerLen + q"
  have hq: "h + 4095 < q * 32768" using assms(2) by (simp add: h_def headerLen_def)
  obtain b where b: "base = b * 4096" using assms(1) by (metis add.right_neutral div_mult_mod_eq)
  have up: "page_mask (base + x) = base + page_mask x" for x
    by (simp add: b page_mask_def)
  have m: "page_mask (h + 4095) \<le> h + 4095" by (rule page_mask_le)
  have s1: "add64 (add64 (add64 base headerLen) q) 4095 = base + (h + 4095)"
    using assms(3) hq by (simp add: h_def add64_small headerLen_def)
  have "sub64 (add64 base (q * 32768)) (base + page_mask (h + 4095)) = q * 32768 - page_mask (h + 4095)"
    using assms(3) hq m by (simp add: add64_small sub64_small)
  moreover have "page_mask (q * 32768 - page_mask (h + 4095)) = q * 32768 - page_mask (h + 4095)"
  proof (rule page_mask_aligned)
    have "q * 32768 - page_mask (h + 4095) = (q * 8 - (h + 4095) div 4096) * 4096"
      by (simp add: page_mask_def diff_mult_distrib)
    then show "(q * 32768 - page_mask (h + 4095)) mod 4096 = 0" by simp
  qed
  ultimately show "availableBase pm = base + page_mask (headerLen + q + 4095)"
    and "availableLength pm = q * 32768 - page_mask (headerLen + q + 4095)"
    by (simp_all add: pm_def PageManager_def Let_def s1 up h_def add.assoc)
qed

text \<open>Small objects to evaluate on: a heap with one page, and one of 16 MiB.\<close>

definition ex_pm :: page_manager where
  "ex_pm = \<lparr>availableBase = 8192, availableLength = 4096, clock = 1, bitset = (\<lambda>_. 0)(0 := 1)\<rparr>"

definition ex_pm0 :: page_manager where
  "ex_pm0 = \<lparr>availableBase = 8192, availableLength = 4096, clock = 0, bitset = (\<lambda>_. 0)\<rparr>"

definition ex_pm16 :: page_manager where
  "ex_pm16 = \<lparr>availableBase = 4096, availableLength = 4096 * 4096, clock = 0, bitset = (\<lambda>_. 0)\<rparr>"

lemmas pm_eval = allocPages_def allocPages_loop.simps getBit_def explicitPage_def setBits_def
  setBit_def freePages_def add64_def sub64_def mul64_def u64_of_int_def s32_def MAP_FAILED_def Let_def

lemma ex_pm_inv: "pm_inv ex_pm" "clock ex_pm = pages ex_pm"
  by (simp_all add: pm_inv_def ex_pm_def pages_def getBit_def)

lemma ex_pm0_inv: "pm_inv ex_pm0" "clock ex_pm0 = 0" "pages ex_pm0 = 1" "used ex_pm0 = {}"
  by (simp_all add: pm_inv_def ex_pm0_def pages_def getBit_def used_def)

lemma ex_pm16_inv: "pm_inv ex_pm16" "pages ex_pm16 = 4096" "used ex_pm16 = {}"
  by (simp_all add: pm_inv_def ex_pm16_def pages_def getBit_def used_def)

lemma ex_pm0_constructed: "PageManager 4096 8192 (\<lambda>_. 0) = ex_pm0"
  by (simp add: PageManager_def headerLen_def page_mask_def add64_def sub64_def ex_pm0_def Let_def)

lemma ex_pm0_alloc: "allocPages 1 ex_pm0 = Some (8192, ex_pm\<lparr>clock := 0\<rparr>)"
  by (simp add: pm_eval ex_pm_def ex_pm0_def)

lemma ex_pm_full: "allocPages 1 (ex_pm\<lparr>clock := 0\<rparr>) = Some (MAP_FAILED, ex_pm)"
  by (simp add: pm_eval ex_pm_def)

lemma ex_pm_freed: "used (freePages 8192 1 ex_pm) = {}"
  by (simp add: pm_eval ex_pm_def used_def pages_def)

section \<open>Properties\<close>

text \<open>
  C12. For a well-formed page manager a request for \<open>n\<close> pages always returns. It either fails and
  changes no page, or hands out \<open>n\<close> contiguous pages inside the heap none of which was in use, and
  marks exactly those; the object stays well formed.
\<close>

theorem allocPages_correct:
  assumes "pm_inv pm" "0 < n"
  shows "\<exists>r pm'. allocPages (int n) pm = Some (r, pm') \<and> pm_inv pm' \<and> alloc_spec n pm r pm'"
  using assms by (rule allocPages_correct_aux)

theorem allocPages_correct_witness:
  "pm_inv ex_pm0 \<and> (\<exists>r pm'. allocPages 1 ex_pm0 = Some (r, pm') \<and> pm_inv pm' \<and> alloc_spec 1 ex_pm0 r pm')"
  using ex_pm0_inv(1) allocPages_correct [of ex_pm0 1] by simp

lemma allocPages_succeeds_aux:
  assumes "pm_inv pm" "0 < n" "clock pm \<le> k" "k + n \<le> pages pm" "{k..<k + n} \<inter> used pm = {}"
  shows "\<exists>j pm'. allocPages (int n) pm = Some (availableBase pm + j * 4096, pm') \<and> j \<le> k"
proof -
  have "\<forall>i. k \<le> i \<and> i < k + n \<longrightarrow> \<not> getBit i pm"
    using assms(4,5) by (fastforce simp: used_def)
  with allocPages_loop_succeeds [of pm n "clock pm" 0 k] assms show ?thesis
    by (simp add: allocPages_def)
qed

text \<open>
  C30. A request succeeds whenever the part of the heap from the clock upwards holds a long enough
  run of unused pages, and the block handed out starts at or below that run.
\<close>

theorem allocPages_succeeds:
  assumes "pm_inv pm" "0 < n" "clock pm \<le> k" "k + n \<le> pages pm" "{k..<k + n} \<inter> used pm = {}"
  shows "\<exists>j pm'. allocPages (int n) pm = Some (availableBase pm + j * 4096, pm') \<and> j \<le> k"
  using assms by (rule allocPages_succeeds_aux)

theorem allocPages_succeeds_witness:
  "pm_inv ex_pm0 \<and> (\<exists>j pm'. allocPages 1 ex_pm0 = Some (availableBase ex_pm0 + j * 4096, pm') \<and> j \<le> 0)"
  using allocPages_succeeds [of ex_pm0 1 0] by (simp add: ex_pm0_inv)

text \<open>
  C40. Once the clock has reached the index one past the last page, every later request for a single
  page fails and changes nothing, whatever has been freed in the meantime: the scan takes the
  non-existing page for a free one, \<open>explicitPage\<close> refuses it, and the loop gives up.
\<close>

theorem allocPages_stuck_at_end:
  assumes "pm_inv pm" "clock pm = pages pm"
  shows "allocPages 1 (freePages addr cnt pm) = Some (MAP_FAILED, freePages addr cnt pm)"
proof -
  define pm1 where "pm1 = freePages addr cnt pm"
  have "pm_inv pm1"
    using assms(1) by (simp add: pm1_def freePages_def Let_def pm_inv_clearBits)
  moreover have "clock pm1 = pages pm1"
    using assms(2) by (simp add: pm1_def freePages_def Let_def)
  moreover from calculation have "\<not> getBit (clock pm1) pm1" by (simp add: pm_inv_def)
  ultimately show ?thesis
    using allocPages_loop_found [of pm1 1 0 "clock pm1"]
    unfolding pm1_def [symmetric]
    by (simp add: allocPages_def run_len_def)
qed

theorem allocPages_stuck_at_end_witness:
  "allocPages 1 (PageManager 4096 8192 (\<lambda>_. 0)) = Some (8192, ex_pm\<lparr>clock := 0\<rparr>) \<and>
   allocPages 1 (ex_pm\<lparr>clock := 0\<rparr>) = Some (MAP_FAILED, ex_pm) \<and>
   used (freePages 8192 1 ex_pm) = {} \<and>
   allocPages 1 (freePages 8192 1 ex_pm) = Some (MAP_FAILED, freePages 8192 1 ex_pm)"
  using ex_pm0_constructed ex_pm0_alloc ex_pm_full ex_pm_freed allocPages_stuck_at_end [OF ex_pm_inv]
  by simp

text \<open>
  The constructor on a page-aligned heap whose length is a multiple of 32 KiB gives a well-formed
  object with no page in use, and the bit of every index the scan can reach lies in the
  \<open>bitsetByteLen\<close> bytes that the constructor cleared.
\<close>

lemma PageManager_wf:
  fixes mem :: "nat \<Rightarrow> u8"
  assumes "base mod 4096 = 0" "0 < q" "base + q * 32768 + 4096 < 2 ^ 64" "q * 32768 + 4096 < 2 ^ 31"
    and "0 < base"
  defines "pm \<equiv> PageManager base (q * 32768) mem"
  shows "pm_inv pm \<and> used pm = {} \<and> (\<forall>i\<le>pages pm. i div 8 < q)"
proof -
  note f = PageManager_fields [OF assms(1-3), of mem, folded pm_def]
  have lo: "4096 \<le> page_mask (headerLen + q + 4095)"
    by (simp add: page_mask_def headerLen_def)
  have "pages pm \<le> (q * 32768 - 4096) div 4096"
    unfolding pages_def f(2) using lo by (intro div_le_mono diff_le_mono2)
  also have "\<dots> = 8 * q - 1" by (cases q) simp_all
  finally have pg: "pages pm < 8 * q" using assms(2) by simp
  have bits: "\<forall>i\<le>pages pm. i div 8 < q" using pg by (auto simp: less_mult_imp_div_less mult.commute)
  have zero: "\<not> getBit i pm" if "i \<le> pages pm" for i
  proof -
    have "bitset pm (i div 8) = 0" using bits that by (simp add: pm_def PageManager_def Let_def)
    then show ?thesis by (simp add: getBit_def)
  qed
  have "availableBase pm mod 4096 = 0" "availableLength pm mod 4096 = 0"
    by (simp_all add: pm_def PageManager_def Let_def)
  moreover have "availableLength pm \<le> q * 32768" "availableBase pm + availableLength pm \<le> base + q * 32768"
    using page_mask_le [of "headerLen + q + 4095"] assms(2) by (simp_all add: f headerLen_def)
  ultimately have "pm_inv pm"
    using zero assms(3-5) f(1) by (simp add: pm_inv_def) (simp add: pm_def PageManager_def Let_def)
  then show ?thesis using zero bits by (auto simp: used_def)
qed

lemma PageManager_wf_example:
  "pm_inv (PageManager 4096 32768 (\<lambda>_. 255)) \<and> used (PageManager 4096 32768 (\<lambda>_. 255)) = {}"
  using PageManager_wf [of 4096 1 "\<lambda>_. 255"] by simp



text \<open>
  With an address hint inside the heap, \<open>libos_mmap\<close> hands the rounded byte count to
  \<open>explicitPage\<close>, which takes a page count: \<open>len + 4095\<close> pages are reserved where
  \<open>(len + 4095) div 4096\<close> were asked for.
\<close>

lemma libos_mmap_hint_reserves_bytes_as_pages:
  assumes inv: "pm_inv pm" and n: "(len + 4095) * 4096 < 2 ^ 31" "k + (len + 4095) \<le> pages pm"
    and free: "{k..<k + (len + 4095)} \<inter> used pm = {}"
  defines "hint \<equiv> availableBase pm + k * 4096"
  shows "\<exists>pm'. libos_mmap hint len (Some pm) = Some (hint, Some pm') \<and>
           used pm' = used pm \<union> {k..<k + (len + 4095)}"
proof -
  have a: "add64 len 4095 = len + 4095" using n(1) by (simp add: add64_small)
  have s: "s32 (int (len + 4095)) = int (len + 4095)" using n(1) by (subst s32_small) auto
  have "\<forall>i<len + 4095. \<not> getBit (k + i) pm"
  proof (intro allI impI)
    fix i assume "i < len + 4095"
    then have "k + i \<in> {k..<k + (len + 4095)}" "k + i < pages pm" using n(2) by simp_all
    moreover from this(1) have "k + i \<notin> used pm" using free by blast
    ultimately show "\<not> getBit (k + i) pm" by (simp add: used_def)
  qed
  then have "explicitPage hint (int (len + 4095)) pm = (True, setBits k (len + 4095) True pm)"
    using explicitPage_index [OF inv, of "len + 4095" k] n(2) unfolding hint_def by simp
  moreover have "hint \<noteq> 0" using inv by (simp add: hint_def pm_inv_def)
  ultimately have "libos_mmap hint len (Some pm) = Some (hint, Some (setBits k (len + 4095) True pm))"
    by (simp only: libos_mmap_def a s Let_def option.case if_False prod.case if_True)
  then show ?thesis using used_setBits [OF n(2)] by blast
qed

lemma libos_mmap_hint_example:
  "\<exists>pm'. libos_mmap 4096 1 (Some ex_pm16) = Some (4096, Some pm') \<and> used pm' = {0..<4096}"
  using libos_mmap_hint_reserves_bytes_as_pages [of ex_pm16 1 0] ex_pm16_inv
  by (simp add: ex_pm16_def)

end
