(* ===== verification/Malloc.thy ===== *)
theory Malloc
  imports Allocator Page_Manager
begin

text \<open>
  The C heap interface of the libOS: \<open>malloc\<close>, \<open>free\<close>, \<open>realloc\<close> and \<open>calloc\<close> of
  \<open>libOS/malloc.cpp\<close>, and the set-up of the two allocators in \<open>libOS/allocator.cpp\<close>.

  The state holds the three globals, null pointers being \<open>None\<close>, and the bytes the program stores
  in its blocks. Chunk headers are kept by the allocators, not in \<open>mem\<close>. A function result
  \<open>Inr None\<close> is a run that does not return, inherited from the page scan.
\<close>

section \<open>State and operations\<close>

record libos_heap =
  pageManager :: "page_manager option"
  safeAllocator :: "allocator option"
  unsafeAllocator :: "allocator option"
  mem :: "nat \<Rightarrow> u8"

text \<open>\<open>libos_panic\<close> prints and returns, so the constructor then runs at the address \<open>-1\<close>.\<close>

definition initSafeMalloc ::
  "nat \<Rightarrow> nat \<Rightarrow> nat \<Rightarrow> libos_heap \<Rightarrow> libos_heap option result" where
  "initSafeMalloc MA_SIZE allocatorSize len st =
     (case libos_mmap 0 len (pageManager st) of
        None \<Rightarrow> Inr None
      | Some (base, pm) \<Rightarrow>
          if base = MAP_FAILED \<or> base = 0 then Inl Wild
          else rbind (Allocator MA_SIZE Map.empty (sub64 len allocatorSize) (add64 base allocatorSize))
                 (\<lambda>al. Inr (Some (st\<lparr>pageManager := pm, safeAllocator := Some al\<rparr>))))"

definition initUnsafeMalloc ::
  "nat \<Rightarrow> nat \<Rightarrow> nat \<Rightarrow> nat \<Rightarrow> libos_heap \<Rightarrow> libos_heap result" where
  "initUnsafeMalloc MA_SIZE allocatorSize base len st =
     rbind (Allocator MA_SIZE Map.empty (sub64 len allocatorSize) (add64 base allocatorSize))
       (\<lambda>al. Inr (st\<lparr>unsafeAllocator := Some al\<rparr>))"

definition unsafeMalloc :: "nat \<Rightarrow> nat \<Rightarrow> libos_heap \<Rightarrow> (nat \<times> libos_heap) result" where
  "unsafeMalloc MA_SIZE len st =
     (case unsafeAllocator st of
        None \<Rightarrow> Inl Wild
      | Some al \<Rightarrow> rbind (Allocator_malloc MA_SIZE len al)
                     (\<lambda>(p, al'). Inr (p, st\<lparr>unsafeAllocator := Some al'\<rparr>)))"

definition unsafeFree :: "nat \<Rightarrow> nat \<Rightarrow> libos_heap \<Rightarrow> libos_heap result" where
  "unsafeFree MA_SIZE ptr st =
     (case unsafeAllocator st of
        None \<Rightarrow> Inl Wild
      | Some al \<Rightarrow> rbind (Allocator_free MA_SIZE ptr al) (\<lambda>al'. Inr (st\<lparr>unsafeAllocator := Some al'\<rparr>)))"

text \<open>
  \<open>createUnsafeObj\<close> with the constructor as a parameter: it runs on the memory returned, whatever
  that is. \<open>UnsafeAllocator\<close> is the allocator of the standard containers.
\<close>

definition createUnsafeObj ::
  "nat \<Rightarrow> nat \<Rightarrow> (nat \<Rightarrow> libos_heap \<Rightarrow> libos_heap result) \<Rightarrow> libos_heap \<Rightarrow> (nat \<times> libos_heap) result" where
  "createUnsafeObj MA_SIZE objSize construct st =
     rbind (unsafeMalloc MA_SIZE objSize st) (\<lambda>(p, st1).
       if p = 0 then Inl Wild else rbind (construct p st1) (\<lambda>st2. Inr (p, st2)))"

definition UnsafeAllocator_allocate :: "nat \<Rightarrow> nat \<Rightarrow> nat \<Rightarrow> libos_heap \<Rightarrow> (nat \<times> libos_heap) result" where
  "UnsafeAllocator_allocate MA_SIZE tSize n st = unsafeMalloc MA_SIZE (mul64 n tSize) st"

definition UnsafeAllocator_deallocate :: "nat \<Rightarrow> nat \<Rightarrow> nat \<Rightarrow> libos_heap \<Rightarrow> libos_heap result" where
  "UnsafeAllocator_deallocate MA_SIZE p n st = unsafeFree MA_SIZE p st"

definition safe_malloc :: "nat \<Rightarrow> nat \<Rightarrow> libos_heap \<Rightarrow> (nat \<times> libos_heap) result" where
  "safe_malloc MA_SIZE len st =
     (case safeAllocator st of
        None \<Rightarrow> Inl Wild
      | Some al \<Rightarrow> rbind (Allocator_malloc MA_SIZE len al)
                     (\<lambda>(p, al'). Inr (p, st\<lparr>safeAllocator := Some al'\<rparr>)))"

definition malloc :: "nat \<Rightarrow> nat \<Rightarrow> libos_heap \<Rightarrow> (nat \<times> libos_heap) option result" where
  "malloc MA_SIZE len st =
     (if len > 0x10000000 then Inl Ud2
      else rbind (safe_malloc MA_SIZE len st) (\<lambda>(ret, st1).
        if ret \<noteq> 0 then Inr (Some (ret, st1))
        else
          let expandBy = mul64 (page_mask (add64 len 4095)) 2 in
          (case libos_mmap 0 expandBy (pageManager st1) of
             None \<Rightarrow> Inr None
           | Some (newPages, pm) \<Rightarrow>
               let st2 = st1\<lparr>pageManager := pm\<rparr> in
               if newPages = MAP_FAILED then Inr (Some (0, st2))
               else rbind (expandHeap MA_SIZE newPages expandBy (the (safeAllocator st2))) (\<lambda>al.
                    rbind (safe_malloc MA_SIZE len (st2\<lparr>safeAllocator := Some al\<rparr>))
                      (\<lambda>r. Inr (Some r))))))"

definition free :: "nat \<Rightarrow> nat \<Rightarrow> libos_heap \<Rightarrow> libos_heap result" where
  "free MA_SIZE ptr st =
     (case safeAllocator st of
        None \<Rightarrow> Inl Wild
      | Some al \<Rightarrow> rbind (Allocator_free MA_SIZE ptr al) (\<lambda>al'. Inr (st\<lparr>safeAllocator := Some al'\<rparr>)))"

definition memcpy :: "nat \<Rightarrow> nat \<Rightarrow> nat \<Rightarrow> (nat \<Rightarrow> u8) \<Rightarrow> (nat \<Rightarrow> u8)" where
  "memcpy dest src n m = (\<lambda>i. if dest \<le> i \<and> i < dest + n then m (src + (i - dest)) else m i)"

definition memset :: "nat \<Rightarrow> u8 \<Rightarrow> nat \<Rightarrow> (nat \<Rightarrow> u8) \<Rightarrow> (nat \<Rightarrow> u8)" where
  "memset dest c n m = (\<lambda>i. if dest \<le> i \<and> i < dest + n then c else m i)"

definition realloc :: "nat \<Rightarrow> nat \<Rightarrow> nat \<Rightarrow> libos_heap \<Rightarrow> (nat \<times> libos_heap) option result" where
  "realloc MA_SIZE ptr newSize st =
     rbind (malloc MA_SIZE newSize st) (\<lambda>r.
       case r of None \<Rightarrow> Inr None
       | Some (newChunk, st1) \<Rightarrow>
           rbind (getLen MA_SIZE ptr (the (safeAllocator st1))) (\<lambda>n.
             if newChunk = 0 \<and> n > 0 then Inl Wild
             else Inr (Some (newChunk, st1\<lparr>mem := memcpy newChunk ptr n (mem st1)\<rparr>))))"

definition calloc :: "nat \<Rightarrow> nat \<Rightarrow> nat \<Rightarrow> libos_heap \<Rightarrow> (nat \<times> libos_heap) option result" where
  "calloc MA_SIZE m n st =
     rbind (malloc MA_SIZE (mul64 m n) st) (\<lambda>r.
       case r of None \<Rightarrow> Inr None
       | Some (ret, st1) \<Rightarrow>
           if ret = 0 then Inr (Some (ret, st1))
           else Inr (Some (ret, st1\<lparr>mem := memset ret 0 (mul64 m n) (mem st1)\<rparr>)))"

section \<open>What the allocator needs of the page manager\<close>

text \<open>
  The contract between \<open>malloc\<close> and the page manager. \<open>grab n\<close> asks for \<open>n\<close> bytes, \<open>taken\<close> is the
  set of bytes handed out, inside the bounds \<open>lo\<close> and \<open>hi\<close>.
\<close>

locale page_source =
  fixes grab :: "nat \<Rightarrow> 'p \<Rightarrow> (nat \<times> 'p) option"
    and ok :: "'p \<Rightarrow> bool"
    and taken :: "'p \<Rightarrow> nat set"
    and lo hi :: "'p \<Rightarrow> nat"
  assumes grab_returns: "ok p \<Longrightarrow> 0 < n \<Longrightarrow> n + 4096 < 2 ^ 31 \<Longrightarrow>
      \<exists>r p'. grab n p = Some (r, p') \<and> ok p' \<and> lo p' = lo p \<and> hi p' = hi p"
    and grab_failed: "ok p \<Longrightarrow> 0 < n \<Longrightarrow> n + 4096 < 2 ^ 31 \<Longrightarrow> grab n p = Some (MAP_FAILED, p') \<Longrightarrow>
      taken p' = taken p"
    and grab_fresh: "ok p \<Longrightarrow> 0 < n \<Longrightarrow> n + 4096 < 2 ^ 31 \<Longrightarrow> grab n p = Some (r, p') \<Longrightarrow>
      r \<noteq> MAP_FAILED \<Longrightarrow>
      {r ..< r + n} \<inter> taken p = {} \<and> taken p \<union> {r ..< r + n} \<subseteq> taken p' \<and> lo p \<le> r \<and> r + n \<le> hi p"
begin

definition backed :: "nat \<Rightarrow> nat set \<Rightarrow> allocator \<Rightarrow> 'p \<Rightarrow> bool" where
  "backed MA L al p \<longleftrightarrow>
     ok p \<and> alloc_inv MA (lo p) (hi p) L al \<and> (\<forall>x\<in>L \<union> set (root al). region MA al x \<subseteq> taken p)"

lemma backed_shrink:
  assumes "backed MA L al p" "alloc_inv MA (lo p) (hi p) L' al'"
    "\<forall>x\<in>L'. region MA al' x \<subseteq> (\<Union>y\<in>L. region MA al y) \<union> free_bytes MA al"
    "free_bytes MA al' \<subseteq> (\<Union>y\<in>L. region MA al y) \<union> free_bytes MA al"
  shows "backed MA L' al' p"
proof -
  let ?T = "(\<Union>y\<in>L. region MA al y) \<union> free_bytes MA al"
  have T: "?T \<subseteq> taken p"
    using assms(1) by (auto simp: backed_def free_bytes_def)
  have "region MA al' x \<subseteq> ?T" if "x \<in> L' \<union> set (root al')" for x
  proof (cases "x \<in> L'")
    case False
    then have "region MA al' x \<subseteq> free_bytes MA al'"
      using that by (auto simp: free_bytes_def)
    then show ?thesis using assms(4) by (rule order_trans)
  qed (use assms(3) in blast)
  then have "region MA al' x \<subseteq> taken p" if "x \<in> L' \<union> set (root al')" for x
    using T that by (meson order_trans)
  then show ?thesis
    using assms(1,2) by (simp add: backed_def)
qed

lemma backed_failed:
  assumes "backed MA L al p" "0 < n" "n + 4096 < 2 ^ 31" "grab n p = Some (MAP_FAILED, p')"
  shows "backed MA L al p'"
  using assms grab_returns [of p n] grab_failed [of p n p'] by (auto simp: backed_def)

lemma backed_expand:
  assumes b: "backed MA L al p" and n: "0 < n" "n + 4096 < 2 ^ 31" "MA < n"
    and g: "grab n p = Some (r, p')" "r \<noteq> MAP_FAILED"
  shows "\<exists>al'. expandHeap MA r n al = Inr al' \<and> backed MA L al' p' \<and> (\<forall>x\<in>L. areas al' x = areas al x) \<and>
           r \<in> set (root al') \<and> ma_len (hdr (areas al') r) = n - MA"
proof -
  have ok: "ok p" and inv: "alloc_inv MA (lo p) (hi p) L al"
    and tk: "\<forall>x\<in>L \<union> set (root al). region MA al x \<subseteq> taken p"
    using b by (auto simp: backed_def)
  have p': "ok p'" "lo p' = lo p" "hi p' = hi p"
    using grab_returns [OF ok n(1,2)] g(1) by auto
  note f = grab_fresh [OF ok n(1,2) g]
  have fr: "\<forall>x\<in>L \<union> set (root al). region MA al x \<inter> {r ..< r + n} = {}"
    using tk f by blast
  have lohi: "lo p \<le> r" "r + n \<le> hi p"
    using f by blast+
  from expandHeap_aux [OF inv lohi n(3) fr] obtain al' where al':
    "expandHeap MA r n al = Inr al'" "alloc_inv MA (lo p) (hi p) L al'"
    "free_bytes MA al' = free_bytes MA al \<union> {r ..< r + n}" "\<forall>x\<in>L. areas al' x = areas al x"
    "r \<in> set (root al')" "ma_len (hdr (areas al') r) = n - MA"
    by blast
  have "free_bytes MA al \<subseteq> taken p"
    using tk by (auto simp: free_bytes_def)
  then have "free_bytes MA al' \<subseteq> taken p'"
    using al'(3) f by blast
  moreover have "region MA al' x \<subseteq> free_bytes MA al'" if "x \<in> set (root al')" for x
    using that by (auto simp: free_bytes_def)
  moreover have "region MA al' x = region MA al x" if "x \<in> L" for x
    using al'(4) that by (simp add: region_def area_end_def hdr_def)
  ultimately have "region MA al' x \<subseteq> taken p'" if "x \<in> L \<union> set (root al')" for x
    using that tk f by (metis Un_iff le_sup_iff order_trans)
  then have "backed MA L al' p'"
    using al'(2) p' by (simp add: backed_def)
  then show ?thesis
    using al' by blast
qed

end

definition taken :: "page_manager option \<Rightarrow> nat set" where
  "taken p = (case p of None \<Rightarrow> {} | Some pm \<Rightarrow>
     {x. availableBase pm \<le> x \<and> (x - availableBase pm) div 4096 \<in> used pm})"

definition pm_ok :: "page_manager option \<Rightarrow> bool" where
  "pm_ok p \<longleftrightarrow> (case p of None \<Rightarrow> False | Some pm \<Rightarrow> pm_inv pm)"

definition heap_lo :: "page_manager option \<Rightarrow> nat" where
  "heap_lo p = (case p of None \<Rightarrow> 0 | Some pm \<Rightarrow> availableBase pm)"

definition heap_hi :: "page_manager option \<Rightarrow> nat" where
  "heap_hi p = (case p of None \<Rightarrow> 0 | Some pm \<Rightarrow> availableBase pm + availableLength pm)"

lemma libos_mmap_alloc:
  assumes "pm_inv pm" "0 < len" "len + 4096 < 2 ^ 31"
  shows "\<exists>r pm'. libos_mmap 0 len (Some pm) = Some (r, Some pm') \<and> pm_inv pm' \<and>
           alloc_spec ((len + 4095) div 4096) pm r pm'"
proof -
  define n where "n = (len + 4095) div 4096"
  have n: "0 < n"
    using assms(2) by (simp add: n_def div_greater_zero_iff)
  have "n \<le> len + 4095"
    by (simp add: n_def)
  then have s: "s32 (int n) = int n"
    using assms(3) by (subst s32_small) auto
  have a: "add64 len 4095 = len + 4095"
    using assms(3) by (simp add: add64_small)
  show ?thesis
    using allocPages_correct_aux [OF assms(1) n] by (auto simp: libos_mmap_def a s [unfolded n_def] n_def)
qed

lemma taken_run:
  assumes "k * 4096 + n * 4096 \<le> availableLength pm" "{k ..< k + n} \<subseteq> used pm" "len \<le> n * 4096"
  shows "{availableBase pm + k * 4096 ..< availableBase pm + k * 4096 + len} \<subseteq> taken (Some pm)"
proof
  fix x assume x: "x \<in> {availableBase pm + k * 4096 ..< availableBase pm + k * 4096 + len}"
  define y where "y = x - availableBase pm"
  have "k * 4096 \<le> y" "y < (k + n) * 4096"
    using x assms(3) by (auto simp: y_def add_mult_distrib)
  then have "k \<le> y div 4096" "y div 4096 < k + n"
    by (simp_all add: less_eq_div_iff_mult_less_eq div_less_iff_less_mult)
  then show "x \<in> taken (Some pm)"
    using x assms(2) by (auto simp: taken_def y_def)
qed

lemma libos_mmap_fresh:
  assumes inv: "pm_inv pm" and len: "0 < len" "len + 4096 < 2 ^ 31"
    and g: "libos_mmap 0 len (Some pm) = Some (r, p')" "r \<noteq> MAP_FAILED"
  shows "{r ..< r + len} \<inter> taken (Some pm) = {} \<and> taken (Some pm) \<union> {r ..< r + len} \<subseteq> taken p' \<and>
    availableBase pm \<le> r \<and> r + len \<le> availableBase pm + availableLength pm"
proof -
  let ?n = "(len + 4095) div 4096"
  obtain pm' where pm': "p' = Some pm'" "pm_inv pm'" "alloc_spec ?n pm r pm'"
    using libos_mmap_alloc [OF inv len] g(1) by auto
  then obtain k where k: "r = availableBase pm + k * 4096" "k + ?n \<le> pages pm"
    "{k..<k + ?n} \<inter> used pm = {}" "used pm' = used pm \<union> {k..<k + ?n}"
    "availableBase pm' = availableBase pm" "availableLength pm' = availableLength pm"
    using g(2) by (auto simp: alloc_spec_def)
  have ln: "len \<le> ?n * 4096"
    using page_mask_up [of len] by (simp add: page_mask_def)
  have fit: "k * 4096 + ?n * 4096 \<le> availableLength pm"
    using mult_le_mono1 [OF k(2), of 4096] availableLength_pages [OF inv] by (simp add: add_mult_distrib)
  have new: "{r ..< r + len} \<subseteq> taken p'"
    using taken_run [of k ?n pm' len] fit k ln by (simp add: pm'(1))
  have "x \<notin> taken (Some pm)" if "x \<in> {r ..< r + len}" for x
  proof -
    define y where "y = x - availableBase pm"
    have "k * 4096 \<le> y" "y < (k + ?n) * 4096"
      using that ln k(1) by (auto simp: y_def add_mult_distrib)
    then have "k \<le> y div 4096" "y div 4096 < k + ?n"
      by (simp_all add: less_eq_div_iff_mult_less_eq div_less_iff_less_mult)
    then have "y div 4096 \<notin> used pm"
      using k(3) by auto
    then show ?thesis
      by (simp add: taken_def y_def)
  qed
  moreover have "taken (Some pm) \<subseteq> taken p'"
    using k(4,5) by (auto simp: taken_def pm'(1))
  ultimately show ?thesis
    using new fit ln k(1) by auto
qed

text \<open>\<open>libos_mmap\<close> without an address keeps the contract.\<close>

interpretation heap: page_source "libos_mmap 0" pm_ok taken heap_lo heap_hi
proof
  fix p :: "page_manager option" and n :: nat
  assume "pm_ok p" and n: "0 < n" "n + 4096 < 2 ^ 31"
  then obtain pm where pm: "p = Some pm" "pm_inv pm"
    by (auto simp: pm_ok_def split: option.splits)
  note a = libos_mmap_alloc [OF pm(2) n]
  show "\<exists>r p'. libos_mmap 0 n p = Some (r, p') \<and> pm_ok p' \<and> heap_lo p' = heap_lo p \<and> heap_hi p' = heap_hi p"
    using a pm by (auto simp: pm_ok_def heap_lo_def heap_hi_def alloc_spec_def)
  show "taken p' = taken p" if g: "libos_mmap 0 n p = Some (MAP_FAILED, p')" for p'
  proof -
    have "availableBase pm + k * 4096 \<noteq> MAP_FAILED" if "k + m \<le> pages pm" for k m
    proof -
      have "k * 4096 \<le> pages pm * 4096"
        using that by (intro mult_le_mono1) simp
      then show ?thesis
        using pm(2) availableLength_pages [OF pm(2)] by (simp add: pm_inv_def MAP_FAILED_def)
    qed
    moreover obtain pm' where pm': "p' = Some pm'" "alloc_spec ((n + 4095) div 4096) pm MAP_FAILED pm'"
      using a g pm(1) by auto
    ultimately have "used pm' = used pm" "availableBase pm' = availableBase pm"
      unfolding alloc_spec_def by metis+
    then show ?thesis
      by (simp add: taken_def pm pm'(1))
  qed
  show "{r..<r + n} \<inter> taken p = {} \<and> taken p \<union> {r..<r + n} \<subseteq> taken p' \<and> heap_lo p \<le> r \<and> r + n \<le> heap_hi p"
    if "libos_mmap 0 n p = Some (r, p')" "r \<noteq> MAP_FAILED" for r p'
    using libos_mmap_fresh [OF pm(2) n] that pm by (simp add: heap_lo_def heap_hi_def)
qed

definition heap_inv :: "nat \<Rightarrow> nat set \<Rightarrow> libos_heap \<Rightarrow> bool" where
  "heap_inv MA L st \<longleftrightarrow> (\<exists>al. safeAllocator st = Some al \<and> heap.backed MA L al (pageManager st))"

section \<open>malloc and free\<close>

lemma backed_malloc:
  assumes b: "heap.backed MA L al p"
  shows "\<exists>r al'. Allocator_malloc MA len al = Inr (r, al') \<and>
           (r = 0 \<longleftrightarrow> len = 0 \<or> (\<forall>a\<in>set (root al). ma_len (hdr (areas al) a) < len)) \<and>
           (if r = 0 then al' = al
            else r - MA \<notin> L \<and> MA < r \<and> heap.backed MA (insert (r - MA) L) al' p \<and>
                 ma_len (hdr (areas al') (r - MA)) = len \<and> (\<forall>x\<in>L. areas al' x = areas al x))"
proof -
  have inv: "alloc_inv MA (heap_lo p) (heap_hi p) L al"
    using b by (simp add: heap.backed_def)
  obtain r al' where r: "Allocator_malloc MA len al = Inr (r, al')"
    "malloc_spec MA (heap_lo p) (heap_hi p) L len al r al'"
    "r = 0 \<longleftrightarrow> len = 0 \<or> (\<forall>a\<in>set (root al). ma_len (hdr (areas al) a) < len)"
    using Allocator_malloc_aux [OF inv] by blast
  have "heap.backed MA (insert (r - MA) L) al' p" if "r \<noteq> 0"
  proof (rule heap.backed_shrink [OF b])
    have s: "alloc_inv MA (heap_lo p) (heap_hi p) (insert (r - MA) L) al'"
      "region MA al' (r - MA) \<subseteq> free_bytes MA al" "free_bytes MA al' \<subseteq> free_bytes MA al"
      "\<forall>x\<in>L. areas al' x = areas al x"
      using r(2) that by (auto simp: malloc_spec_def)
    have "region MA al' x = region MA al x" if "x \<in> L" for x
      using s(4) that by (simp add: region_def area_end_def hdr_def)
    then show "\<forall>x\<in>insert (r - MA) L. region MA al' x \<subseteq> (\<Union>y\<in>L. region MA al y) \<union> free_bytes MA al"
      using s(2) by auto
    show "free_bytes MA al' \<subseteq> (\<Union>y\<in>L. region MA al y) \<union> free_bytes MA al"
      using s(3) by blast
    show "alloc_inv MA (heap_lo p) (heap_hi p) (insert (r - MA) L) al'"
      by (rule s(1))
  qed
  then show ?thesis
    using r by (auto simp: malloc_spec_def)
qed

definition c_malloc_spec :: "nat \<Rightarrow> nat set \<Rightarrow> nat \<Rightarrow> libos_heap \<Rightarrow> nat \<Rightarrow> libos_heap \<Rightarrow> bool" where
  "c_malloc_spec MA L len st p st' \<longleftrightarrow>
     mem st' = mem st \<and>
     (\<forall>x\<in>L. areas (the (safeAllocator st')) x = areas (the (safeAllocator st)) x) \<and>
     (if p = 0 then heap_inv MA L st' \<and>
                    (\<exists>pm'. libos_mmap 0 (2 * page_mask (len + 4095)) (pageManager st) = Some (MAP_FAILED, pm'))
      else MA < p \<and> p - MA \<notin> L \<and> heap_inv MA (insert (p - MA) L) st' \<and>
           ma_len (hdr (areas (the (safeAllocator st'))) (p - MA)) = len)"

lemma expand_then_malloc:
  assumes b: "heap.backed MA L al p" and n: "0 < n" "n + 4096 < 2 ^ 31" "MA < n" "len + MA \<le> n"
    and q: "libos_mmap 0 n p = Some (q, p')" "q \<noteq> MAP_FAILED" and len: "0 < len"
  shows "\<exists>al2 r al3. expandHeap MA q n al = Inr al2 \<and> Allocator_malloc MA len al2 = Inr (r, al3) \<and>
           MA < r \<and> r - MA \<notin> L \<and> heap.backed MA (insert (r - MA) L) al3 p' \<and>
           ma_len (hdr (areas al3) (r - MA)) = len \<and> (\<forall>x\<in>L. areas al3 x = areas al x)"
proof -
  obtain al2 where al2: "expandHeap MA q n al = Inr al2" "heap.backed MA L al2 p'"
    "\<forall>x\<in>L. areas al2 x = areas al x" "q \<in> set (root al2)" "ma_len (hdr (areas al2) q) = n - MA"
    using heap.backed_expand [OF b n(1-3) q] by blast
  obtain r al3 where r: "Allocator_malloc MA len al2 = Inr (r, al3)"
    "r = 0 \<longleftrightarrow> len = 0 \<or> (\<forall>a\<in>set (root al2). ma_len (hdr (areas al2) a) < len)"
    "if r = 0 then al3 = al2
     else r - MA \<notin> L \<and> MA < r \<and> heap.backed MA (insert (r - MA) L) al3 p' \<and>
          ma_len (hdr (areas al3) (r - MA)) = len \<and> (\<forall>x\<in>L. areas al3 x = areas al2 x)"
    using backed_malloc [OF al2(2)] by blast
  have "r \<noteq> 0"
    using r(2) al2(4,5) n(4) len by force
  then show ?thesis
    using al2(1,3) r(1,3) by auto
qed

lemma malloc_aux:
  assumes inv: "heap_inv MA L st" and len: "0 < len" "len \<le> 0x10000000" and MA: "MA \<le> 4096"
  shows "\<exists>p st'. malloc MA len st = Inr (Some (p, st')) \<and> c_malloc_spec MA L len st p st'"
proof -
  let ?n = "2 * page_mask (len + 4095)"
  obtain al where al: "safeAllocator st = Some al" "heap.backed MA L al (pageManager st)"
    using inv by (auto simp: heap_inv_def)
  have "page_mask (len + 4095) \<le> len + 4095" "len \<le> page_mask (len + 4095)"
    using page_mask_le page_mask_up by auto
  moreover have "4096 \<le> page_mask (len + 4095)"
    unfolding page_mask_def using len(1) by (simp add: Suc_le_eq div_greater_zero_iff)
  ultimately have e: "0 < ?n" "?n + 4096 < 2 ^ 31" "MA < ?n" "len + MA \<le> ?n"
    using len MA by simp_all
  have w: "add64 len 4095 = len + 4095" "mul64 (page_mask (len + 4095)) 2 = ?n"
    using len e(2) by (simp_all add: add64_small mul64_small)
  have st1: "st\<lparr>safeAllocator := Some al\<rparr> = st"
    using al(1) by simp
  obtain r al1 where r: "Allocator_malloc MA len al = Inr (r, al1)"
    "if r = 0 then al1 = al
     else r - MA \<notin> L \<and> MA < r \<and> heap.backed MA (insert (r - MA) L) al1 (pageManager st) \<and>
          ma_len (hdr (areas al1) (r - MA)) = len \<and> (\<forall>x\<in>L. areas al1 x = areas al x)"
    using backed_malloc [OF al(2)] by blast
  obtain q pm' where q: "libos_mmap 0 ?n (pageManager st) = Some (q, pm')"
    using heap.grab_returns [OF _ e(1,2)] al(2) unfolding heap.backed_def by blast
  note simps = malloc_def safe_malloc_def c_malloc_spec_def heap_inv_def w
  consider "r \<noteq> 0" | "r = 0" "q = MAP_FAILED" | "r = 0" "q \<noteq> MAP_FAILED"
    by blast
  then show ?thesis
  proof cases
    case 1
    then show ?thesis
      using r len al(1) by (auto simp: simps)
  next
    case 2
    then have "heap.backed MA L al pm'"
      using heap.backed_failed [OF al(2) e(1,2)] q by blast
    then show ?thesis
      using r 2 len al(1) q st1 by (auto simp: simps)
  next
    case 3
    obtain al2 r2 al3 where r2: "expandHeap MA q ?n al = Inr al2" "Allocator_malloc MA len al2 = Inr (r2, al3)"
      "MA < r2" "r2 - MA \<notin> L" "heap.backed MA (insert (r2 - MA) L) al3 pm'"
      "ma_len (hdr (areas al3) (r2 - MA)) = len" "\<forall>x\<in>L. areas al3 x = areas al x"
      using expand_then_malloc [OF al(2) e q 3(2) len(1)] by blast
    have "malloc MA len st = Inr (Some (r2, st\<lparr>pageManager := pm', safeAllocator := Some al3\<rparr>))"
      using r r2(1,2) 3 len al(1) q st1 by (simp add: malloc_def safe_malloc_def w)
    then show ?thesis
      using r2(3-7) al(1) by (auto simp: c_malloc_spec_def heap_inv_def)
  qed
qed

lemma free_aux:
  assumes inv: "heap_inv MA L st" and a: "a \<in> L"
  shows "\<exists>st'. free MA (a + MA) st = Inr st' \<and> heap_inv MA (L - {a}) st' \<and> mem st' = mem st"
proof -
  obtain al where al: "safeAllocator st = Some al" "heap.backed MA L al (pageManager st)"
    using inv by (auto simp: heap_inv_def)
  let ?p = "pageManager st"
  have ai: "alloc_inv MA (heap_lo ?p) (heap_hi ?p) L al"
    using al(2) by (simp add: heap.backed_def)
  obtain al' where al': "Allocator_free MA (a + MA) al = Inr al'"
    "alloc_inv MA (heap_lo ?p) (heap_hi ?p) (L - {a}) al'"
    "free_bytes MA al' = free_bytes MA al \<union> region MA al a" "\<forall>x\<in>L - {a}. areas al' x = areas al x"
    using Allocator_free_aux [OF ai a] by blast
  have "region MA al' x = region MA al x" if "x \<in> L - {a}" for x
    using al'(4) that by (simp add: region_def area_end_def hdr_def)
  then have "\<forall>x\<in>L - {a}. region MA al' x \<subseteq> (\<Union>y\<in>L. region MA al y) \<union> free_bytes MA al"
    by blast
  moreover have "free_bytes MA al' \<subseteq> (\<Union>y\<in>L. region MA al y) \<union> free_bytes MA al"
    using al'(3) a by blast
  ultimately have "heap.backed MA (L - {a}) al' ?p"
    by (rule heap.backed_shrink [OF al(2) al'(2)])
  then show ?thesis
    using al(1) al'(1) by (simp add: free_def heap_inv_def)
qed

section \<open>Properties\<close>

definition ex_heap_pm :: page_manager where
  "ex_heap_pm = \<lparr>availableBase = 65536, availableLength = 65536, clock = 1, bitset = (\<lambda>_. 0)(0 := 1)\<rparr>"

definition ex_heap :: libos_heap where
  "ex_heap = \<lparr>pageManager = Some ex_heap_pm, safeAllocator = Some ex_alloc, unsafeAllocator = None,
              mem = (\<lambda>_. 0)\<rparr>"

definition ex_heap1 :: libos_heap where
  "ex_heap1 = ex_heap\<lparr>safeAllocator := Some ex_alloc1, mem := (\<lambda>_. 7)\<rparr>"

lemma ex_heap_bit: "getBit i ex_heap_pm \<longleftrightarrow> i = 0"
proof (cases "i div 8 = 0")
  case True
  then have "i < 8"
    by simp
  then have "i mod 8 = i"
    by simp
  then show ?thesis
    using True by (simp add: getBit_iff ex_heap_pm_def bit_1_iff)
next
  case False
  then have "i \<noteq> 0"
    by (cases i) simp_all
  then show ?thesis
    using False by (simp add: getBit_iff ex_heap_pm_def)
qed

lemma ex_heap_pm_inv: "pm_inv ex_heap_pm"
  unfolding pm_inv_def ex_heap_bit by (simp add: ex_heap_pm_def pages_def)

lemma ex_heap_taken: "x \<in> taken (Some ex_heap_pm) \<longleftrightarrow> 65536 \<le> x \<and> x < 69632"
proof -
  have u: "used ex_heap_pm = {0}"
    unfolding used_def ex_heap_bit by (auto simp: ex_heap_pm_def pages_def)
  have "y div 4096 = 0 \<longleftrightarrow> y < 4096" for y :: nat
    by (simp add: div_eq_0_iff)
  then have "x \<in> taken (Some ex_heap_pm) \<longleftrightarrow> 65536 \<le> x \<and> x - 65536 < 4096"
    by (simp add: taken_def u) (simp add: ex_heap_pm_def)
  then show ?thesis
    by linarith
qed

lemma ex_heap_inv: "heap_inv 96 {} ex_heap"
proof -
  have "pageManager ex_heap = Some ex_heap_pm" "heap_lo (Some ex_heap_pm) = 65536"
    "heap_hi (Some ex_heap_pm) = 131072" "pm_ok (Some ex_heap_pm)"
    using ex_heap_pm_inv by (simp_all add: ex_heap_def heap_lo_def heap_hi_def pm_ok_def)
      (simp_all add: ex_heap_pm_def)
  moreover have "region 96 ex_alloc x \<subseteq> taken (Some ex_heap_pm)" if "x \<in> set (root ex_alloc)" for x
    using that by (auto simp: ex_heap_taken ex_alloc_def region_def area_end_def hdr_def MemoryArea_def)
  ultimately show ?thesis
    using ex_alloc_inv by (simp add: heap_inv_def heap.backed_def) (simp add: ex_heap_def)
qed

lemma ex_heap_malloc: "malloc 96 100 ex_heap = Inr (Some (65632, ex_heap\<lparr>safeAllocator := Some ex_alloc1\<rparr>))"
  using ex_alloc_malloc by (simp add: malloc_def safe_malloc_def ex_heap_def)

lemma ex_heap1_inv: "heap_inv 96 {65536} ex_heap1"
proof -
  have "heap_inv 96 {65536} (ex_heap\<lparr>safeAllocator := Some ex_alloc1\<rparr>)"
    using malloc_aux [OF ex_heap_inv, of 100] ex_heap_malloc by (auto simp: c_malloc_spec_def)
  then show ?thesis
    by (simp add: heap_inv_def ex_heap1_def ex_heap_def)
qed

text \<open>
  C4. \<open>malloc\<close> of 1 to \<open>0x10000000\<close> bytes on a well-formed heap returns. A non-null result is a
  new chunk of that length, and the allocator and the page manager together keep their invariant:
  all chunks lie in pages taken from the page manager, and no two overlap. Null is returned only
  when the page manager refused the pages to grow the heap.
\<close>

theorem malloc_correct:
  assumes "heap_inv MA L st" "0 < len" "len \<le> 0x10000000" "MA \<le> 4096"
  shows "\<exists>p st'. malloc MA len st = Inr (Some (p, st')) \<and> c_malloc_spec MA L len st p st'"
  using assms by (rule malloc_aux)

theorem malloc_correct_witness:
  "heap_inv 96 {} ex_heap \<and>
   (\<exists>p st'. malloc 96 5000 ex_heap = Inr (Some (p, st')) \<and> c_malloc_spec 96 {} 5000 ex_heap p st')"
  using ex_heap_inv malloc_correct [OF ex_heap_inv, of 5000] by simp

text \<open>
  \<open>malloc(0)\<close> does not return: the allocator answers null, the request for 0 bytes of pages
  answers null, which is not the failure value, and \<open>expandHeap\<close> then constructs a header at the
  null pointer. \<open>calloc\<close> of 0 members ends the same way.
\<close>

lemma malloc_zero_faults:
  assumes "heap_inv MA L st"
  shows "malloc MA 0 st = Inl Wild \<and> calloc MA 0 n st = Inl Wild"
proof -
  obtain al pm where al: "safeAllocator st = Some al" "pageManager st = Some pm"
    using assms by (auto simp: heap_inv_def heap.backed_def pm_ok_def split: option.splits)
  have "libos_mmap 0 0 (Some pm) = Some (0, Some pm)"
    by (simp add: libos_mmap_def allocPages_def add64_small s32_small)
  then have "malloc MA 0 st = Inl Wild"
    using al by (simp add: malloc_def safe_malloc_def Allocator_malloc_def add64_small mul64_small
        page_mask_def expandHeap_def MAP_FAILED_def Let_def)
  then show ?thesis
    by (simp add: calloc_def mul64_small)
qed

lemma malloc_zero_faults_example: "malloc 96 0 ex_heap = Inl Wild \<and> calloc 96 0 8 ex_heap = Inl Wild"
  using malloc_zero_faults [OF ex_heap_inv] by simp



text \<open>
  C33. \<open>calloc(m, n)\<close> hands out \<open>m * n\<close> reduced modulo \<open>2 ^ 64\<close> bytes, all zero, and changes no
  other byte. There is no test for the overflow: a product that wraps gives a block that is too short.
\<close>

theorem calloc_correct:
  assumes "heap_inv MA L st" "0 < m * n mod 2 ^ 64" "m * n mod 2 ^ 64 \<le> 0x10000000" "MA \<le> 4096"
  shows "\<exists>p st'. calloc MA m n st = Inr (Some (p, st')) \<and>
           (p \<noteq> 0 \<longrightarrow> heap_inv MA (insert (p - MA) L) st' \<and>
              ma_len (hdr (areas (the (safeAllocator st'))) (p - MA)) = m * n mod 2 ^ 64 \<and>
              (\<forall>x. mem st' x = (if x \<in> {p ..< p + m * n mod 2 ^ 64} then 0 else mem st x)))"
proof -
  obtain q st1 where q: "malloc MA (mul64 m n) st = Inr (Some (q, st1))"
    "c_malloc_spec MA L (mul64 m n) st q st1"
    using malloc_aux [OF assms] unfolding mul64_def by blast
  show ?thesis
  proof (cases "q = 0")
    case True
    then show ?thesis
      using q(1) by (simp add: calloc_def)
  next
    case False
    then have "calloc MA m n st = Inr (Some (q, st1\<lparr>mem := memset q 0 (mul64 m n) (mem st1)\<rparr>))"
      using q(1) by (simp add: calloc_def)
    moreover have "heap_inv MA (insert (q - MA) L) (st1\<lparr>mem := memset q 0 (mul64 m n) (mem st1)\<rparr>)"
      using q(2) False by (auto simp: c_malloc_spec_def heap_inv_def)
    ultimately show ?thesis
      using q(2) False by (auto simp: c_malloc_spec_def memset_def mul64_def)
  qed
qed

theorem calloc_correct_witness:
  "\<exists>p st'. calloc 96 (2 ^ 62 + 25) 4 ex_heap = Inr (Some (p, st')) \<and>
     (p \<noteq> 0 \<longrightarrow> ma_len (hdr (areas (the (safeAllocator st'))) (p - 96)) = 100)"
proof -
  have w: "((2 ^ 62 + 25) * 4) mod 2 ^ 64 = (100 :: nat)"
    by simp
  have c: "(0 :: nat) < 100" "(100 :: nat) \<le> 0x10000000" "(96 :: nat) \<le> 4096"
    by simp_all
  obtain p st' where "calloc 96 (2 ^ 62 + 25) 4 ex_heap = Inr (Some (p, st'))"
    "p \<noteq> 0 \<longrightarrow> ma_len (hdr (areas (the (safeAllocator st'))) (p - 96)) = 100"
    using calloc_correct [OF ex_heap_inv, of "2 ^ 62 + 25" 4, unfolded w, OF c] by blast
  then show ?thesis
    by blast
qed

end
