(* ===== verification/Bitmap.thy ===== *)
theory Bitmap
  imports Prelude
begin

text \<open>
  The lock-free bitmap \<open>template class Bitmap<size, init_value>\<close> (\<open>libOS/bitmap.h\<close>).

  The words are a list of \<open>n_int64(size)\<close> 64-bit words. The operations are modelled as they run
  without interference from other cores, where every compare-and-swap succeeds at once; a
  hardware transaction may still fail for reasons of its own, and the status word it then returns
  is a parameter. Bit indices are below \<open>2 ^ 31\<close>, where the casts to \<open>int\<close> are exact. A shift count
  is reduced modulo 64, as the processor does.
\<close>

section \<open>State and operations\<close>

type_synonym bitmap = "u64 list"

definition BIT_SET_FORCE :: int where
  "BIT_SET_FORCE = 1"

definition shl64 :: "u64 \<Rightarrow> nat \<Rightarrow> u64" where
  "shl64 x n = push_bit (n mod 64) x"

definition shr64 :: "u64 \<Rightarrow> nat \<Rightarrow> u64" where
  "shr64 x n = drop_bit (n mod 64) x"

definition ctz :: "u64 \<Rightarrow> nat" where
  "ctz x = (case find (bit x) [0..<64] of Some j \<Rightarrow> j | None \<Rightarrow> 64)"

text \<open>
  \<open>__builtin_ctzl\<close>. Its value at 0 is not defined; \<open>tzcnt\<close> says whether it was compiled to the
  instruction that answers 64 there.
\<close>

definition ctzl :: "bool \<Rightarrow> u64 \<Rightarrow> nat result" where
  "ctzl tzcnt x = (if x = 0 then if tzcnt then Inr 64 else Inl Undefined else Inr (ctz x))"

definition n_int64 :: "nat \<Rightarrow> nat" where
  "n_int64 n_bits = sub64 n_bits 1 div 64 + 1"

definition Bitmap :: "nat \<Rightarrow> nat \<Rightarrow> bitmap" where
  "Bitmap sz init_value = replicate (n_int64 sz) (if init_value \<noteq> 0 then - 1 else 0)"

definition getWord :: "nat \<Rightarrow> bitmap \<Rightarrow> u64 result" where
  "getWord i bits = (if i < length bits then Inr (bits ! i) else Inl Wild)"

definition unset_all :: "bitmap \<Rightarrow> bitmap" where
  "unset_all bits = map (\<lambda>_. 0) bits"

text \<open>\<open>scan_and_set()\<close>: the index of the bit it set, or -1.\<close>

fun scan_loop :: "bool \<Rightarrow> nat \<Rightarrow> nat list \<Rightarrow> bitmap \<Rightarrow> (int \<times> bitmap) result" where
  "scan_loop tzcnt sz [] bits = Inr (- 1, bits)"
| "scan_loop tzcnt sz (i # is) bits =
     (let cur_word_limit = (if (i + 1) * 64 > sz then sz - i * 64 else 64) in
      rbind (ctzl tzcnt (NOT (bits ! i))) (\<lambda>j.
        if j \<ge> cur_word_limit then scan_loop tzcnt sz is bits
        else Inr (int (i * 64 + j), bits[i := bits ! i OR shl64 1 j])))"

definition scan_and_set :: "bool \<Rightarrow> nat \<Rightarrow> bitmap \<Rightarrow> (int \<times> bitmap) result" where
  "scan_and_set tzcnt sz bits = scan_loop tzcnt sz [0..<sz div 64] bits"

definition set_bit_at :: "nat \<Rightarrow> nat \<Rightarrow> bitmap \<Rightarrow> (int \<times> bitmap) result" where
  "set_bit_at sz i bits =
     (if \<not> i < sz then Inl Ud2
      else
        let slot = i mod 64; temp = bits ! (i div 64);
            bits' = bits[i div 64 := temp OR shl64 1 slot]
        in if temp AND shl64 1 slot \<noteq> 0 then Inr (- 1, bits') else Inr (int i, bits'))"

text \<open>The assertion reads \<open>res && (1UL << slot)\<close>: a logical and, true for every word that is not 0.\<close>

definition unset_bit_at :: "nat \<Rightarrow> nat \<Rightarrow> bitmap \<Rightarrow> bitmap result" where
  "unset_bit_at sz i bits =
     (if \<not> i < sz then Inl Ud2
      else
        let slot = i mod 64; res = bits ! (i div 64);
            bits' = bits[i div 64 := res AND NOT (shl64 1 slot)]
        in if res \<noteq> 0 \<and> shl64 1 slot \<noteq> 0 then Inr bits' else Inl Ud2)"

section \<open>Ranges\<close>

text \<open>
  \<open>_XABORT_EXPLICIT\<close>, \<open>_XABORT_RETRY\<close>, \<open>_XBEGIN_STARTED\<close> and \<open>_XABORT_CODE\<close> of the compiler. The
  parameter \<open>tx\<close> is \<open>None\<close> when the transaction runs, or the status of one that failed.
\<close>

definition XABORT_EXPLICIT :: u32 where
  "XABORT_EXPLICIT = 1"

definition XABORT_RETRY :: u32 where
  "XABORT_RETRY = 2"

definition XBEGIN_STARTED :: u32 where
  "XBEGIN_STARTED = - 1"

definition XABORT_CODE :: "u32 \<Rightarrow> u32" where
  "XABORT_CODE status = drop_bit 24 status AND 0xff"

text \<open>
  The loop of \<open>set_range\<close> inside the transaction: the new word, or \<open>None\<close> for the explicit abort.
  The pointer \<open>word\<close> stays at the first word while \<open>i\<close>, \<open>begin\<close> and \<open>word_end\<close> advance.
\<close>

function set_range_loop :: "bool \<Rightarrow> nat \<Rightarrow> nat \<Rightarrow> nat \<Rightarrow> u64 \<Rightarrow> u64 option result" where
  "set_range_loop tzcnt begn word_end endd w =
     (if word_end < endd + 64 then
        let j = begn mod 64;
            k = (if word_end < endd then word_end mod 64 else endd mod 64);
            len = (if k = 0 then 64 - j else sub64 k j);
            temp = (if k = 0 then shr64 w j else shr64 w j OR shl64 1 len)
        in rbind (ctzl tzcnt temp) (\<lambda>z.
             if z \<ge> len then
               set_range_loop tzcnt word_end (word_end + 64) endd
                 (w OR (if len = 64 then - 1 else shl64 (NOT (shl64 (- 1) len)) begn))
             else Inr None)
      else Inr (Some w))"
  by pat_completeness auto
termination
  by (relation "measure (\<lambda>(_, _, word_end, endd, _). endd + 64 - word_end)") auto

definition set_range ::
  "bool \<Rightarrow> u32 option \<Rightarrow> u64 \<Rightarrow> nat \<Rightarrow> nat \<Rightarrow> nat \<Rightarrow> bitmap \<Rightarrow> (u32 \<times> bitmap) result" where
  "set_range tzcnt tx old_word begn endd i bits =
     (let word_end = (if i = endd div 64 then endd else (i + 1) * 64) in
      case tx of
        Some status \<Rightarrow>
          if XABORT_CODE status = XABORT_EXPLICIT \<or> XABORT_CODE status = XABORT_RETRY
          then Inr (XABORT_CODE status, bits) else Inr (status, bits)
      | None \<Rightarrow>
          if bits ! i \<noteq> old_word then Inr (XABORT_RETRY, bits)
          else rbind (set_range_loop tzcnt begn word_end endd (bits ! i)) (\<lambda>r.
                 case r of None \<Rightarrow> Inr (XABORT_EXPLICIT, bits)
                 | Some w \<Rightarrow> Inr (XBEGIN_STARTED, bits[i := w])))"

text \<open>
  \<open>scan_and_set(len)\<close>. \<open>tx\<close> gives the outcome of the transactions in the order they are tried,
  \<open>c\<close> counts them. The jump \<open>again\<close> keeps \<open>i\<close>, \<open>temp\<close> and \<open>j\<close>; \<open>retry\<close> and the next word start
  over. The loop need not end.
\<close>

partial_function (option) scan_len_loop ::
  "bool \<Rightarrow> (nat \<Rightarrow> u32 option) \<Rightarrow> nat \<Rightarrow> nat \<Rightarrow> nat \<Rightarrow> nat \<Rightarrow> (u64 \<times> nat) option \<Rightarrow> bitmap \<Rightarrow>
   (int \<times> bitmap) result option" where
  "scan_len_loop tzcnt tx c sz len i again bits =
     (case again of
        None \<Rightarrow>
          if \<not> i < sz div 64 then Some (Inr (- 1, bits))
          else if bits ! i = - 1 then scan_len_loop tzcnt tx c sz len (i + 1) None bits
          else (case ctzl tzcnt (NOT (bits ! i)) of
                  Inl e \<Rightarrow> Some (Inl e)
                | Inr j \<Rightarrow> scan_len_loop tzcnt tx c sz len i (Some (bits ! i, j)) bits)
      | Some (temp, j) \<Rightarrow>
          let begn = i * 64 + j in
          if begn > sz \<or> begn + len > sz then Some (Inr (- 1, bits))
          else (case set_range tzcnt (tx c) (bits ! i) begn (begn + len) i bits of
                  Inl e \<Rightarrow> Some (Inl e)
                | Inr (res, bits') \<Rightarrow>
                    if res = XABORT_EXPLICIT then
                      (case ctzl tzcnt (temp AND shl64 (- 1) j) of
                         Inl e \<Rightarrow> Some (Inl e)
                       | Inr j1 \<Rightarrow>
                           if j1 = 64 then scan_len_loop tzcnt tx (c + 1) sz len (i + 1) None bits'
                           else (case ctzl tzcnt (NOT temp AND shl64 (- 1) j1) of
                                   Inl e \<Rightarrow> Some (Inl e)
                                 | Inr j2 \<Rightarrow>
                                     scan_len_loop tzcnt tx (c + 1) sz len i (Some (temp, j2)) bits'))
                    else if res = XABORT_RETRY then
                      scan_len_loop tzcnt tx (c + 1) sz len i None bits'
                    else Some (Inr (int (i * 64 + j), bits'))))"

definition scan_and_set_len ::
  "bool \<Rightarrow> (nat \<Rightarrow> u32 option) \<Rightarrow> nat \<Rightarrow> nat \<Rightarrow> bitmap \<Rightarrow> (int \<times> bitmap) result option" where
  "scan_and_set_len tzcnt tx sz len bits = scan_len_loop tzcnt tx 0 sz len 0 None bits"

text \<open>\<open>set(start, len, flag)\<close>: \<open>timeout\<close> is the loop counter, which ends the loop when it is 0.\<close>

partial_function (option) set_len_loop ::
  "bool \<Rightarrow> (nat \<Rightarrow> u32 option) \<Rightarrow> nat \<Rightarrow> nat \<Rightarrow> nat \<Rightarrow> nat \<Rightarrow> int \<Rightarrow> nat \<Rightarrow> bitmap \<Rightarrow>
   (int \<times> bitmap) result option" where
  "set_len_loop tzcnt tx c sz start len flag timeout bits =
     (case set_range tzcnt (tx c) (bits ! (start div 64)) start (start + len) (start div 64) bits of
        Inl e \<Rightarrow> Some (Inl e)
      | Inr (res, bits') \<Rightarrow>
          if res = XABORT_EXPLICIT \<and> flag \<noteq> BIT_SET_FORCE
          then scan_and_set_len tzcnt (\<lambda>n. tx (c + 1 + n)) sz len bits'
          else if res = XABORT_EXPLICIT then Some (Inr (- 1, bits'))
          else if timeout = 0 then Some (Inr (- 1, bits'))
          else set_len_loop tzcnt tx (c + 1) sz start len flag (timeout - 1) bits')"

definition set_len ::
  "bool \<Rightarrow> (nat \<Rightarrow> u32 option) \<Rightarrow> nat \<Rightarrow> nat \<Rightarrow> nat \<Rightarrow> int \<Rightarrow> bitmap \<Rightarrow> (int \<times> bitmap) result option" where
  "set_len tzcnt tx sz start len flag bits =
     set_len_loop tzcnt tx 0 sz start len flag 0xffffffff bits"

text \<open>
  \<open>unset_word\<close> reads a word at the byte address \<open>i >> 3\<close> and clears bits from \<open>i % 64\<close> of it. The
  bytes of the array are read and written little-endian; bytes behind the array are not its own.
\<close>

definition and_at_byte :: "bitmap \<Rightarrow> nat \<Rightarrow> u64 \<Rightarrow> bitmap" where
  "and_at_byte bits b msk =
     map (\<lambda>q. let w = bits ! q in
        if b \<le> 8 * q \<and> 8 * q < b + 8 then w AND (drop_bit (8 * (8 * q - b)) msk OR NOT (drop_bit (8 * (8 * q - b)) (- 1)))
        else if 8 * q \<le> b \<and> b < 8 * q + 8 then w AND (push_bit (8 * (b - 8 * q)) msk OR NOT (push_bit (8 * (b - 8 * q)) (- 1)))
        else w) [0..<length bits]"

definition unset_word :: "nat \<Rightarrow> nat \<Rightarrow> int \<Rightarrow> bitmap \<Rightarrow> bitmap result" where
  "unset_word sz i len bits =
     (if \<not> i < sz then Inl Ud2
      else if \<not> u64_of_int (len + int (i mod 8)) \<le> 64 then Inl Ud2
      else if i div 8 + 8 > 8 * length bits then Inl Wild
      else if len = 64 then Inr (and_at_byte bits (i div 8) 0)
      else Inr (and_at_byte bits (i div 8)
             (NOT (shl64 (NOT (shl64 (- 1) (u64_of_int len))) (i mod 64)))))"

text \<open>
  The loop over whole words of \<open>unset(i, len)\<close>, with \<open>len\<close> compared as an unsigned value; it ends
  because \<open>unset_word\<close> refuses an index outside the map.
\<close>

function unset_len_loop :: "nat \<Rightarrow> nat \<Rightarrow> int \<Rightarrow> bitmap \<Rightarrow> bitmap result" where
  "unset_len_loop sz i len bits =
     (if 64 < u64_of_int len then
        rbind (unset_word sz i 64 bits) (\<lambda>bits'. unset_len_loop sz (i + 64) (len - 64) bits')
      else unset_word sz i len bits)"
  by pat_completeness auto
termination
  by (relation "measure (\<lambda>(sz, i, _, _). sz - i)") (auto simp: unset_word_def split: if_splits)

definition unset_len :: "nat \<Rightarrow> nat \<Rightarrow> int \<Rightarrow> bitmap \<Rightarrow> bitmap result" where
  "unset_len sz i len bits =
     (if \<not> i < sz then Inl Ud2
      else if len = 1 then unset_bit_at sz i bits
      else if u64_of_int (len + int (i mod 8)) \<le> 64 then unset_word sz i len bits
      else
        let align_len = 64 - i mod 8 in
        rbind (unset_word sz i (int align_len) bits)
          (unset_len_loop sz (i + align_len) (len - int align_len)))"

declare set_range_loop.simps [simp del] unset_len_loop.simps [simp del]

section \<open>Lemmas\<close>

definition bm_bit :: "bitmap \<Rightarrow> nat \<Rightarrow> bool" where
  "bm_bit bits i \<longleftrightarrow> i div 64 < length bits \<and> bit (bits ! (i div 64)) (i mod 64)"

lemma bit_shl64_one: "bit (shl64 1 j) n \<longleftrightarrow> n = j mod 64"
  by (auto simp: shl64_def bit_push_bit_iff bit_1_iff simp del: push_bit_of_1)

lemma ctz_props:
  assumes "x \<noteq> 0"
  shows "ctz x < 64" "bit x (ctz x)" "\<And>j. j < ctz x \<Longrightarrow> \<not> bit x j"
proof -
  obtain k where k: "bit x k"
    using assms by (metis bit_eqI bit_0_eq bot_apply bot_bool_def)
  then have "k < 64"
    using bit_imp_le_length [of x k] by simp
  then obtain j where j: "find (bit x) [0..<64] = Some j"
    using k by (metis atLeast0LessThan find_None_iff2 lessThan_iff not_None_eq set_upt)
  then have "j < 64 \<and> bit x j \<and> (\<forall>i<j. \<not> bit x i)"
    by (auto simp: find_Some_iff)
  moreover have "ctz x = j"
    by (simp add: ctz_def j)
  ultimately show "ctz x < 64" "bit x (ctz x)" "\<And>j. j < ctz x \<Longrightarrow> \<not> bit x j"
    by auto
qed

lemma scan_loop_find:
  assumes "\<forall>i\<in>set is. i < sz div 64"
  shows "scan_loop True sz is bits =
     (case find (\<lambda>i. NOT (bits ! i) \<noteq> 0) is of
        None \<Rightarrow> Inr (- 1, bits)
      | Some i \<Rightarrow> Inr (int (i * 64 + ctz (NOT (bits ! i))),
                   bits[i := bits ! i OR shl64 1 (ctz (NOT (bits ! i)))]))"
  using assms
proof (induction "is")
  case (Cons i "is")
  have "(i + 1) * 64 \<le> sz div 64 * 64"
    using Cons.prems by (intro mult_le_mono1) simp
  then have lim: "\<not> (i + 1) * 64 > sz"
    using div_times_less_eq_dividend [of sz 64] by linarith
  show ?case
  proof (cases "NOT (bits ! i) = 0")
    case True
    then show ?thesis
      using Cons lim by (simp add: ctzl_def Let_def)
  next
    case False
    then show ?thesis
      using lim ctz_props(1) [OF False] by (simp add: ctzl_def Let_def)
  qed
qed simp

lemma bm_bit_full:
  assumes "NOT (bits ! i) = 0" "i < length bits" "j < 64"
  shows "bm_bit bits (i * 64 + j)"
  using arg_cong [OF assms(1), of "\<lambda>w. bit w j"] assms(2,3) by (simp add: bm_bit_def bit_not_iff)

lemma bm_bit_update:
  assumes "i < length bits" "j < 64"
  shows "bm_bit (bits[i := bits ! i OR shl64 1 j]) n \<longleftrightarrow> n = i * 64 + j \<or> bm_bit bits n"
    and "bm_bit (bits[i := bits ! i AND NOT (shl64 1 j)]) n \<longleftrightarrow> n \<noteq> i * 64 + j \<and> bm_bit bits n"
proof -
  have n: "n = i * 64 + j \<longleftrightarrow> n div 64 = i \<and> n mod 64 = j"
    using assms(2) div_mult_mod_eq [of n 64] by auto
  have "n mod 64 < 64"
    by simp
  then show "bm_bit (bits[i := bits ! i OR shl64 1 j]) n \<longleftrightarrow> n = i * 64 + j \<or> bm_bit bits n"
    "bm_bit (bits[i := bits ! i AND NOT (shl64 1 j)]) n \<longleftrightarrow> n \<noteq> i * 64 + j \<and> bm_bit bits n"
    unfolding n using assms
    by (auto simp: bm_bit_def bit_or_iff bit_and_iff bit_not_iff bit_shl64_one nth_list_update)
qed

text \<open>What a scan of the first \<open>N\<close> bits promises: the lowest clear bit is set, or all are set.\<close>

definition scan_spec :: "nat \<Rightarrow> bitmap \<Rightarrow> int \<Rightarrow> bitmap \<Rightarrow> bool" where
  "scan_spec N bits r bits' \<longleftrightarrow>
     r = - 1 \<and> bits' = bits \<and> (\<forall>n<N. bm_bit bits n) \<or>
     (\<exists>n<N. r = int n \<and> \<not> bm_bit bits n \<and> (\<forall>m<n. bm_bit bits m) \<and>
        (\<forall>m. bm_bit bits' m \<longleftrightarrow> m = n \<or> bm_bit bits m) \<and> length bits' = length bits)"

lemma scan_and_set_aux:
  assumes len: "sz div 64 \<le> length bits"
  shows "\<exists>r bits'. scan_and_set True sz bits = Inr (r, bits') \<and> scan_spec (sz div 64 * 64) bits r bits'"
proof (cases "find (\<lambda>i. NOT (bits ! i) \<noteq> 0) [0..<sz div 64]")
  case None
  have "bm_bit bits n" if "n < sz div 64 * 64" for n
  proof -
    have "n div 64 < sz div 64"
      using that by (simp add: div_less_iff_less_mult)
    then show ?thesis
      using None len bm_bit_full [of bits "n div 64" "n mod 64"] by (auto simp: find_None_iff)
  qed
  then show ?thesis
    unfolding scan_and_set_def scan_spec_def by (subst scan_loop_find) (use None in auto)
next
  case (Some i)
  then have i: "i < sz div 64" "NOT (bits ! i) \<noteq> 0" "\<forall>k<i. NOT (bits ! k) = 0"
    by (auto simp: find_Some_iff)
  note c = ctz_props [OF i(2)]
  let ?n = "i * 64 + ctz (NOT (bits ! i))"
  have "bm_bit bits m" if "m < ?n" for m
  proof (cases "m div 64 = i")
    case True
    then have "m mod 64 < ctz (NOT (bits ! i))"
      using that div_mult_mod_eq [of m 64] by simp
    then show ?thesis
      using c(3) [of "m mod 64"] True i(1) len by (simp add: bm_bit_def bit_not_iff)
  next
    case False
    have "m < (i + 1) * 64"
      using that c(1) by simp
    then have "m div 64 < i + 1"
      by (simp add: div_less_iff_less_mult)
    then have "m div 64 < i"
      using False by simp
    then show ?thesis
      using i(1,3) len bm_bit_full [of bits "m div 64" "m mod 64"] by simp
  qed
  moreover have "\<not> bm_bit bits ?n"
    using c(1,2) by (simp add: bm_bit_def bit_not_iff)
  moreover have "?n < sz div 64 * 64"
    using mult_le_mono1 [of "i + 1" "sz div 64" 64] i(1) c(1) by simp
  moreover have "scan_and_set True sz bits =
      Inr (int ?n, bits[i := bits ! i OR shl64 1 (ctz (NOT (bits ! i)))])"
    unfolding scan_and_set_def by (subst scan_loop_find) (use Some in auto)
  moreover have "bm_bit (bits[i := bits ! i OR shl64 1 (ctz (NOT (bits ! i)))]) m \<longleftrightarrow> m = ?n \<or> bm_bit bits m" for m
    using bm_bit_update(1) c(1) i(1) len by simp
  ultimately show ?thesis
    unfolding scan_spec_def by (metis length_list_update)
qed

lemma bit_run:
  assumes "len < 64" "b mod 64 + len \<le> 64" "n < 64"
  shows "bit (shl64 (NOT (shl64 (- 1) len)) b) n \<longleftrightarrow> b mod 64 \<le> n \<and> n < b mod 64 + len"
  using assms by (auto simp: shl64_def bit_push_bit_iff bit_not_iff bit_mask_iff)

lemma same_word:
  fixes b n :: nat
  assumes "b mod 64 + n < 64"
  shows "(b + n) div 64 = b div 64" "(b + n) mod 64 = b mod 64 + n"
proof -
  define q r where "q = b div 64" and "r = b mod 64"
  have "b + n = (r + n) + q * 64"
    using div_mult_mod_eq [of b 64] by (simp add: q_def r_def)
  moreover have "r + n < 64"
    using assms by (simp add: r_def)
  ultimately have "(b + n) div 64 = q \<and> (b + n) mod 64 = r + n"
    by (metis div_mult_self1 div_less mod_mult_self1 mod_less add.right_neutral zero_neq_numeral)
  then show "(b + n) div 64 = b div 64" "(b + n) mod 64 = b mod 64 + n"
    by (simp_all add: q_def r_def)
qed

lemma set_range_loop_word:
  assumes len: "0 < len" "b mod 64 + len < 64"
  shows "set_range_loop True b (b + len) (b + len) w =
     Inr (if \<exists>n<len. bit w (b mod 64 + n) then None
          else Some (w OR shl64 (NOT (shl64 (- 1) len)) b))"
proof -
  let ?j = "b mod 64"
  let ?t = "shr64 w ?j OR shl64 1 len"
  have k: "(b + len) mod 64 = ?j + len"
    using len(2) by (rule same_word)
  have s: "sub64 (?j + len) ?j = len"
    using len(2) by (simp add: sub64_small)
  have bt: "bit ?t n \<longleftrightarrow> bit w (?j + n) \<or> n = len" if "n \<le> len" for n
    using that len(2) by (auto simp: shr64_def bit_or_iff bit_drop_bit_eq bit_shl64_one)
  have nz: "?t \<noteq> 0"
    using bt [of len] by auto
  note c = ctz_props [OF nz]
  have le: "ctz ?t \<le> len"
    using c(3) [of len] bt [of len] by (meson not_le order_refl)
  have "len \<le> ctz ?t \<longleftrightarrow> \<not> (\<exists>n<len. bit w (?j + n))"
  proof
    assume "len \<le> ctz ?t"
    then show "\<not> (\<exists>n<len. bit w (?j + n))"
      using c(3) bt by (meson less_imp_le_nat order_less_le_trans)
  next
    assume none: "\<not> (\<exists>n<len. bit w (?j + n))"
    then show "len \<le> ctz ?t"
      using c(2) bt [OF le] le by (metis le_neq_implies_less)
  qed
  moreover have "len \<noteq> 64"
    using len(2) by simp
  ultimately show ?thesis
    by (subst set_range_loop.simps, subst set_range_loop.simps)
      (use nz len k s in \<open>simp add: ctzl_def Let_def\<close>)
qed

lemma set_range_word:
  assumes len: "0 < len" "b mod 64 + len < 64"
  shows "set_range True None (bits ! (b div 64)) b (b + len) (b div 64) bits =
     Inr (if \<exists>n<len. bit (bits ! (b div 64)) (b mod 64 + n) then (XABORT_EXPLICIT, bits)
          else (XBEGIN_STARTED, bits[b div 64 := bits ! (b div 64) OR shl64 (NOT (shl64 (- 1) len)) b]))"
  using set_range_loop_word [OF len, of "bits ! (b div 64)"] same_word(1) [OF len(2)]
  by (auto simp: set_range_def)

section \<open>Properties\<close>

lemma scan_and_set_tzcnt:
  assumes "0 < sz div 64" "0 < length bits"
  shows "scan_and_set tzcnt sz bits =
    (if \<not> tzcnt \<and> (\<forall>n<64. bm_bit bits n) then Inl Undefined else scan_and_set True sz bits)"
proof -
  have split: "[0..<sz div 64] = 0 # [1..<sz div 64]"
    using assms(1) by (simp add: upt_conv_Cons)
  have full: "NOT (bits ! 0) = 0 \<longleftrightarrow> (\<forall>n<64. bm_bit bits n)"
    using assms(2) bm_bit_full [of bits 0] by (auto simp: bm_bit_def bit_not_iff intro!: bit_word_eqI)
  show ?thesis
  proof (cases "NOT (bits ! 0) = 0 \<or> tzcnt")
    case False
    then have "ctz (NOT (bits ! 0)) < 64" "\<not> (\<forall>n<64. bm_bit bits n)"
      using ctz_props(1) full by simp_all
    moreover have "\<not> sz < 64"
      using assms(1) by (simp add: div_greater_zero_iff)
    ultimately show ?thesis
      using False by (simp add: scan_and_set_def split ctzl_def)
  qed (use full in \<open>auto simp: scan_and_set_def split ctzl_def\<close>)
qed



text \<open>
  Setting a clear bit and unsetting it gives the map back, no other bit being touched; setting
  a bit that is set already answers -1 and changes nothing.
\<close>

lemma set_unset_roundtrip:
  assumes "i < sz" "i div 64 < length bits"
  shows "if bm_bit bits i then set_bit_at sz i bits = Inr (- 1, bits)
         else \<exists>bits1. set_bit_at sz i bits = Inr (int i, bits1) \<and>
                (\<forall>n. bm_bit bits1 n \<longleftrightarrow> n = i \<or> bm_bit bits n) \<and> unset_bit_at sz i bits1 = Inr bits"
proof -
  let ?w = "bits ! (i div 64)" and ?b = "shl64 1 (i mod 64)"
  have bw: "bit ?b n \<longleftrightarrow> n = i mod 64" for n
    by (simp add: bit_shl64_one)
  have t: "?w AND ?b \<noteq> 0 \<longleftrightarrow> bm_bit bits i"
  proof -
    have "?w AND ?b = 0 \<longleftrightarrow> (\<forall>n. \<not> bit (?w AND ?b) n)"
      by (metis bit_0_eq bit_eqI bot_apply bot_bool_def)
    then show ?thesis
      using assms(2) by (auto simp: bit_and_iff bw bm_bit_def)
  qed
  have nz: "?w OR ?b \<noteq> 0" "?b \<noteq> 0"
    using bw [of "i mod 64"] by (auto dest: arg_cong [of _ _ "\<lambda>w. bit w (i mod 64)"] simp: bit_or_iff)
  show ?thesis
  proof (cases "bm_bit bits i")
    case True
    have "?w OR ?b = ?w"
      by (rule bit_eqI) (use True in \<open>auto simp: bit_or_iff bw bm_bit_def\<close>)
    then show ?thesis
      using True t assms by (simp add: set_bit_at_def Let_def)
  next
    case False
    have "(?w OR ?b) AND NOT ?b = ?w"
      by (rule bit_eqI) (use False assms(2) in \<open>auto simp: bit_or_iff bit_and_iff bit_not_iff bw bm_bit_def\<close>)
    then have "unset_bit_at sz i (bits[i div 64 := ?w OR ?b]) = Inr bits"
      using assms nz by (simp add: unset_bit_at_def Let_def)
    moreover have "\<forall>n. bm_bit (bits[i div 64 := ?w OR ?b]) n \<longleftrightarrow> n = i \<or> bm_bit bits n"
      using bm_bit_update(1) [OF assms(2), of "i mod 64"] by simp
    ultimately show ?thesis
      using False t assms(1) by (simp add: set_bit_at_def Let_def)
  qed
qed

lemma set_unset_roundtrip_example:
  "\<exists>bits1. set_bit_at 64 5 [7] = Inr (5, bits1) \<and> unset_bit_at 64 5 bits1 = Inr [7]"
proof -
  have "\<not> bm_bit [7] 5"
    by (simp add: bm_bit_def)
  then show ?thesis
    using set_unset_roundtrip [of 5 64 "[7]"] by auto
qed

text \<open>
  \<open>set(start, len, BIT_SET_FORCE)\<close> of a clear range inside one word sets the range and
  nevertheless reports failure: the loop has no exit for success, and its second pass finds the
  bits it has just set.
\<close>

lemma set_len_force_reports_failure:
  assumes "0 < len" "start mod 64 + len < 64" "start div 64 < length bits"
    "\<forall>n<len. \<not> bm_bit bits (start + n)"
  shows "\<exists>bits'. set_len True (\<lambda>_. None) sz start len BIT_SET_FORCE bits = Some (Inr (- 1, bits')) \<and>
           (\<forall>n<len. bm_bit bits' (start + n))"
proof -
  let ?i = "start div 64" and ?j = "start mod 64"
  let ?m = "shl64 (NOT (shl64 (- 1) len)) start"
  let ?b = "bits[?i := bits ! ?i OR ?m]"
  have idx: "(start + n) div 64 = ?i" "(start + n) mod 64 = ?j + n" if "n < len" for n
    using same_word [of start n] that assms(2) by simp_all
  have free: "\<not> (\<exists>n<len. bit (bits ! ?i) (?j + n))"
    using assms(3,4) idx by (auto simp: bm_bit_def)
  have m: "bit ?m (?j + n)" if "n < len" for n
    using bit_run [of len start "?j + n"] that assms(2) by simp
  have 1: "set_range True None (bits ! ?i) start (start + len) ?i bits = Inr (XBEGIN_STARTED, ?b)"
    using set_range_word [OF assms(1,2), of bits] free by simp
  have "\<exists>n<len. bit (?b ! ?i) (?j + n)"
    using m [of 0] assms(1,3) by (auto simp: bit_or_iff intro!: exI [of _ 0])
  then have 2: "set_range True None (?b ! ?i) start (start + len) ?i ?b = Inr (XABORT_EXPLICIT, ?b)"
    using set_range_word [OF assms(1,2), of ?b] by simp
  have "XBEGIN_STARTED \<noteq> XABORT_EXPLICIT"
    by (simp add: XBEGIN_STARTED_def XABORT_EXPLICIT_def)
  then have "set_len True (\<lambda>_. None) sz start len BIT_SET_FORCE bits = Some (Inr (- 1, ?b))"
    unfolding set_len_def by (subst set_len_loop.simps, subst set_len_loop.simps) (simp add: 1 2)
  moreover have "\<forall>n<len. bm_bit ?b (start + n)"
    using idx m assms(3) by (auto simp: bm_bit_def bit_or_iff)
  ultimately show ?thesis
    by blast
qed

lemma set_len_force_reports_failure_example:
  "\<exists>bits'. set_len True (\<lambda>_. None) 64 3 5 BIT_SET_FORCE [0] = Some (Inr (- 1, bits')) \<and>
     (\<forall>n<5. bm_bit bits' (3 + n))"
proof -
  have "\<not> bm_bit [0] n" for n
    by (auto simp: bm_bit_def)
  then show ?thesis
    using set_len_force_reports_failure [of 5 3 "[0]" 64] by simp
qed

end
