(* ===== verification/Locks.thy ===== *)
theory Locks
  imports Prelude
begin

text \<open>
  Spin locks and per-CPU data: \<open>include/spin_lock.h\<close>, \<open>libOS/tsx.h\<close>, the interrupt flag of
  \<open>libOS/util.h\<close> and \<open>libOS/thread_local.h\<close>.

  A lock is used by any number of CPUs. One step is one atomic action of one CPU: an access to its
  own interrupt flag, an access to the lock word, or an access to the member \<open>interruptFlag\<close> of the
  lock. The other components of the library treat what runs under a lock as one step; the theorem
  of this theory is the reason why they may.
\<close>

section \<open>The interrupt flag and per-CPU data\<close>

text \<open>\<open>disableInterrupt\<close> returns the old value of the flag \<open>inInterrupt\<close> of its CPU.\<close>

definition disableInterrupt :: "nat \<Rightarrow> (nat \<Rightarrow> bool) \<Rightarrow> bool \<times> (nat \<Rightarrow> bool)" where
  "disableInterrupt c inInterrupt = (inInterrupt c, inInterrupt(c := True))"

definition enableInterrupt :: "nat \<Rightarrow> (nat \<Rightarrow> bool) \<Rightarrow> (nat \<Rightarrow> bool)" where
  "enableInterrupt c inInterrupt = inInterrupt(c := False)"

definition MAX_NUM_CPU :: nat where
  "MAX_NUM_CPU = 8"

text \<open>\<open>PerCPU<T>\<close>: an array of 8 slots, indexed by the thread id without a test.\<close>

definition PerCPU :: "'a \<Rightarrow> 'a list" where
  "PerCPU nullptr = replicate MAX_NUM_CPU nullptr"

definition PerCPU_deref :: "nat \<Rightarrow> 'a list \<Rightarrow> 'a result" where
  "PerCPU_deref cpuID slots = (if cpuID < length slots then Inr (slots ! cpuID) else Inl Wild)"

definition PerCPU_assign :: "nat \<Rightarrow> 'a \<Rightarrow> 'a list \<Rightarrow> 'a list result" where
  "PerCPU_assign cpuID v slots = (if cpuID < length slots then Inr (slots[cpuID := v]) else Inl Wild)"

lemma PerCPU_deref_assign:
  "cpuID < length slots \<Longrightarrow> rbind (PerCPU_assign cpuID v slots) (PerCPU_deref d) =
     (if d = cpuID then Inr v else PerCPU_deref d slots)"
  by (simp add: PerCPU_assign_def PerCPU_deref_def)

section \<open>SpinLockNoTimer\<close>

text \<open>
  Where a CPU stands. \<open>localFlag\<close> and \<open>reenable\<close> are the local variables of the code.
\<close>

datatype pc =
    Out
  | Spin bool        \<comment> \<open>\<open>lock\<close>: in the loop around \<open>test_and_set\<close>, with \<open>localInterruptFlag\<close>\<close>
  | Try bool         \<comment> \<open>\<open>try_lock\<close>: before its \<open>test_and_set\<close>\<close>
  | TryFailed bool   \<comment> \<open>\<open>try_lock\<close>: the lock was taken\<close>
  | Got bool         \<comment> \<open>the lock is taken, \<open>interruptFlag\<close> not yet stored\<close>
  | Crit             \<comment> \<open>the critical section\<close>
  | Unl bool         \<comment> \<open>\<open>unlock\<close>: \<open>reenable\<close> is read\<close>
  | Clr bool         \<comment> \<open>\<open>unlock\<close>: the lock is given up\<close>

record spin =
  locked :: bool
  interruptFlag :: bool
  inInterrupt :: "nat \<Rightarrow> bool"
  at :: "nat \<Rightarrow> pc"

definition goto_pc :: "nat \<Rightarrow> pc \<Rightarrow> spin \<Rightarrow> spin" where
  "goto_pc c p s = s\<lparr>at := (at s)(c := p)\<rparr>"

inductive spin_step :: "nat \<Rightarrow> spin \<Rightarrow> spin \<Rightarrow> bool" where
  lock_call: "at s c = Out \<Longrightarrow> disableInterrupt c (inInterrupt s) = (f, i) \<Longrightarrow>
     spin_step c s (goto_pc c (Spin f) (s\<lparr>inInterrupt := i\<rparr>))"
| lock_spin: "at s c = Spin f \<Longrightarrow> locked s \<Longrightarrow> spin_step c s s"
| lock_take: "at s c = Spin f \<Longrightarrow> \<not> locked s \<Longrightarrow>
     spin_step c s (goto_pc c (Got f) (s\<lparr>locked := True\<rparr>))"
| lock_store: "at s c = Got f \<Longrightarrow> spin_step c s (goto_pc c Crit (s\<lparr>interruptFlag := f\<rparr>))"
| try_call: "at s c = Out \<Longrightarrow> disableInterrupt c (inInterrupt s) = (f, i) \<Longrightarrow>
     spin_step c s (goto_pc c (Try f) (s\<lparr>inInterrupt := i\<rparr>))"
| try_fail: "at s c = Try f \<Longrightarrow> locked s \<Longrightarrow> spin_step c s (goto_pc c (TryFailed f) s)"
| try_take: "at s c = Try f \<Longrightarrow> \<not> locked s \<Longrightarrow>
     spin_step c s (goto_pc c (Got f) (s\<lparr>locked := True\<rparr>))"
| try_return: "at s c = TryFailed f \<Longrightarrow>
     spin_step c s (goto_pc c Out (if \<not> f then s\<lparr>inInterrupt := enableInterrupt c (inInterrupt s)\<rparr> else s))"
| unlock_read: "at s c = Crit \<Longrightarrow> spin_step c s (goto_pc c (Unl (\<not> interruptFlag s)) s)"
| unlock_clear: "at s c = Unl r \<Longrightarrow> spin_step c s (goto_pc c (Clr r) (s\<lparr>locked := False\<rparr>))"
| unlock_return: "at s c = Clr r \<Longrightarrow>
     spin_step c s (goto_pc c Out (if r then s\<lparr>inInterrupt := enableInterrupt c (inInterrupt s)\<rparr> else s))"

inductive_cases spin_stepE: "spin_step c s s'"

definition spin_init :: "bool \<Rightarrow> (nat \<Rightarrow> bool) \<Rightarrow> spin" where
  "spin_init garbage flags = \<lparr>locked = False, interruptFlag = garbage, inInterrupt = flags, at = (\<lambda>_. Out)\<rparr>"

inductive spin_reach :: "(nat \<Rightarrow> bool) \<Rightarrow> spin \<Rightarrow> bool" for flags where
  start: "spin_reach flags (spin_init garbage flags)"
| step: "spin_reach flags s \<Longrightarrow> spin_step c s s' \<Longrightarrow> spin_reach flags s'"

text \<open>The holder of the lock, and what each CPU knows of the flag it has to restore.\<close>

definition holds :: "pc \<Rightarrow> bool" where
  "holds p \<longleftrightarrow> (case p of Got _ \<Rightarrow> True | Crit \<Rightarrow> True | Unl _ \<Rightarrow> True | _ \<Rightarrow> False)"

definition flag_known :: "spin \<Rightarrow> nat \<Rightarrow> bool \<Rightarrow> bool" where
  "flag_known s c orig \<longleftrightarrow>
     (case at s c of
        Out \<Rightarrow> inInterrupt s c = orig
      | Spin f \<Rightarrow> f = orig \<and> inInterrupt s c
      | Try f \<Rightarrow> f = orig \<and> inInterrupt s c
      | TryFailed f \<Rightarrow> f = orig \<and> inInterrupt s c
      | Got f \<Rightarrow> f = orig \<and> inInterrupt s c
      | Crit \<Rightarrow> interruptFlag s = orig \<and> inInterrupt s c
      | Unl r \<Rightarrow> r = (\<not> orig) \<and> inInterrupt s c
      | Clr r \<Rightarrow> r = (\<not> orig) \<and> inInterrupt s c)"

definition spin_inv :: "(nat \<Rightarrow> bool) \<Rightarrow> spin \<Rightarrow> bool" where
  "spin_inv flags s \<longleftrightarrow>
     (locked s \<longleftrightarrow> (\<exists>c. holds (at s c))) \<and>
     (\<forall>c d. holds (at s c) \<longrightarrow> holds (at s d) \<longrightarrow> c = d) \<and>
     (\<forall>c. flag_known s c (flags c))"

lemma holds_simps [simp]:
  "holds (Got f)" "holds Crit" "holds (Unl r)" "\<not> holds Out" "\<not> holds (Spin f)" "\<not> holds (Try f)"
  "\<not> holds (TryFailed f)" "\<not> holds (Clr r)"
  by (simp_all add: holds_def)

lemma at_goto [simp]: "at (goto_pc c p s) d = (if d = c then p else at s d)"
  by (simp add: goto_pc_def)

lemma goto_fields [simp]:
  "locked (goto_pc c p s) = locked s" "interruptFlag (goto_pc c p s) = interruptFlag s"
  "inInterrupt (goto_pc c p s) = inInterrupt s"
  by (simp_all add: goto_pc_def)

lemma spin_inv_init: "spin_inv flags (spin_init garbage flags)"
  by (simp add: spin_inv_def spin_init_def flag_known_def)

text \<open>A CPU whose own position is not the critical section does not see the lock's flag change.\<close>

lemma flag_known_frame:
  assumes "at s' c = at s c" "inInterrupt s' c = inInterrupt s c"
    "at s c = Crit \<longrightarrow> interruptFlag s' = interruptFlag s"
  shows "flag_known s' c b = flag_known s c b"
  using assms by (cases "at s c") (simp_all add: flag_known_def)

lemma spin_step_inv:
  assumes step: "spin_step c s s'" and inv: "spin_inv flags s"
  shows "spin_inv flags s'"
proof -
  have lk: "locked s \<longleftrightarrow> (\<exists>c. holds (at s c))"
    and one: "\<And>c d. holds (at s c) \<Longrightarrow> holds (at s d) \<Longrightarrow> c = d"
    and fk: "\<And>c. flag_known s c (flags c)"
    using inv by (auto simp: spin_inv_def)
  have other: "at s' d = at s d \<and> inInterrupt s' d = inInterrupt s d" if "d \<noteq> c" for d
    using step that by cases (auto simp: disableInterrupt_def enableInterrupt_def)
  have flag: "interruptFlag s' = interruptFlag s" if "d \<noteq> c" "at s d = Crit" for d
    using step
  proof cases
    case (lock_store f)
    then have "holds (at s c)" "holds (at s d)"
      using that by simp_all
    then show ?thesis
      using one that(1) by blast
  qed simp_all
  have "flag_known s' d (flags d)" if "d \<noteq> c" for d
    using fk [of d] flag_known_frame [of s' d s] other [OF that] flag [OF that] by blast
  moreover have "flag_known s' c (flags c)"
    using step fk [of c]
    by cases (auto simp: flag_known_def disableInterrupt_def enableInterrupt_def)
  moreover have "holds (at s' c) = holds (at s c) \<and> locked s' = locked s \<or>
      \<not> locked s \<and> holds (at s' c) \<and> locked s' \<or> holds (at s c) \<and> \<not> holds (at s' c) \<and> \<not> locked s'"
    using step by cases auto
  then have "(locked s' \<longleftrightarrow> (\<exists>c. holds (at s' c))) \<and>
      (\<forall>c d. holds (at s' c) \<longrightarrow> holds (at s' d) \<longrightarrow> c = d)"
    using lk one other by (elim disjE) metis+
  ultimately show ?thesis
    unfolding spin_inv_def by metis
qed

lemma spin_reach_inv: "spin_reach flags s \<Longrightarrow> spin_inv flags s"
  by (induction rule: spin_reach.induct) (auto simp: spin_inv_init intro: spin_step_inv)

section \<open>TransLock\<close>

text \<open>
  The lock with elision hints (\<open>libOS/tsx.h\<close>). The hints change when the processor makes a write
  visible, not what the lock word holds between two steps. Its steps are those of the spin lock.
\<close>

record trans =
  lockvar :: int
  t_interruptFlag :: bool
  t_inInterrupt :: "nat \<Rightarrow> bool"
  t_at :: "nat \<Rightarrow> pc"

definition t_goto :: "nat \<Rightarrow> pc \<Rightarrow> trans \<Rightarrow> trans" where
  "t_goto c p t = t\<lparr>t_at := (t_at t)(c := p)\<rparr>"

inductive trans_step :: "nat \<Rightarrow> trans \<Rightarrow> trans \<Rightarrow> bool" where
  t_call: "t_at t c = Out \<Longrightarrow> disableInterrupt c (t_inInterrupt t) = (f, i) \<Longrightarrow>
     trans_step c t (t_goto c (Spin f) (t\<lparr>t_inInterrupt := i\<rparr>))"
| t_spin: "t_at t c = Spin f \<Longrightarrow> lockvar t \<noteq> 0 \<Longrightarrow> trans_step c t (t\<lparr>lockvar := 1\<rparr>)"
| t_take: "t_at t c = Spin f \<Longrightarrow> lockvar t = 0 \<Longrightarrow> trans_step c t (t_goto c (Got f) (t\<lparr>lockvar := 1\<rparr>))"
| t_store: "t_at t c = Got f \<Longrightarrow> trans_step c t (t_goto c Crit (t\<lparr>t_interruptFlag := f\<rparr>))"
| t_read: "t_at t c = Crit \<Longrightarrow> trans_step c t (t_goto c (Unl (\<not> t_interruptFlag t)) t)"
| t_clear: "t_at t c = Unl r \<Longrightarrow> trans_step c t (t_goto c (Clr r) (t\<lparr>lockvar := 0\<rparr>))"
| t_return: "t_at t c = Clr r \<Longrightarrow>
     trans_step c t (t_goto c Out (if r then t\<lparr>t_inInterrupt := enableInterrupt c (t_inInterrupt t)\<rparr> else t))"

definition spin_of :: "trans \<Rightarrow> spin" where
  "spin_of t = \<lparr>locked = (lockvar t \<noteq> 0), interruptFlag = t_interruptFlag t,
                inInterrupt = t_inInterrupt t, at = t_at t\<rparr>"

lemma trans_step_refines: "trans_step c t t' \<Longrightarrow> spin_step c (spin_of t) (spin_of t')"
proof (induction rule: trans_step.induct)
  case (t_call t c f i)
  then show ?case
    using spin_step.lock_call [of "spin_of t" c f i] by (simp add: spin_of_def t_goto_def goto_pc_def)
next
  case (t_spin t c f)
  then show ?case
    using spin_step.lock_spin [of "spin_of t" c f] by (simp add: spin_of_def)
next
  case (t_take t c f)
  then show ?case
    using spin_step.lock_take [of "spin_of t" c f] by (simp add: spin_of_def t_goto_def goto_pc_def)
next
  case (t_store t c f)
  then show ?case
    using spin_step.lock_store [of "spin_of t" c f] by (simp add: spin_of_def t_goto_def goto_pc_def)
next
  case (t_read t c)
  then show ?case
    using spin_step.unlock_read [of "spin_of t" c] by (simp add: spin_of_def t_goto_def goto_pc_def)
next
  case (t_clear t c r)
  then show ?case
    using spin_step.unlock_clear [of "spin_of t" c r] by (simp add: spin_of_def t_goto_def goto_pc_def)
next
  case (t_return t c r)
  then show ?case
    using spin_step.unlock_return [of "spin_of t" c r]
    by (simp add: spin_of_def t_goto_def goto_pc_def split: if_splits)
qed

inductive trans_reach :: "(nat \<Rightarrow> bool) \<Rightarrow> trans \<Rightarrow> bool" for flags where
  t_start: "trans_reach flags \<lparr>lockvar = 0, t_interruptFlag = g, t_inInterrupt = flags, t_at = (\<lambda>_. Out)\<rparr>"
| t_step: "trans_reach flags t \<Longrightarrow> trans_step c t t' \<Longrightarrow> trans_reach flags t'"

lemma trans_reach_spin: "trans_reach flags t \<Longrightarrow> spin_reach flags (spin_of t)"
proof (induction rule: trans_reach.induct)
  case (t_start g)
  then show ?case
    using spin_reach.start [of flags g] by (simp add: spin_of_def spin_init_def)
next
  case (t_step t c t')
  then show ?case
    using trans_step_refines spin_reach.step by blast
qed

text \<open>
  Either lock through one contract: an invariant of the reachable states that gives exclusion and
  the interrupt flag back.
\<close>

locale exclusive_lock =
  fixes reach :: "(nat \<Rightarrow> bool) \<Rightarrow> 's \<Rightarrow> bool"
    and pos :: "'s \<Rightarrow> nat \<Rightarrow> pc"
    and masked :: "'s \<Rightarrow> nat \<Rightarrow> bool"
    and taken_word :: "'s \<Rightarrow> bool"
  assumes one_holder: "reach flags s \<Longrightarrow> holds (pos s c) \<Longrightarrow> holds (pos s d) \<Longrightarrow> c = d"
    and word_held: "reach flags s \<Longrightarrow> taken_word s \<longleftrightarrow> (\<exists>c. holds (pos s c))"
    and masked_inside: "reach flags s \<Longrightarrow> pos s c \<noteq> Out \<Longrightarrow> masked s c"
    and restored: "reach flags s \<Longrightarrow> pos s c = Out \<Longrightarrow> masked s c = flags c"
begin

lemma critical_alone:
  assumes "reach flags s" "pos s c = Crit" "pos s d = Crit"
  shows "c = d \<and> taken_word s \<and> masked s c"
proof -
  have h: "holds (pos s c)" "holds (pos s d)"
    using assms by simp_all
  then have "taken_word s"
    using word_held assms(1) by blast
  moreover have "masked s c"
    using masked_inside assms(1,2) by (metis pc.distinct(9))
  ultimately show ?thesis
    using one_holder [OF assms(1) h] by simp
qed

lemma quiescent:
  assumes "reach flags s" "\<And>c. pos s c = Out"
  shows "\<not> taken_word s \<and> masked s = flags"
  using assms word_held restored by fastforce

end

lemma spin_inv_contract:
  assumes "spin_reach flags s"
  shows "holds (at s c) \<Longrightarrow> holds (at s d) \<Longrightarrow> c = d" "locked s \<longleftrightarrow> (\<exists>c. holds (at s c))"
    "at s c \<noteq> Out \<Longrightarrow> inInterrupt s c" "at s c = Out \<Longrightarrow> inInterrupt s c = flags c"
proof -
  have i: "spin_inv flags s"
    using spin_reach_inv [OF assms] .
  show "holds (at s c) \<Longrightarrow> holds (at s d) \<Longrightarrow> c = d" "locked s \<longleftrightarrow> (\<exists>c. holds (at s c))"
    using i by (auto simp: spin_inv_def)
  have "flag_known s c (flags c)"
    using i by (simp add: spin_inv_def)
  then show "at s c \<noteq> Out \<Longrightarrow> inInterrupt s c" "at s c = Out \<Longrightarrow> inInterrupt s c = flags c"
    by (cases "at s c"; simp add: flag_known_def)+
qed

interpretation spin_lock: exclusive_lock spin_reach at inInterrupt locked
  by unfold_locales (use spin_inv_contract in blast)+

interpretation trans_lock: exclusive_lock trans_reach t_at t_inInterrupt "\<lambda>t. lockvar t \<noteq> 0"
proof
  fix flags t c d
  assume "trans_reach flags t"
  then have r: "spin_reach flags (spin_of t)"
    by (rule trans_reach_spin)
  note k = spin_inv_contract [OF r, unfolded spin_of_def, simplified]
  show "holds (t_at t c) \<Longrightarrow> holds (t_at t d) \<Longrightarrow> c = d"
    using k(1) .
  show "(lockvar t \<noteq> 0) \<longleftrightarrow> (\<exists>c. holds (t_at t c))"
    using k(2) .
  show "t_at t c \<noteq> Out \<Longrightarrow> t_inInterrupt t c"
    using k(3) by simp
  show "t_at t c = Out \<Longrightarrow> t_inInterrupt t c = flags c"
    using k(4) .
qed

section \<open>Properties\<close>

text \<open>
  C16. In every state that any interleaving of \<open>lock\<close>, \<open>try_lock\<close> and \<open>unlock\<close> calls of any number
  of CPUs reaches, for \<open>SpinLockNoTimer\<close> and for \<open>TransLock\<close>, at most one CPU is in the critical
  section, the lock word is then set and the interrupts of that CPU are off; a CPU outside the lock
  functions has the interrupt flag it had at the start.
\<close>

theorem locks_exclusive:
  assumes "spin_reach flags s" "trans_reach flags t"
  shows "(at s c = Crit \<longrightarrow> at s d = Crit \<longrightarrow> c = d \<and> locked s \<and> inInterrupt s c) \<and>
         (at s c = Out \<longrightarrow> inInterrupt s c = flags c) \<and>
         (t_at t c = Crit \<longrightarrow> t_at t d = Crit \<longrightarrow> c = d \<and> lockvar t \<noteq> 0 \<and> t_inInterrupt t c) \<and>
         (t_at t c = Out \<longrightarrow> t_inInterrupt t c = flags c)"
  using spin_lock.critical_alone [OF assms(1)] spin_lock.restored [OF assms(1)]
    trans_lock.critical_alone [OF assms(2)] trans_lock.restored [OF assms(2)] by blast

definition ex_spin :: spin where
  "ex_spin = \<lparr>locked = True, interruptFlag = False, inInterrupt = (\<lambda>c. c = 0), at = (\<lambda>_. Out)(0 := Crit)\<rparr>"

definition ex_trans :: trans where
  "ex_trans = \<lparr>lockvar = 1, t_interruptFlag = False, t_inInterrupt = (\<lambda>c. c = 0), t_at = (\<lambda>_. Out)(0 := Crit)\<rparr>"

lemma ex_spin_reach: "spin_reach (\<lambda>_. False) ex_spin"
proof -
  let ?s0 = "spin_init True (\<lambda>_. False)"
  let ?s1 = "goto_pc 0 (Spin False) (?s0\<lparr>inInterrupt := (\<lambda>c. c = 0)\<rparr>)"
  let ?s2 = "goto_pc 0 (Got False) (?s1\<lparr>locked := True\<rparr>)"
  let ?s3 = "goto_pc 0 Crit (?s2\<lparr>interruptFlag := False\<rparr>)"
  have "spin_step 0 ?s0 ?s1"
    by (rule spin_step.lock_call) (auto simp: spin_init_def disableInterrupt_def fun_eq_iff)
  moreover have "spin_step 0 ?s1 ?s2"
    by (rule spin_step.lock_take) (auto simp: spin_init_def)
  moreover have "spin_step 0 ?s2 ?s3"
    by (rule spin_step.lock_store) simp
  ultimately have "spin_reach (\<lambda>_. False) ?s3"
    by (meson spin_reach.start spin_reach.step)
  then show ?thesis
    by (simp add: ex_spin_def goto_pc_def spin_init_def)
qed

lemma ex_trans_reach: "trans_reach (\<lambda>_. False) ex_trans"
proof -
  let ?s0 = "\<lparr>lockvar = 0, t_interruptFlag = True, t_inInterrupt = (\<lambda>_. False), t_at = (\<lambda>_. Out)\<rparr>"
  let ?s1 = "t_goto 0 (Spin False) (?s0\<lparr>t_inInterrupt := (\<lambda>c. c = 0)\<rparr>)"
  let ?s2 = "t_goto 0 (Got False) (?s1\<lparr>lockvar := 1\<rparr>)"
  let ?s3 = "t_goto 0 Crit (?s2\<lparr>t_interruptFlag := False\<rparr>)"
  have r0: "trans_reach (\<lambda>_. False) ?s0"
    by (rule trans_reach.t_start)
  have 1: "trans_step 0 ?s0 ?s1"
    by (rule trans_step.t_call) (auto simp: disableInterrupt_def fun_eq_iff)
  have 2: "trans_step 0 ?s1 ?s2"
    by (rule trans_step.t_take) (auto simp: t_goto_def)
  have 3: "trans_step 0 ?s2 ?s3"
    by (rule trans_step.t_store) (simp add: t_goto_def)
  show ?thesis
    using trans_reach.t_step [OF trans_reach.t_step [OF trans_reach.t_step [OF r0 1] 2] 3]
    by (simp add: ex_trans_def t_goto_def)
qed

theorem locks_exclusive_witness:
  "locked ex_spin \<and> inInterrupt ex_spin 0 \<and> \<not> inInterrupt ex_spin 1 \<and> t_inInterrupt ex_trans 0"
proof -
  have "at ex_spin 0 = Crit" "t_at ex_trans 0 = Crit" "at ex_spin 1 = Out"
    by (simp_all add: ex_spin_def ex_trans_def)
  then show ?thesis
    using locks_exclusive [OF ex_spin_reach ex_trans_reach] by metis
qed

end
