(* ===== verification/Slub.thy ===== *)
theory Slub
  imports Bitmap Malloc Locks
begin

text \<open>
  The slab allocator (\<open>libOS/slub.cpp\<close>, \<open>libOS/slub.h\<close>).

  Slabs, per-CPU caches and object headers live in stores indexed by address; a null pointer is 0.
  The memory behind them comes from the mapper function of the cache, a function pointer in the
  code and a parameter here, with its own state \<open>backing\<close>. \<open>SLUB_DEBUG\<close> is not defined, so the
  assertions and canaries of the source are absent. Each operation runs under the lock of its cache.
\<close>

section \<open>State\<close>

record slab =
  s_next :: nat
  s_prev :: nat
  s_mem :: nat
  s_free_nr :: int
  s_size_each :: int
  s_slub_cache :: nat
  s_bitmap :: bitmap

record slub_per_cpu =
  empty_list :: nat
  partial_list :: nat
  full_list :: nat
  c_size_each :: int

record 'h slub =
  slabs :: "nat \<rightharpoonup> slab"
  caches :: "nat \<rightharpoonup> slub_per_cpu"
  headers :: "nat \<rightharpoonup> nat"
  backing :: 'h

type_synonym 'h mapper = "nat \<Rightarrow> 'h \<Rightarrow> (nat \<times> 'h) result"

definition OBJECTS_PER_SLAB :: nat where
  "OBJECTS_PER_SLAB = 64"

text \<open>\<open>sizeof(slab)\<close>, packed: 64 bytes, the bitmap word and its lock of 5 bytes.\<close>

definition SIZEOF_slab :: nat where
  "SIZEOF_slab = 77"

definition SIZEOF_object_header :: nat where
  "SIZEOF_object_header = 8"

definition first_off :: "nat \<Rightarrow> nat \<Rightarrow> nat" where
  "first_off slab_header_size object_size =
     mul64 (sub64 slab_header_size 1 div object_size + 1) object_size"

section \<open>The slab lists\<close>

definition slab_at :: "(nat \<rightharpoonup> slab) \<Rightarrow> nat \<Rightarrow> slab" where
  "slab_at S a = the (S a)"

definition upd_slab :: "nat \<Rightarrow> (slab \<Rightarrow> slab) \<Rightarrow> (nat \<rightharpoonup> slab) \<Rightarrow> (nat \<rightharpoonup> slab)" where
  "upd_slab a f S = S(a \<mapsto> f (slab_at S a))"

definition list_add_head :: "nat \<Rightarrow> nat \<Rightarrow> (nat \<rightharpoonup> slab) \<Rightarrow> nat \<times> (nat \<rightharpoonup> slab)" where
  "list_add_head head obj S =
     (let S1 = upd_slab obj (\<lambda>s. s\<lparr>s_next := head\<rparr>) S;
          S2 = (if s_next (slab_at S1 obj) \<noteq> 0
                then upd_slab (s_next (slab_at S1 obj)) (\<lambda>s. s\<lparr>s_prev := obj\<rparr>) S1 else S1);
          S3 = upd_slab obj (\<lambda>s. s\<lparr>s_prev := 0\<rparr>) S2
      in (obj, S3))"

definition list_del :: "nat \<Rightarrow> nat \<Rightarrow> (nat \<rightharpoonup> slab) \<Rightarrow> nat \<times> (nat \<rightharpoonup> slab)" where
  "list_del head obj S =
     (let p = s_prev (slab_at S obj);
          S1 = (if p \<noteq> 0 then upd_slab p (\<lambda>s. s\<lparr>s_next := s_next (slab_at S obj)\<rparr>) S else S);
          head' = (if p \<noteq> 0 then head else s_next (slab_at S obj));
          n = s_next (slab_at S1 obj);
          S2 = (if n \<noteq> 0 then upd_slab n (\<lambda>s. s\<lparr>s_prev := s_prev (slab_at S1 obj)\<rparr>) S1 else S1);
          S3 = upd_slab obj (\<lambda>s. s\<lparr>s_prev := 0\<rparr>) S2;
          S4 = upd_slab obj (\<lambda>s. s\<lparr>s_next := 0\<rparr>) S3
      in (head', S4))"

section \<open>Slabs and objects\<close>

definition slab_alloc_size :: "nat \<Rightarrow> nat" where
  "slab_alloc_size object_size_header =
     add64 (page_mask (sub64 (mul64 OBJECTS_PER_SLAB object_size_header) 1)) 4096"

definition slab_mem :: "nat \<Rightarrow> nat \<Rightarrow> nat" where
  "slab_mem ret object_size_header =
     add64 (mul64 (sub64 (add64 ret SIZEOF_slab) 1 div object_size_header) object_size_header)
       object_size_header"

definition new_slab :: "'h mapper \<Rightarrow> nat \<Rightarrow> 'h slub \<Rightarrow> (nat \<times> 'h slub) result" where
  "new_slab mapper object_size st =
     (let object_size_header = add64 object_size SIZEOF_object_header in
      rbind (mapper (slab_alloc_size object_size_header) (backing st)) (\<lambda>(ret, h).
        if ret = 0 then Inl Wild
        else Inr (ret, st\<lparr>backing := h,
               slabs := (slabs st)(ret \<mapsto>
                 \<lparr>s_next = 0, s_prev = 0, s_mem = slab_mem ret object_size_header,
                  s_free_nr = int OBJECTS_PER_SLAB, s_size_each = s32 (int object_size),
                  s_slub_cache = 0, s_bitmap = Bitmap.Bitmap OBJECTS_PER_SLAB 0\<rparr>)\<rparr>)))"

definition obj_stride :: "slab \<Rightarrow> nat" where
  "obj_stride s = add64 (u64_of_int (s_size_each s)) SIZEOF_object_header"

definition slab_allocate_object :: "nat \<Rightarrow> 'h slub \<Rightarrow> (nat \<times> 'h slub) result" where
  "slab_allocate_object slb st =
     (let s = slab_at (slabs st) slb in
      rbind (scan_and_set True OBJECTS_PER_SLAB (s_bitmap s)) (\<lambda>(slot, bm).
        let ret = add64 (add64 (s_mem s) (mul64 (u64_of_int slot) (obj_stride s))) SIZEOF_object_header
        in Inr (ret, st\<lparr>headers := (headers st)(sub64 ret SIZEOF_object_header \<mapsto> slb),
                       slabs := upd_slab slb (\<lambda>s. s\<lparr>s_bitmap := bm, s_free_nr := s_free_nr s - 1\<rparr>) (slabs st)\<rparr>)))"

definition slab_free_object :: "nat \<Rightarrow> nat \<Rightarrow> 'h slub \<Rightarrow> 'h slub result" where
  "slab_free_object slb header st =
     (let s = slab_at (slabs st) slb;
          slot = sub64 header (s_mem s) div obj_stride s
      in rbind (unset_bit_at OBJECTS_PER_SLAB slot (s_bitmap s)) (\<lambda>bm.
           Inr (st\<lparr>slabs := upd_slab slb (\<lambda>s. s\<lparr>s_bitmap := bm, s_free_nr := s_free_nr s + 1\<rparr>) (slabs st)\<rparr>)))"

definition cache_at :: "'h slub \<Rightarrow> nat \<Rightarrow> slub_per_cpu" where
  "cache_at st c = the (caches st c)"

text \<open>\<open>new slub_per_cpu\<close> comes from \<open>operator new\<close>; \<open>ret\<close> is the address it returned.\<close>

definition new_slub_per_cpu :: "'h mapper \<Rightarrow> nat \<Rightarrow> nat \<Rightarrow> 'h slub \<Rightarrow> (nat \<times> 'h slub) result" where
  "new_slub_per_cpu mapper ret objectSize st =
     rbind (new_slab mapper objectSize st) (\<lambda>(first_slab, st1).
       let S1 = upd_slab first_slab (\<lambda>s. s\<lparr>s_slub_cache := ret\<rparr>) (slabs st1);
           (head, S2) = list_add_head 0 first_slab S1
       in Inr (ret, st1\<lparr>slabs := S2,
            caches := (caches st1)(ret \<mapsto>
              \<lparr>empty_list = head, partial_list = 0, full_list = 0, c_size_each = s32 (int objectSize)\<rparr>)\<rparr>))"

definition slub_allocate_per_cpu :: "'h mapper \<Rightarrow> nat \<Rightarrow> 'h slub \<Rightarrow> (nat \<times> 'h slub) result" where
  "slub_allocate_per_cpu mapper c st =
     (let k = cache_at st c in
      if partial_list k \<noteq> 0 then
        let partial = partial_list k in
        rbind (slab_allocate_object partial st) (\<lambda>(ret, st1).
          if s_free_nr (slab_at (slabs st1) partial) = 0 then
            let (pl, S1) = list_del (partial_list k) partial (slabs st1);
                (fl, S2) = list_add_head (full_list k) partial S1
            in Inr (ret, st1\<lparr>slabs := S2, caches := (caches st1)(c \<mapsto> k\<lparr>partial_list := pl, full_list := fl\<rparr>)\<rparr>)
          else Inr (ret, st1))
      else if empty_list k \<noteq> 0 then
        let empty = empty_list k in
        rbind (slab_allocate_object empty st) (\<lambda>(ret, st1).
          let (el, S1) = list_del (empty_list k) empty (slabs st1);
              (pl, S2) = list_add_head (partial_list k) empty S1
          in Inr (ret, st1\<lparr>slabs := S2, caches := (caches st1)(c \<mapsto> k\<lparr>empty_list := el, partial_list := pl\<rparr>)\<rparr>))
      else
        rbind (new_slab mapper (u64_of_int (c_size_each k)) st) (\<lambda>(slb, st1).
          slab_allocate_object slb
            (st1\<lparr>slabs := upd_slab slb (\<lambda>s. s\<lparr>s_slub_cache := c\<rparr>) (slabs st1),
                 caches := (caches st1)(c \<mapsto> k\<lparr>partial_list := slb\<rparr>)\<rparr>)))"

definition slub_free :: "nat \<Rightarrow> 'h slub \<Rightarrow> 'h slub result" where
  "slub_free obj st =
     (let header = sub64 obj SIZEOF_object_header in
      case headers st header of
        None \<Rightarrow> Inl Wild
      | Some parent \<Rightarrow>
          if slabs st parent = None \<or> caches st (s_slub_cache (slab_at (slabs st) parent)) = None then Inl Wild
          else
            rbind (slab_free_object parent header st) (\<lambda>st1.
              let c = s_slub_cache (slab_at (slabs st1) parent);
                  k = cache_at st1 c;
                  nr = s_free_nr (slab_at (slabs st1) parent)
              in if nr = 1 then
                   let (fl, S1) = list_del (full_list k) parent (slabs st1);
                       (pl, S2) = list_add_head (partial_list k) parent S1
                   in Inr (st1\<lparr>slabs := S2, caches := (caches st1)(c \<mapsto> k\<lparr>full_list := fl, partial_list := pl\<rparr>)\<rparr>)
                 else if nr = int OBJECTS_PER_SLAB then
                   let (pl, S1) = list_del (partial_list k) parent (slabs st1);
                       (el, S2) = list_add_head (empty_list k) parent S1
                   in Inr (st1\<lparr>slabs := S2, caches := (caches st1)(c \<mapsto> k\<lparr>partial_list := pl, empty_list := el\<rparr>)\<rparr>)
                 else Inr st1))"

section \<open>SlubCache and the unsafe buckets\<close>

record slub_cache_obj =
  sc_size :: nat
  perCPUCache :: "nat list"

definition SlubCache :: "nat \<Rightarrow> slub_cache_obj" where
  "SlubCache objectSize = \<lparr>sc_size = objectSize, perCPUCache = PerCPU 0\<rparr>"

definition SlubCache_allocate ::
  "'h mapper \<Rightarrow> nat \<Rightarrow> nat \<Rightarrow> slub_cache_obj \<Rightarrow> 'h slub \<Rightarrow> (nat \<times> slub_cache_obj \<times> 'h slub) result" where
  "SlubCache_allocate mapper newAddr cpu sc st =
     rbind (PerCPU_deref cpu (perCPUCache sc)) (\<lambda>cache.
       if cache = 0 then
         rbind (new_slub_per_cpu mapper newAddr (sc_size sc) st) (\<lambda>(c, st1).
         rbind (PerCPU_assign cpu c (perCPUCache sc)) (\<lambda>slots.
         rbind (slub_allocate_per_cpu mapper c st1) (\<lambda>(p, st2).
           Inr (p, sc\<lparr>perCPUCache := slots\<rparr>, st2))))
       else rbind (slub_allocate_per_cpu mapper cache st) (\<lambda>(p, st1). Inr (p, sc, st1)))"

definition NUM_SLUB_BUCKETS :: nat where
  "NUM_SLUB_BUCKETS = 10"

definition init_unsafe_slub_buckets :: "slub_cache_obj list" where
  "init_unsafe_slub_buckets = map (\<lambda>i. SlubCache (8 * 2 ^ (i + 1))) [0..<NUM_SLUB_BUCKETS]"

text \<open>The mapper of the unsafe buckets and of the safe caches.\<close>

definition unsafe_mapper :: "nat \<Rightarrow> libos_heap mapper" where
  "unsafe_mapper MA_SIZE len h = unsafeMalloc MA_SIZE len h"

definition slub_bucket_index :: "nat \<Rightarrow> int" where
  "slub_bucket_index len = 64 - int (clz 64 (len - 1)) - 3"

definition unsafe_slub_malloc ::
  "nat \<Rightarrow> nat \<Rightarrow> nat \<Rightarrow> nat \<Rightarrow> slub_cache_obj list \<Rightarrow> libos_heap slub \<Rightarrow>
   (nat \<times> slub_cache_obj list \<times> libos_heap slub) result" where
  "unsafe_slub_malloc MA_SIZE newAddr cpu len buckets st =
     (let index = (if len \<le> 8 then 0 else slub_bucket_index len) in
      if len > 8 \<and> index \<ge> int NUM_SLUB_BUCKETS then
        rbind (unsafeMalloc MA_SIZE len (backing st)) (\<lambda>(p, h). Inr (p, buckets, st\<lparr>backing := h\<rparr>))
      else
        rbind (SlubCache_allocate (unsafe_mapper MA_SIZE) newAddr cpu (buckets ! nat index) st)
          (\<lambda>(p, sc, st1). Inr (p, buckets[nat index := sc], st1)))"

definition unsafe_slub_free :: "nat \<Rightarrow> libos_heap slub \<Rightarrow> libos_heap slub result" where
  "unsafe_slub_free ptr st = slub_free ptr st"

section \<open>Doubly linked segments\<close>

abbreviation nx :: "(nat \<rightharpoonup> slab) \<Rightarrow> nat \<Rightarrow> nat" where
  "nx S a \<equiv> s_next (slab_at S a)"

abbreviation pv :: "(nat \<rightharpoonup> slab) \<Rightarrow> nat \<Rightarrow> nat" where
  "pv S a \<equiv> s_prev (slab_at S a)"

text \<open>
  \<open>seg S p h xs q n\<close>: from pointer \<open>h\<close>, whose predecessor is \<open>p\<close>, the nodes \<open>xs\<close> follow, the last
  of them (or \<open>p\<close>) being \<open>q\<close>, and the pointer behind them is \<open>n\<close>.
\<close>

fun seg :: "(nat \<rightharpoonup> slab) \<Rightarrow> nat \<Rightarrow> nat \<Rightarrow> nat list \<Rightarrow> nat \<Rightarrow> nat \<Rightarrow> bool" where
  "seg S p h [] q n \<longleftrightarrow> h = n \<and> p = q"
| "seg S p h (x # xs) q n \<longleftrightarrow> h = x \<and> x \<noteq> 0 \<and> x \<in> dom S \<and> pv S x = p \<and> seg S x (nx S x) xs q n"

definition dll :: "(nat \<rightharpoonup> slab) \<Rightarrow> nat \<Rightarrow> nat list \<Rightarrow> bool" where
  "dll S h xs \<longleftrightarrow> (\<exists>q. seg S 0 h xs q 0)"

definition payload :: "slab \<Rightarrow> slab" where
  "payload s = s\<lparr>s_next := 0, s_prev := 0\<rparr>"

lemma slab_at_upd [simp]: "slab_at (upd_slab a f S) b = (if b = a then f (slab_at S a) else slab_at S b)"
  by (simp add: slab_at_def upd_slab_def)

lemma dom_upd [simp]: "dom (upd_slab a f S) = insert a (dom S)"
  by (simp add: upd_slab_def)

lemma seg_append:
  "seg S p h (xs @ ys) q n \<longleftrightarrow> (\<exists>k m. seg S p h xs k m \<and> seg S k m ys q n)"
  by (induction xs arbitrary: p h) auto

lemma seg_cong:
  assumes "\<forall>x\<in>set xs. nx S' x = nx S x \<and> pv S' x = pv S x \<and> (x \<in> dom S \<longrightarrow> x \<in> dom S')"
    "seg S p h xs q n"
  shows "seg S' p h xs q n"
  using assms by (induction xs arbitrary: p h) auto

lemma dll_cong:
  assumes "\<forall>x\<in>set xs. nx S' x = nx S x \<and> pv S' x = pv S x \<and> (x \<in> dom S \<longrightarrow> x \<in> dom S')" "dll S h xs"
  shows "dll S' h xs"
  using assms seg_cong unfolding dll_def by blast

lemma seg_end: "seg S p h xs q n \<Longrightarrow> q = (if xs = [] then p else last xs)"
  by (induction xs arbitrary: p h) auto

lemma seg_nonzero: "seg S p h xs q n \<Longrightarrow> x \<in> set xs \<Longrightarrow> x \<noteq> 0"
  by (induction xs arbitrary: p h) auto

lemma seg_redirect_next:
  assumes "seg S p h xs k n" "xs \<noteq> []" "distinct xs"
  shows "seg (upd_slab k (\<lambda>s. s\<lparr>s_next := m\<rparr>) S) p h xs k m"
  using assms
proof (induction xs arbitrary: p h)
  case (Cons x xs)
  show ?case
  proof (cases xs)
    case Nil
    then show ?thesis using Cons.prems by auto
  next
    case (Cons y ys)
    then have "k \<in> set xs"
      using seg_end [of S x "nx S x" xs k n] Cons.prems(1) by (auto split: if_splits)
    then have "k \<noteq> x"
      using Cons.prems(3) by auto
    then show ?thesis
      using Cons.IH [of x "nx S x"] Cons.prems Cons by simp
  qed
qed simp

lemma seg_upd_other: "seg S p h xs q n \<Longrightarrow> x \<notin> set xs \<Longrightarrow> seg (upd_slab x f S) p h xs q n"
  by (induction xs arbitrary: p h) simp_all

lemma seg_redirect_prev:
  assumes "seg S p h (x # xs) q n" "distinct (x # xs)"
  shows "seg (upd_slab x (\<lambda>s. s\<lparr>s_prev := p'\<rparr>) S) p' h (x # xs) q n"
  using assms seg_upd_other [of S x "nx S x" xs q n x] by simp

lemma list_add_head_spec:
  assumes d: "dll S h xs" "distinct (x # xs)" and x: "x \<noteq> 0" "x \<in> dom S"
  shows "\<exists>S'. list_add_head h x S = (x, S') \<and> dll S' x (x # xs) \<and> dom S' = dom S \<and>
           (\<forall>y. payload (slab_at S' y) = payload (slab_at S y)) \<and>
           (\<forall>y. y \<notin> set (x # xs) \<longrightarrow> slab_at S' y = slab_at S y)"
proof (cases xs)
  case Nil
  then have "h = 0"
    using d(1) by (simp add: dll_def)
  let ?S = "upd_slab x (\<lambda>s. s\<lparr>s_prev := 0\<rparr>) (upd_slab x (\<lambda>s. s\<lparr>s_next := h\<rparr>) S)"
  have "list_add_head h x S = (x, ?S)"
    using \<open>h = 0\<close> by (simp add: list_add_head_def Let_def)
  moreover have "dll ?S x [x]"
    using x \<open>h = 0\<close> by (simp add: dll_def)
  moreover have "dom ?S = dom S"
    using x by (simp add: insert_absorb)
  ultimately show ?thesis
    using Nil by (simp add: payload_def)
next
  case (Cons y ys)
  obtain q where q: "seg S 0 h (y # ys) q 0"
    using d(1) Cons by (auto simp: dll_def)
  then have y: "h = y" "y \<noteq> 0" "y \<in> dom S"
    by simp_all
  have dist: "x \<notin> set (y # ys)" "distinct (y # ys)"
    using d(2) Cons by simp_all
  let ?S1 = "upd_slab x (\<lambda>s. s\<lparr>s_next := h\<rparr>) S"
  let ?S2 = "upd_slab y (\<lambda>s. s\<lparr>s_prev := x\<rparr>) ?S1"
  let ?S3 = "upd_slab x (\<lambda>s. s\<lparr>s_prev := 0\<rparr>) ?S2"
  have "seg ?S3 x h (y # ys) q 0"
    by (intro seg_upd_other seg_redirect_prev) (rule q dist)+
  then have "seg ?S3 0 x (x # y # ys) q 0"
    using x y(1) dist(1) by simp
  then have "dll ?S3 x (x # xs)"
    unfolding dll_def Cons by (rule exI)
  moreover have "list_add_head h x S = (x, ?S3)"
    using y(1,2) by (simp add: list_add_head_def Let_def)
  moreover have "dom ?S3 = dom S"
    using x(2) y(3) by (simp add: insert_absorb)
  moreover have "payload (slab_at ?S3 z) = payload (slab_at S z)" for z
    by (simp add: payload_def)
  moreover have "slab_at ?S3 z = slab_at S z" if "z \<notin> set (x # xs)" for z
    using that Cons by simp
  ultimately show ?thesis
    by (intro exI [of _ ?S3] conjI allI impI)
qed

lemma seg_dom: "seg S p h xs q n \<Longrightarrow> x \<in> set xs \<Longrightarrow> x \<in> dom S"
  by (induction xs arbitrary: p h) auto

lemma seg_boundary:
  assumes "seg S 0 h as k x"
  shows "k = 0 \<longleftrightarrow> as = []" "as \<noteq> [] \<Longrightarrow> k \<in> set as"
  using seg_end [OF assms] seg_nonzero [OF assms, of "last as"] by auto

lemma seg_first:
  assumes "seg S p n bs q 0"
  shows "n = 0 \<longleftrightarrow> bs = []" "bs \<noteq> [] \<Longrightarrow> n = hd bs"
  using assms by (cases bs; auto)+

text \<open>The store after the node \<open>x\<close> between \<open>k\<close> and \<open>n\<close> was taken out.\<close>

definition unlinked :: "nat \<Rightarrow> nat \<Rightarrow> nat \<Rightarrow> (nat \<rightharpoonup> slab) \<Rightarrow> (nat \<rightharpoonup> slab)" where
  "unlinked k x n S =
     (let S1 = (if k \<noteq> 0 then upd_slab k (\<lambda>s. s\<lparr>s_next := n\<rparr>) S else S);
          S2 = (if n \<noteq> 0 then upd_slab n (\<lambda>s. s\<lparr>s_prev := k\<rparr>) S1 else S1)
      in upd_slab x (\<lambda>s. s\<lparr>s_next := 0\<rparr>) (upd_slab x (\<lambda>s. s\<lparr>s_prev := 0\<rparr>) S2))"

lemma unlinked_seg:
  assumes s1: "seg S 0 h as k x" and s2: "seg S x n bs q 0" and d: "distinct (as @ x # bs)"
  shows "\<exists>q. seg (unlinked k x n S) 0 (if k \<noteq> 0 then h else n) (as @ bs) q 0"
proof -
  note k = seg_boundary [OF s1] and n = seg_first [OF s2]
  define S1 where "S1 = (if k \<noteq> 0 then upd_slab k (\<lambda>s. s\<lparr>s_next := n\<rparr>) S else S)"
  define S2 where "S2 = (if n \<noteq> 0 then upd_slab n (\<lambda>s. s\<lparr>s_prev := k\<rparr>) S1 else S1)"
  have u: "unlinked k x n S = upd_slab x (\<lambda>s. s\<lparr>s_next := 0\<rparr>) (upd_slab x (\<lambda>s. s\<lparr>s_prev := 0\<rparr>) S2)"
    by (simp add: unlinked_def S1_def S2_def)
  let ?h = "if k \<noteq> 0 then h else n"
  have a1: "seg S1 0 ?h as k n"
    using s1 k(1) seg_redirect_next [OF s1, of n] d by (auto simp: S1_def)
  have "n \<notin> set as \<or> n = 0"
    using n d by (cases bs) auto
  then have a2: "seg (unlinked k x n S) 0 ?h as k n"
    using d seg_nonzero [OF s1] by (intro seg_cong [OF _ a1]) (auto simp: u S2_def)
  have "seg S1 x n bs q 0"
    using k d by (intro seg_cong [OF _ s2]) (auto simp: S1_def)
  then obtain q2 where b1: "seg S2 k n bs q2 0"
    using n seg_redirect_prev [of S1 x n "hd bs" "tl bs" q 0 k] d
    by (cases bs) (auto simp: S2_def)
  have "seg (unlinked k x n S) k n bs q2 0"
    using d by (intro seg_cong [OF _ b1]) (auto simp: u)
  then show ?thesis
    using a2 unfolding seg_append by blast
qed

lemma list_del_spec:
  assumes d: "dll S h (as @ x # bs)" "distinct (as @ x # bs)"
  shows "\<exists>h' S'. list_del h x S = (h', S') \<and> dll S' h' (as @ bs) \<and> dom S' = dom S \<and>
           (\<forall>y. payload (slab_at S' y) = payload (slab_at S y)) \<and>
           (\<forall>y. y \<notin> set (as @ x # bs) \<longrightarrow> slab_at S' y = slab_at S y)"
proof -
  obtain q k where s1: "seg S 0 h as k x" and x: "x \<noteq> 0" "x \<in> dom S" "pv S x = k"
    and s2: "seg S x (nx S x) bs q 0"
    using d(1) by (auto simp: dll_def seg_append)
  let ?n = "nx S x"
  let ?S = "unlinked k x ?n S"
  note k = seg_boundary [OF s1] and n = seg_first [OF s2]
  have ks: "k \<noteq> 0 \<Longrightarrow> k \<in> set as" and ns: "?n \<noteq> 0 \<Longrightarrow> ?n \<in> set bs"
    using k n by auto
  have ne: "k \<noteq> x" "?n \<noteq> x"
    using ks ns x(1) d(2) by (cases "k = 0"; cases "?n = 0"; force)+
  have "k \<noteq> 0 \<Longrightarrow> k \<in> dom S" "?n \<noteq> 0 \<Longrightarrow> ?n \<in> dom S"
    using ks ns seg_dom [OF s1] seg_dom [OF s2] by blast+
  then have dm: "dom ?S = dom S"
    using x(2) by (auto simp: unlinked_def Let_def)
  have eq: "list_del h x S = (if k \<noteq> 0 then h else ?n, ?S)"
    using ne x(3) by (simp add: list_del_def unlinked_def Let_def)
  have pl: "payload (slab_at ?S y) = payload (slab_at S y)" for y
    by (simp add: unlinked_def Let_def payload_def)
  have fr: "slab_at ?S y = slab_at S y" if "y \<notin> set (as @ x # bs)" for y
    using that ks ns by (auto simp: unlinked_def Let_def)
  show ?thesis
    using unlinked_seg [OF s1 s2 d(2)] eq dm pl fr unfolding dll_def by blast
qed

section \<open>The invariant of a cache\<close>

definition stride :: "int \<Rightarrow> nat" where
  "stride sz = nat sz + 8"

definition slab_bits :: "slab \<Rightarrow> nat set" where
  "slab_bits s = {n. n < 64 \<and> bm_bit (s_bitmap s) n}"

definition slab_good :: "nat \<Rightarrow> int \<Rightarrow> (nat \<rightharpoonup> nat) \<Rightarrow> nat \<Rightarrow> slab \<Rightarrow> bool" where
  "slab_good c sz H a s \<longleftrightarrow>
     s_slub_cache s = c \<and> s_size_each s = sz \<and> length (s_bitmap s) = 1 \<and>
     s_free_nr s = 64 - int (card (slab_bits s)) \<and> s_mem s + 64 * stride sz < 2 ^ 64 \<and>
     (\<forall>n\<in>slab_bits s. H (s_mem s + n * stride sz) = Some a)"

definition slab_ok :: "nat \<Rightarrow> int \<Rightarrow> 'h slub \<Rightarrow> nat \<Rightarrow> bool" where
  "slab_ok c sz st a \<longleftrightarrow> a \<in> dom (slabs st) \<and> slab_good c sz (headers st) a (slab_at (slabs st) a)"

definition span :: "int \<Rightarrow> slab \<Rightarrow> nat set" where
  "span sz s = {s_mem s ..< s_mem s + 64 * stride sz}"

definition objs :: "int \<Rightarrow> (nat \<rightharpoonup> slab) \<Rightarrow> nat set \<Rightarrow> nat set" where
  "objs sz S A = (\<Union>a\<in>A. (\<lambda>n. s_mem (slab_at S a) + n * stride sz + 8) ` slab_bits (slab_at S a))"

definition slabs_apart :: "int \<Rightarrow> (nat \<rightharpoonup> slab) \<Rightarrow> nat set \<Rightarrow> bool" where
  "slabs_apart sz S A \<longleftrightarrow>
     (\<forall>a\<in>A. \<forall>b\<in>A. a \<noteq> b \<longrightarrow> span sz (slab_at S a) \<inter> span sz (slab_at S b) = {})"

definition lists_ok :: "(nat \<rightharpoonup> slab) \<Rightarrow> slub_per_cpu \<Rightarrow> nat list \<Rightarrow> nat list \<Rightarrow> nat list \<Rightarrow> bool" where
  "lists_ok S k E P F \<longleftrightarrow>
     dll S (empty_list k) E \<and> dll S (partial_list k) P \<and> dll S (full_list k) F \<and> distinct (E @ P @ F)"

definition fill_ok :: "(nat \<rightharpoonup> slab) \<Rightarrow> nat list \<Rightarrow> nat list \<Rightarrow> nat list \<Rightarrow> bool" where
  "fill_ok S E P F \<longleftrightarrow>
     (\<forall>a\<in>set E. s_free_nr (slab_at S a) = 64) \<and>
     (\<forall>a\<in>set P. 0 < s_free_nr (slab_at S a) \<and> s_free_nr (slab_at S a) < 64) \<and>
     (\<forall>a\<in>set F. s_free_nr (slab_at S a) = 0)"

definition slub_inv :: "nat \<Rightarrow> int \<Rightarrow> 'h slub \<Rightarrow> nat list \<Rightarrow> nat list \<Rightarrow> nat list \<Rightarrow> bool" where
  "slub_inv c sz st E P F \<longleftrightarrow>
     0 \<le> sz \<and> sz < 2 ^ 31 \<and>
     (\<exists>k. caches st c = Some k \<and> c_size_each k = sz \<and> lists_ok (slabs st) k E P F) \<and>
     (\<forall>a\<in>set (E @ P @ F). slab_ok c sz st a) \<and> fill_ok (slabs st) E P F \<and>
     slabs_apart sz (slabs st) (set (E @ P @ F))"

lemma stride_pos [simp]: "0 < stride sz"
  by (simp add: stride_def)

lemma obj_stride_eq: "s_size_each s = sz \<Longrightarrow> 0 \<le> sz \<Longrightarrow> sz < 2 ^ 31 \<Longrightarrow> obj_stride s = stride sz"
  by (simp add: obj_stride_def stride_def u64_of_int_small add64_small SIZEOF_object_header_def)

lemma slab_bits_finite [simp]: "finite (slab_bits s)"
  by (simp add: slab_bits_def)

lemma slab_bits_le: "card (slab_bits s) \<le> 64"
  using card_mono [of "{..<64}" "slab_bits s"] by (auto simp: slab_bits_def)

lemma slot_bound: "n < 64 \<Longrightarrow> m + n * stride sz + stride sz \<le> m + 64 * stride sz"
  using mult_le_mono1 [of "n + 1" 64 "stride sz"] by simp

lemma slot_in_span: "n < 64 \<Longrightarrow> s_mem s + n * stride sz \<in> span sz s"
  using slot_bound [of n "s_mem s" sz] stride_pos [of sz] unfolding span_def by auto

text \<open>An operation on the links of the lists does not touch what the invariant says of a slab.\<close>

lemma payload_fields:
  assumes "payload s' = payload s"
  shows "s_slub_cache s' = s_slub_cache s" "s_size_each s' = s_size_each s" "s_bitmap s' = s_bitmap s"
    "s_free_nr s' = s_free_nr s" "s_mem s' = s_mem s"
proof -
  have "f (payload s') = f (payload s)" for f :: "slab \<Rightarrow> 'a"
    using assms by simp
  from this [of s_slub_cache] show "s_slub_cache s' = s_slub_cache s"
    by (simp add: payload_def)
next
  from arg_cong [OF assms, of s_size_each] show "s_size_each s' = s_size_each s"
    by (simp add: payload_def)
  from arg_cong [OF assms, of s_bitmap] show "s_bitmap s' = s_bitmap s"
    by (simp add: payload_def)
  from arg_cong [OF assms, of s_free_nr] show "s_free_nr s' = s_free_nr s"
    by (simp add: payload_def)
  from arg_cong [OF assms, of s_mem] show "s_mem s' = s_mem s"
    by (simp add: payload_def)
qed

lemma payload_cong:
  assumes "payload s' = payload s"
  shows "slab_good c sz H a s' = slab_good c sz H a s" "span sz s' = span sz s"
    "slab_bits s' = slab_bits s"
  using payload_fields [OF assms] by (simp_all add: slab_good_def span_def slab_bits_def)

text \<open>A slab moves from the list \<open>as @ x # bs\<close> to the front of the list \<open>ys\<close>; \<open>zs\<close> is the third list.\<close>

lemma move_slab:
  assumes d: "dll S h1 (as @ x # bs)" "dll S h2 ys" "dll S h3 zs" "distinct ((as @ x # bs) @ ys @ zs)"
    and x: "x \<noteq> 0" "x \<in> dom S"
  shows "\<exists>h1' S1 S2. list_del h1 x S = (h1', S1) \<and> list_add_head h2 x S1 = (x, S2) \<and>
           dll S2 h1' (as @ bs) \<and> dll S2 x (x # ys) \<and> dll S2 h3 zs \<and> dom S2 = dom S \<and>
           (\<forall>y. payload (slab_at S2 y) = payload (slab_at S y))"
proof -
  have dx: "distinct (as @ x # bs)" "distinct (x # ys)"
    using d(4) by auto
  obtain h1' S1 where 1: "list_del h1 x S = (h1', S1)" "dll S1 h1' (as @ bs)" "dom S1 = dom S"
    "\<forall>y. payload (slab_at S1 y) = payload (slab_at S y)"
    "\<forall>y. y \<notin> set (as @ x # bs) \<longrightarrow> slab_at S1 y = slab_at S y"
    using list_del_spec [OF d(1) dx(1)] by blast
  have "dll S1 h2 ys"
    using d(4) 1(3,5) by (intro dll_cong [OF _ d(2)]) auto
  then obtain S2 where 2: "list_add_head h2 x S1 = (x, S2)" "dll S2 x (x # ys)" "dom S2 = dom S1"
    "\<forall>y. payload (slab_at S2 y) = payload (slab_at S1 y)"
    "\<forall>y. y \<notin> set (x # ys) \<longrightarrow> slab_at S2 y = slab_at S1 y"
    using list_add_head_spec [of S1 h2 ys x] dx(2) x 1(3) by metis
  have "dll S2 h1' (as @ bs)"
    using d(4) 2(3,5) by (intro dll_cong [OF _ 1(2)]) auto
  moreover have "slab_at S2 z = slab_at S z" if "z \<in> set zs" for z
  proof -
    have "z \<notin> set (as @ x # bs)" "z \<notin> set (x # ys)"
      using d(4) that by auto
    then show ?thesis
      using 1(5) 2(5) by metis
  qed
  then have "dll S2 h3 zs"
    using 1(3) 2(3) by (intro dll_cong [OF _ d(3)]) simp
  ultimately show ?thesis
    using 1 2 by metis
qed

section \<open>One object\<close>

lemma Bitmap_clear: "\<not> bm_bit (Bitmap.Bitmap 64 0) n"
  by (auto simp: Bitmap_def bm_bit_def n_int64_def sub64_small)

text \<open>What allocating the object in slot \<open>n\<close> of slab \<open>a\<close> and giving it back do to the state.\<close>

definition take_slot :: "nat \<Rightarrow> nat \<Rightarrow> bitmap \<Rightarrow> 'h slub \<Rightarrow> 'h slub" where
  "take_slot a hp bm st =
     st\<lparr>headers := (headers st)(hp \<mapsto> a),
        slabs := upd_slab a (\<lambda>s. s\<lparr>s_bitmap := bm, s_free_nr := s_free_nr s - 1\<rparr>) (slabs st)\<rparr>"

definition drop_slot :: "nat \<Rightarrow> bitmap \<Rightarrow> 'h slub \<Rightarrow> 'h slub" where
  "drop_slot a bm st =
     st\<lparr>slabs := upd_slab a (\<lambda>s. s\<lparr>s_bitmap := bm, s_free_nr := s_free_nr s + 1\<rparr>) (slabs st)\<rparr>"

lemma allocate_object:
  assumes ok: "slab_ok c sz st a" and sz: "0 \<le> sz" "sz < 2 ^ 31"
    and free: "0 < s_free_nr (slab_at (slabs st) a)"
  defines "s \<equiv> slab_at (slabs st) a"
  shows "\<exists>n bm. n < 64 \<and> n \<notin> slab_bits s \<and> length bm = 1 \<and>
           (\<forall>m. bm_bit bm m \<longleftrightarrow> m = n \<or> bm_bit (s_bitmap s) m) \<and>
           slab_allocate_object a st =
             Inr (s_mem s + n * stride sz + 8, take_slot a (s_mem s + n * stride sz) bm st)"
proof -
  have g: "slab_good c sz (headers st) a s"
    using ok by (simp add: slab_ok_def s_def)
  obtain r bm where r: "scan_and_set True 64 (s_bitmap s) = Inr (r, bm)" "scan_spec 64 (s_bitmap s) r bm"
    using scan_and_set_aux [of 64 "s_bitmap s"] g by (auto simp: slab_good_def)
  have "\<not> (\<forall>n<64. bm_bit (s_bitmap s) n)"
  proof
    assume "\<forall>n<64. bm_bit (s_bitmap s) n"
    then have "slab_bits s = {..<64}"
      by (auto simp: slab_bits_def)
    then show False
      using free g by (simp add: slab_good_def s_def)
  qed
  then obtain n where n: "n < 64" "r = int n" "\<not> bm_bit (s_bitmap s) n"
    "\<forall>m. bm_bit bm m \<longleftrightarrow> m = n \<or> bm_bit (s_bitmap s) m" "length bm = 1"
    using r(2) g unfolding scan_spec_def slab_good_def by auto
  have os: "obj_stride s = stride sz"
    using g sz by (intro obj_stride_eq) (simp_all add: slab_good_def)
  have b: "s_mem s + n * stride sz + stride sz < 2 ^ 64"
    using slot_bound [OF n(1), of "s_mem s" sz] g unfolding slab_good_def by linarith
  then have "n * stride sz < 2 ^ 64" "8 \<le> stride sz"
    by (simp_all add: stride_def)
  moreover have "u64_of_int (int n) = n"
    using n(1) by (simp add: u64_of_int_small)
  ultimately have w: "add64 (add64 (s_mem s) (mul64 (u64_of_int (int n)) (stride sz))) 8 =
      s_mem s + n * stride sz + 8"
    using b by (simp add: mul64_small add64_small)
  moreover have "sub64 (s_mem s + n * stride sz + 8) 8 = s_mem s + n * stride sz"
    using b \<open>8 \<le> stride sz\<close> by (simp add: sub64_small)
  ultimately have "slab_allocate_object a st =
      Inr (s_mem s + n * stride sz + 8, take_slot a (s_mem s + n * stride sz) bm st)"
    using r(1) n(2) os
    by (simp add: slab_allocate_object_def take_slot_def s_def [symmetric] OBJECTS_PER_SLAB_def
        SIZEOF_object_header_def Let_def)
  then show ?thesis
    using n by (auto simp: slab_bits_def)
qed

lemma take_slot_ok:
  assumes ok: "slab_ok c sz st a" and n: "n < 64" "n \<notin> slab_bits (slab_at (slabs st) a)" "length bm = 1"
    "\<forall>m. bm_bit bm m \<longleftrightarrow> m = n \<or> bm_bit (s_bitmap (slab_at (slabs st) a)) m"
  defines "st' \<equiv> take_slot a (s_mem (slab_at (slabs st) a) + n * stride sz) bm st"
  shows "slab_ok c sz st' a"
    and "slab_bits (slab_at (slabs st') a) = insert n (slab_bits (slab_at (slabs st) a))"
    and "slab_ok c sz st b \<Longrightarrow> b \<noteq> a \<Longrightarrow>
         span sz (slab_at (slabs st) a) \<inter> span sz (slab_at (slabs st) b) = {} \<Longrightarrow> slab_ok c sz st' b"
proof -
  let ?s = "slab_at (slabs st) a" and ?s' = "slab_at (slabs st') a"
  have s': "?s' = ?s\<lparr>s_bitmap := bm, s_free_nr := s_free_nr ?s - 1\<rparr>"
    by (simp add: st'_def take_slot_def)
  show bits: "slab_bits ?s' = insert n (slab_bits ?s)"
    using n by (auto simp: s' slab_bits_def)
  have "card (slab_bits ?s') = card (slab_bits ?s) + 1"
    using n(2) by (simp add: bits)
  moreover have "headers st' (s_mem ?s + m * stride sz) = Some a" if "m \<in> insert n (slab_bits ?s)" for m
    using ok that by (auto simp: slab_ok_def slab_good_def st'_def take_slot_def)
  moreover have "a \<in> dom (slabs st')"
    by (simp add: st'_def take_slot_def)
  ultimately show "slab_ok c sz st' a"
    using ok n(3) unfolding slab_ok_def slab_good_def bits by (simp add: s')
  assume b: "slab_ok c sz st b" "b \<noteq> a" "span sz ?s \<inter> span sz (slab_at (slabs st) b) = {}"
  have "headers st' (s_mem (slab_at (slabs st) b) + m * stride sz) = Some b"
    if m: "m \<in> slab_bits (slab_at (slabs st) b)" for m
  proof -
    have "m < 64"
      using m by (simp add: slab_bits_def)
    then have "s_mem (slab_at (slabs st) b) + m * stride sz \<noteq> s_mem ?s + n * stride sz"
      using b(3) slot_in_span [of m "slab_at (slabs st) b" sz] slot_in_span [OF n(1), of ?s sz] by (metis disjoint_iff)
    then show ?thesis
      using b(1) m by (simp add: slab_ok_def slab_good_def st'_def take_slot_def)
  qed
  then show "slab_ok c sz st' b"
    using b(1,2) by (simp add: slab_ok_def slab_good_def st'_def take_slot_def)
qed

lemma free_object:
  assumes ok: "slab_ok c sz st a" and sz: "0 \<le> sz" "sz < 2 ^ 31"
    and n: "n \<in> slab_bits (slab_at (slabs st) a)"
  defines "s \<equiv> slab_at (slabs st) a"
  shows "\<exists>bm. length bm = 1 \<and> (\<forall>m. bm_bit bm m \<longleftrightarrow> m \<noteq> n \<and> bm_bit (s_bitmap s) m) \<and>
           slab_free_object a (s_mem s + n * stride sz) st = Inr (drop_slot a bm st)"
proof -
  have g: "slab_good c sz (headers st) a s"
    using ok by (simp add: slab_ok_def s_def)
  have n64: "n < 64" "bm_bit (s_bitmap s) n"
    using n by (simp_all add: slab_bits_def s_def)
  have os: "obj_stride s = stride sz"
    using g sz by (intro obj_stride_eq) (simp_all add: slab_good_def)
  have "s_mem s + n * stride sz < 2 ^ 64"
    using slot_bound [OF n64(1), of "s_mem s" sz] g unfolding slab_good_def by linarith
  then have slot: "sub64 (s_mem s + n * stride sz) (s_mem s) div stride sz = n"
    by (simp add: sub64_small)
  have len: "length (s_bitmap s) = 1"
    using g by (simp add: slab_good_def)
  let ?w = "s_bitmap s ! 0"
  let ?bm = "(s_bitmap s)[0 := ?w AND NOT (shl64 1 n)]"
  have "bit ?w n" "shl64 1 n \<noteq> 0"
    using n64 bit_shl64_one [of n n] by (auto simp: bm_bit_def)
  then have "?w \<noteq> 0"
    by auto
  then have "unset_bit_at 64 n (s_bitmap s) = Inr ?bm"
    using n64(1) \<open>shl64 1 n \<noteq> 0\<close> by (simp add: unset_bit_at_def Let_def)
  then have "slab_free_object a (s_mem s + n * stride sz) st = Inr (drop_slot a ?bm st)"
    using slot os by (simp add: slab_free_object_def drop_slot_def s_def [symmetric] OBJECTS_PER_SLAB_def Let_def)
  moreover have "bm_bit ?bm m \<longleftrightarrow> m \<noteq> n \<and> bm_bit (s_bitmap s) m" for m
    using bm_bit_update(2) [of 0 "s_bitmap s" n m] len n64(1) by simp
  ultimately show ?thesis
    using len by (intro exI [of _ ?bm]) simp
qed

lemma drop_slot_ok:
  assumes ok: "slab_ok c sz st a" and n: "n \<in> slab_bits (slab_at (slabs st) a)" "length bm = 1"
    "\<forall>m. bm_bit bm m \<longleftrightarrow> m \<noteq> n \<and> bm_bit (s_bitmap (slab_at (slabs st) a)) m"
  defines "st' \<equiv> drop_slot a bm st"
  shows "slab_ok c sz st' a"
    and "slab_bits (slab_at (slabs st') a) = slab_bits (slab_at (slabs st) a) - {n}"
    and "slab_ok c sz st b \<Longrightarrow> b \<noteq> a \<Longrightarrow> slab_ok c sz st' b"
proof -
  let ?s = "slab_at (slabs st) a" and ?s' = "slab_at (slabs st') a"
  have s': "?s' = ?s\<lparr>s_bitmap := bm, s_free_nr := s_free_nr ?s + 1\<rparr>"
    by (simp add: st'_def drop_slot_def)
  show bits: "slab_bits ?s' = slab_bits ?s - {n}"
    using n(3) by (auto simp: s' slab_bits_def)
  have "card (slab_bits ?s - {n}) + 1 = card (slab_bits ?s)"
    using n(1) card_Suc_Diff1 [of "slab_bits ?s" n] by simp
  then have "int (card (slab_bits ?s - {n})) = int (card (slab_bits ?s)) - 1"
    by linarith
  moreover have "a \<in> dom (slabs st')"
    by (simp add: st'_def drop_slot_def)
  moreover have "headers st' = headers st"
    by (simp add: st'_def drop_slot_def)
  ultimately show "slab_ok c sz st' a"
    using ok n(2) unfolding slab_ok_def slab_good_def bits by (simp add: s')
  show "slab_ok c sz st b \<Longrightarrow> b \<noteq> a \<Longrightarrow> slab_ok c sz st' b"
    by (simp add: slab_ok_def st'_def drop_slot_def)
qed

section \<open>Allocation and release keep the invariant\<close>

lemma inv_relink:
  assumes sz: "0 \<le> sz" "sz < 2 ^ 31" and k: "caches st' c = Some k" "c_size_each k = sz"
    and l: "lists_ok (slabs st') k E P F"
    and same: "headers st' = headers st1" "dom (slabs st') = dom (slabs st1)"
      "\<forall>y. payload (slab_at (slabs st') y) = payload (slab_at (slabs st1) y)"
    and ok: "\<forall>a\<in>set (E @ P @ F). slab_ok c sz st1 a" "fill_ok (slabs st1) E P F"
      "slabs_apart sz (slabs st1) (set (E @ P @ F))"
  shows "slub_inv c sz st' E P F" "objs sz (slabs st') A = objs sz (slabs st1) A"
proof -
  note f = payload_fields [OF same(3) [rule_format]] payload_cong [OF same(3) [rule_format]]
  have "\<forall>a\<in>set (E @ P @ F). slab_ok c sz st' a"
    using ok(1) by (simp add: slab_ok_def f same)
  moreover have "fill_ok (slabs st') E P F" "slabs_apart sz (slabs st') (set (E @ P @ F))"
    using ok(2,3) by (simp_all add: fill_ok_def slabs_apart_def f)
  ultimately show "slub_inv c sz st' E P F"
    using sz k l unfolding slub_inv_def by blast
  show "objs sz (slabs st') A = objs sz (slabs st1) A"
    by (simp add: objs_def f)
qed

text \<open>What one step on the slab \<open>a\<close> leaves as it was.\<close>

definition keeps :: "nat \<Rightarrow> 'h slub \<Rightarrow> 'h slub \<Rightarrow> bool" where
  "keeps a st st1 \<longleftrightarrow> caches st1 = caches st \<and> dom (slabs st1) = dom (slabs st) \<and>
     (\<forall>y. nx (slabs st1) y = nx (slabs st) y \<and> pv (slabs st1) y = pv (slabs st) y) \<and>
     (\<forall>y. s_mem (slab_at (slabs st1) y) = s_mem (slab_at (slabs st) y)) \<and>
     (\<forall>y. y \<noteq> a \<longrightarrow> slab_at (slabs st1) y = slab_at (slabs st) y)"

lemma keeps_dll: "keeps a st st1 \<Longrightarrow> dll (slabs st) h xs \<Longrightarrow> dll (slabs st1) h xs"
  by (erule dll_cong [rotated]) (simp add: keeps_def)

lemma keeps_lists: "keeps a st st1 \<Longrightarrow> lists_ok (slabs st) k E P F \<Longrightarrow> lists_ok (slabs st1) k E P F"
  by (simp add: lists_ok_def keeps_dll)

lemma keeps_apart: "keeps a st st1 \<Longrightarrow> slabs_apart sz (slabs st) A \<Longrightarrow> slabs_apart sz (slabs st1) A"
  by (simp add: keeps_def slabs_apart_def span_def)

lemma keeps_take: "a \<in> dom (slabs st) \<Longrightarrow> keeps a st (take_slot a hp bm st)"
  by (simp add: keeps_def take_slot_def insert_absorb)

lemma keeps_drop: "a \<in> dom (slabs st) \<Longrightarrow> keeps a st (drop_slot a bm st)"
  by (simp add: keeps_def drop_slot_def insert_absorb)

lemma stride_nz [simp]: "stride sz \<noteq> 0"
  by (simp add: stride_def)

lemma objs_split:
  assumes "a \<in> A"
  shows "objs sz S A = (\<lambda>n. s_mem (slab_at S a) + n * stride sz + 8) ` slab_bits (slab_at S a) \<union> objs sz S (A - {a})"
  using assms unfolding objs_def by blast

lemma keeps_objs: "keeps a st st1 \<Longrightarrow> objs sz (slabs st1) (A - {a}) = objs sz (slabs st) (A - {a})"
  unfolding objs_def keeps_def by (intro SUP_cong) auto

lemma slot_apart:
  assumes "slabs_apart sz S A" "a \<in> A" "n < 64"
  shows "s_mem (slab_at S a) + n * stride sz + 8 \<notin> objs sz S (A - {a})"
proof
  assume "s_mem (slab_at S a) + n * stride sz + 8 \<in> objs sz S (A - {a})"
  then obtain b m where bm: "b \<in> A - {a}" "m \<in> slab_bits (slab_at S b)"
    "s_mem (slab_at S a) + n * stride sz + 8 = s_mem (slab_at S b) + m * stride sz + 8"
    unfolding objs_def by blast
  then have b: "b \<in> A" "b \<noteq> a" "m < 64"
    "s_mem (slab_at S a) + n * stride sz = s_mem (slab_at S b) + m * stride sz"
    by (simp_all add: slab_bits_def)
  then have "span sz (slab_at S a) \<inter> span sz (slab_at S b) = {}"
    using assms(1,2) by (simp add: slabs_apart_def)
  then show False
    using slot_in_span [OF assms(3), of "slab_at S a" sz] slot_in_span [OF b(3), of "slab_at S b" sz] b(4) by auto
qed

lemma take_step:
  assumes sz: "0 \<le> sz" "sz < 2 ^ 31" and ok: "\<forall>b\<in>A. slab_ok c sz st b" "slabs_apart sz (slabs st) A"
    and a: "a \<in> A" "0 < s_free_nr (slab_at (slabs st) a)"
  shows "\<exists>p st1. slab_allocate_object a st = Inr (p, st1) \<and> keeps a st st1 \<and>
           s_free_nr (slab_at (slabs st1) a) = s_free_nr (slab_at (slabs st) a) - 1 \<and>
           (\<forall>b\<in>A. slab_ok c sz st1 b) \<and> slabs_apart sz (slabs st1) A \<and>
           p \<notin> objs sz (slabs st) A \<and> objs sz (slabs st1) A = insert p (objs sz (slabs st) A)"
proof -
  let ?s = "slab_at (slabs st) a"
  have oka: "slab_ok c sz st a"
    using ok a by blast
  obtain n bm where n: "n < 64" "n \<notin> slab_bits ?s" "length bm = 1"
    "\<forall>m. bm_bit bm m \<longleftrightarrow> m = n \<or> bm_bit (s_bitmap ?s) m"
    "slab_allocate_object a st = Inr (s_mem ?s + n * stride sz + 8, take_slot a (s_mem ?s + n * stride sz) bm st)"
    using allocate_object [OF oka sz a(2)] by blast
  let ?p = "s_mem ?s + n * stride sz + 8" and ?st1 = "take_slot a (s_mem ?s + n * stride sz) bm st"
  note t = take_slot_ok [OF oka n(1-4)]
  have kp: "keeps a st ?st1"
    using oka by (intro keeps_take) (simp add: slab_ok_def)
  have oth: "slab_ok c sz ?st1 b" if "b \<in> A" for b
  proof (cases "b = a")
    case False
    then show ?thesis
      using ok that a(1) by (intro t(3)) (auto simp: slabs_apart_def)
  qed (use t(1) in simp)
  have "?p \<notin> (\<lambda>n. s_mem ?s + n * stride sz + 8) ` slab_bits ?s"
    using n(2) by auto
  then have "?p \<notin> objs sz (slabs st) A"
    using slot_apart [OF ok(2) a(1) n(1)] objs_split [OF a(1)] by blast
  moreover have "s_mem (slab_at (slabs ?st1) a) = s_mem ?s"
    using kp by (simp add: keeps_def)
  then have "objs sz (slabs ?st1) A = insert ?p (objs sz (slabs st) A)"
    unfolding objs_split [OF a(1), of sz "slabs ?st1"] objs_split [OF a(1), of sz "slabs st"]
      keeps_objs [OF kp] t(2) by simp
  moreover have "s_free_nr (slab_at (slabs ?st1) a) = s_free_nr ?s - 1"
    by (simp add: take_slot_def)
  ultimately show ?thesis
    using n(5) kp oth keeps_apart [OF kp ok(2)] by blast
qed

lemma drop_step:
  assumes sz: "0 \<le> sz" "sz < 2 ^ 31" and ok: "\<forall>b\<in>A. slab_ok c sz st b" "slabs_apart sz (slabs st) A"
    and p: "p \<in> objs sz (slabs st) A"
  shows "\<exists>a\<in>A. \<exists>st1. headers st (sub64 p 8) = Some a \<and> slab_free_object a (sub64 p 8) st = Inr st1 \<and>
           keeps a st st1 \<and> s_slub_cache (slab_at (slabs st1) a) = c \<and>
           s_free_nr (slab_at (slabs st1) a) = s_free_nr (slab_at (slabs st) a) + 1 \<and>
           s_free_nr (slab_at (slabs st) a) < 64 \<and>
           (\<forall>b\<in>A. slab_ok c sz st1 b) \<and> slabs_apart sz (slabs st1) A \<and>
           objs sz (slabs st1) A = objs sz (slabs st) A - {p}"
proof -
  obtain a n where a: "a \<in> A" "n \<in> slab_bits (slab_at (slabs st) a)"
    "p = s_mem (slab_at (slabs st) a) + n * stride sz + 8"
    using p by (auto simp: objs_def)
  let ?s = "slab_at (slabs st) a"
  have oka: "slab_ok c sz st a"
    using ok a by blast
  have n64: "n < 64"
    using a(2) by (simp add: slab_bits_def)
  have "s_mem ?s + n * stride sz + 8 < 2 ^ 64"
    using slot_bound [OF n64, of "s_mem ?s" sz] oka unfolding slab_ok_def slab_good_def stride_def by linarith
  then have hd: "sub64 p 8 = s_mem ?s + n * stride sz"
    by (simp add: a(3) sub64_small)
  obtain bm where bm: "length bm = 1" "\<forall>m. bm_bit bm m \<longleftrightarrow> m \<noteq> n \<and> bm_bit (s_bitmap ?s) m"
    "slab_free_object a (s_mem ?s + n * stride sz) st = Inr (drop_slot a bm st)"
    using free_object [OF oka sz a(2)] by blast
  let ?st1 = "drop_slot a bm st"
  note t = drop_slot_ok [OF oka a(2) bm(1,2)]
  have kp: "keeps a st ?st1"
    using oka by (intro keeps_drop) (simp add: slab_ok_def)
  have oth: "slab_ok c sz ?st1 b" if "b \<in> A" for b
    using t(1,3) ok(1) that by (cases "b = a") auto
  have "objs sz (slabs ?st1) A = objs sz (slabs st) A - {p}"
    using slot_apart [OF ok(2) a(1) n64] kp
    unfolding objs_split [OF a(1), of sz "slabs ?st1"] objs_split [OF a(1), of sz "slabs st"]
      keeps_objs [OF kp] t(2) a(3) by (auto simp: keeps_def)
  moreover have "0 < card (slab_bits ?s)"
    using a(2) by (simp add: card_gt_0_iff) blast
  then have "s_free_nr ?s < 64"
    using oka by (simp add: slab_ok_def slab_good_def)
  moreover have "headers st (s_mem ?s + n * stride sz) = Some a"
    using oka a(2) by (simp add: slab_ok_def slab_good_def)
  moreover have "s_slub_cache (slab_at (slabs ?st1) a) = c"
    using t(1) by (simp add: slab_ok_def slab_good_def)
  moreover have "s_free_nr (slab_at (slabs ?st1) a) = s_free_nr ?s + 1"
    by (simp add: drop_slot_def)
  ultimately show ?thesis
    using a(1) bm(3) kp oth keeps_apart [OF kp ok(2)] unfolding hd by blast
qed

definition mapper_fresh :: "'h mapper \<Rightarrow> int \<Rightarrow> 'h slub \<Rightarrow> nat set \<Rightarrow> bool" where
  "mapper_fresh mapper sz st A \<longleftrightarrow>
     (\<exists>ret h. mapper (slab_alloc_size (stride sz)) (backing st) = Inr (ret, h) \<and> ret \<noteq> 0 \<and> ret \<notin> A \<and>
        slab_mem ret (stride sz) + 64 * stride sz < 2 ^ 64 \<and>
        (\<forall>a\<in>A. {slab_mem ret (stride sz) ..< slab_mem ret (stride sz) + 64 * stride sz} \<inter>
                 span sz (slab_at (slabs st) a) = {}))"

definition live :: "int \<Rightarrow> 'h slub \<Rightarrow> nat list \<Rightarrow> nat list \<Rightarrow> nat list \<Rightarrow> nat set" where
  "live sz st E P F = objs sz (slabs st) (set (E @ P @ F))"

text \<open>A slab taken out of one list of the cache and put in front of another.\<close>

lemma move_inv:
  assumes sz: "0 \<le> sz" "sz < 2 ^ 31" and k: "c_size_each k = sz"
    and d: "dll (slabs st1) h1 (as @ x # bs)" "dll (slabs st1) h2 ys" "dll (slabs st1) h3 zs"
      "distinct ((as @ x # bs) @ ys @ zs)"
    and ok: "\<forall>a\<in>set ((as @ x # bs) @ ys @ zs). slab_ok c sz st1 a"
      "slabs_apart sz (slabs st1) (set ((as @ x # bs) @ ys @ zs))"
    and res: "\<And>h S2. st' h S2 = st1\<lparr>slabs := S2, caches := (caches st1)(c \<mapsto> k' h)\<rparr>" "\<And>h. c_size_each (k' h) = sz"
    and perm: "set (E @ P @ F) = set ((as @ x # bs) @ ys @ zs)" "distinct (E @ P @ F)"
      "fill_ok (slabs st1) E P F"
    and lists: "\<And>h S2. dll S2 h (as @ bs) \<Longrightarrow> dll S2 x (x # ys) \<Longrightarrow> dll S2 h3 zs \<Longrightarrow>
       dll S2 (empty_list (k' h)) E \<and> dll S2 (partial_list (k' h)) P \<and> dll S2 (full_list (k' h)) F"
  shows "\<exists>h S1 S2. list_del h1 x (slabs st1) = (h, S1) \<and> list_add_head h2 x S1 = (x, S2) \<and>
           slub_inv c sz (st' h S2) E P F \<and> live sz (st' h S2) E P F = live sz st1 E P F"
proof -
  obtain q where "seg (slabs st1) 0 h1 (as @ x # bs) q 0"
    using d(1) unfolding dll_def by blast
  then have x: "x \<noteq> 0" "x \<in> dom (slabs st1)"
    using seg_nonzero seg_dom by fastforce+
  obtain h S1 S2 where m: "list_del h1 x (slabs st1) = (h, S1)" "list_add_head h2 x S1 = (x, S2)"
    "dll S2 h (as @ bs)" "dll S2 x (x # ys)" "dll S2 h3 zs" "dom S2 = dom (slabs st1)"
    "\<forall>y. payload (slab_at S2 y) = payload (slab_at (slabs st1) y)"
    using move_slab [OF d x] by blast
  have l: "lists_ok (slabs (st' h S2)) (k' h) E P F"
    using lists [OF m(3-5)] perm(2) by (simp add: lists_ok_def res)
  have "slub_inv c sz (st' h S2) E P F" "objs sz (slabs (st' h S2)) (set (E @ P @ F)) = objs sz (slabs st1) (set (E @ P @ F))"
    using ok perm(1) by (intro inv_relink [OF sz _ res(2) l _ _ _ _ perm(3)]; simp add: res m)+
  then show ?thesis
    using m(1,2) by (auto simp: live_def)
qed

lemma slub_allocate_partial:
  assumes inv: "slub_inv c sz st E (x # P) F"
  shows "\<exists>p st' P' F'. slub_allocate_per_cpu mapper c st = Inr (p, st') \<and> slub_inv c sz st' E P' F' \<and>
           set (E @ P' @ F') = set (E @ (x # P) @ F) \<and> p \<notin> live sz st E (x # P) F \<and> live sz st' E P' F' = insert p (live sz st E (x # P) F)"
proof -
  let ?A = "set (E @ (x # P) @ F)"
  obtain k where sz: "0 \<le> sz" "sz < 2 ^ 31" and k: "caches st c = Some k" "c_size_each k = sz"
    and l: "lists_ok (slabs st) k E (x # P) F" and ok: "\<forall>a\<in>?A. slab_ok c sz st a" "slabs_apart sz (slabs st) ?A"
    and f: "fill_ok (slabs st) E (x # P) F"
    using inv unfolding slub_inv_def by blast
  have fx: "0 < s_free_nr (slab_at (slabs st) x)" "s_free_nr (slab_at (slabs st) x) < 64" and xA: "x \<in> ?A"
    using f by (simp_all add: fill_ok_def)
  obtain p st1 where t: "slab_allocate_object x st = Inr (p, st1)" "keeps x st st1"
    "s_free_nr (slab_at (slabs st1) x) = s_free_nr (slab_at (slabs st) x) - 1"
    "\<forall>b\<in>?A. slab_ok c sz st1 b" "slabs_apart sz (slabs st1) ?A"
    "p \<notin> objs sz (slabs st) ?A" "objs sz (slabs st1) ?A = insert p (objs sz (slabs st) ?A)"
    using take_step [OF sz ok xA fx(1)] by blast
  have ph: "partial_list k = x" "x \<noteq> 0"
    using l by (auto simp: lists_ok_def dll_def)
  have l1: "lists_ok (slabs st1) k E (x # P) F"
    by (rule keeps_lists [OF t(2) l])
  have dist: "distinct (E @ (x # P) @ F)"
    using l by (simp add: lists_ok_def)
  then have dist': "distinct ((x # P) @ F @ E)"
    by auto
  have f1: "\<forall>a\<in>?A. a \<noteq> x \<longrightarrow> s_free_nr (slab_at (slabs st1) a) = s_free_nr (slab_at (slabs st) a)"
    using t(2) by (simp add: keeps_def)
  show ?thesis
  proof (cases "s_free_nr (slab_at (slabs st1) x) = 0")
    case True
    let ?st' = "\<lambda>h S2. st1\<lparr>slabs := S2, caches := (caches st1)(c \<mapsto> k\<lparr>partial_list := h, full_list := x\<rparr>)\<rparr>"
    have "fill_ok (slabs st1) E P (x # F)"
      using f f1 dist True unfolding fill_ok_def by auto
    then obtain h S1 S2 where m: "list_del x x (slabs st1) = (h, S1)" "list_add_head (full_list k) x S1 = (x, S2)"
      "slub_inv c sz (?st' h S2) E P (x # F)" "live sz (?st' h S2) E P (x # F) = live sz st1 E P (x # F)"
      using move_inv [OF sz k(2), of st1 x "[]" x P "full_list k" F "empty_list k" E c ?st'
          "\<lambda>h. k\<lparr>partial_list := h, full_list := x\<rparr>" E P "x # F"] l1 t(4,5) k(2) ph dist dist'
      by (auto simp: lists_ok_def Un_commute Un_left_commute insert_commute)
    have "slub_allocate_per_cpu mapper c st = Inr (p, ?st' h S2)"
      using t(1,2) True m(1,2) ph k(1) by (simp add: slub_allocate_per_cpu_def cache_at_def)
    moreover have "set (E @ P @ x # F) = ?A"
      by auto
    ultimately show ?thesis
      using m(3,4) t(6,7) unfolding live_def by metis
  next
    case False
    have "fill_ok (slabs st1) E (x # P) F"
      using f f1 dist False fx t(3) unfolding fill_ok_def by auto
    moreover have "caches st1 c = Some k"
      using t(2) k(1) by (simp add: keeps_def)
    ultimately have "slub_inv c sz st1 E (x # P) F"
      using sz k(2) l1 t(4,5) unfolding slub_inv_def by blast
    moreover have "slub_allocate_per_cpu mapper c st = Inr (p, st1)"
      using t(1) False ph k(1) by (simp add: slub_allocate_per_cpu_def cache_at_def)
    ultimately show ?thesis
      using t(6,7) unfolding live_def by blast
  qed
qed

lemma slub_allocate_empty:
  assumes inv: "slub_inv c sz st (x # E) [] F"
  shows "\<exists>p st'. slub_allocate_per_cpu mapper c st = Inr (p, st') \<and> slub_inv c sz st' E [x] F \<and>
           p \<notin> live sz st (x # E) [] F \<and> live sz st' E [x] F = insert p (live sz st (x # E) [] F)"
proof -
  let ?A = "set ((x # E) @ [] @ F)"
  obtain k where sz: "0 \<le> sz" "sz < 2 ^ 31" and k: "caches st c = Some k" "c_size_each k = sz"
    and l: "lists_ok (slabs st) k (x # E) [] F" and ok: "\<forall>a\<in>?A. slab_ok c sz st a" "slabs_apart sz (slabs st) ?A"
    and f: "fill_ok (slabs st) (x # E) [] F"
    using inv unfolding slub_inv_def by blast
  have fx: "0 < s_free_nr (slab_at (slabs st) x)" "s_free_nr (slab_at (slabs st) x) = 64" and xA: "x \<in> ?A"
    using f by (simp_all add: fill_ok_def)
  obtain p st1 where t: "slab_allocate_object x st = Inr (p, st1)" "keeps x st st1"
    "s_free_nr (slab_at (slabs st1) x) = s_free_nr (slab_at (slabs st) x) - 1"
    "\<forall>b\<in>?A. slab_ok c sz st1 b" "slabs_apart sz (slabs st1) ?A"
    "p \<notin> objs sz (slabs st) ?A" "objs sz (slabs st1) ?A = insert p (objs sz (slabs st) ?A)"
    using take_step [OF sz ok xA fx(1)] by blast
  have ph: "empty_list k = x" "x \<noteq> 0" "partial_list k = 0"
    using l by (auto simp: lists_ok_def dll_def)
  have l1: "lists_ok (slabs st1) k (x # E) [] F"
    by (rule keeps_lists [OF t(2) l])
  have dist: "distinct ((x # E) @ [] @ F)"
    using l by (simp add: lists_ok_def)
  have f1: "\<forall>a\<in>?A. a \<noteq> x \<longrightarrow> s_free_nr (slab_at (slabs st1) a) = s_free_nr (slab_at (slabs st) a)"
    using t(2) by (simp add: keeps_def)
  let ?st' = "\<lambda>h S2. st1\<lparr>slabs := S2, caches := (caches st1)(c \<mapsto> k\<lparr>empty_list := h, partial_list := x\<rparr>)\<rparr>"
  have "fill_ok (slabs st1) E [x] F"
    using f f1 dist fx t(3) unfolding fill_ok_def by auto
  then obtain h S1 S2 where m: "list_del x x (slabs st1) = (h, S1)" "list_add_head 0 x S1 = (x, S2)"
    "slub_inv c sz (?st' h S2) E [x] F" "live sz (?st' h S2) E [x] F = live sz st1 E [x] F"
    using move_inv [OF sz k(2), of st1 x "[]" x E 0 "[]" "full_list k" F c ?st'
        "\<lambda>h. k\<lparr>empty_list := h, partial_list := x\<rparr>" E "[x]" F] l1 t(4,5) k(2) ph dist
    by (auto simp: lists_ok_def)
  have "slub_allocate_per_cpu mapper c st = Inr (p, ?st' h S2)"
    using t(1,2) m(1,2) ph k(1) by (simp add: slub_allocate_per_cpu_def cache_at_def)
  moreover have "set (E @ [x] @ F) = ?A"
    by auto
  ultimately show ?thesis
    using m(3,4) t(6,7) unfolding live_def by metis
qed

text \<open>A cache without free objects takes a new slab; its memory is what the mapper gave.\<close>

definition with_slab :: "nat \<Rightarrow> slub_per_cpu \<Rightarrow> nat \<Rightarrow> 'h \<Rightarrow> int \<Rightarrow> 'h slub \<Rightarrow> 'h slub" where
  "with_slab c k ret h sz st =
     st\<lparr>backing := h, slabs := (slabs st)(ret \<mapsto>
          \<lparr>s_next = 0, s_prev = 0, s_mem = slab_mem ret (stride sz), s_free_nr = 64, s_size_each = sz,
           s_slub_cache = c, s_bitmap = Bitmap.Bitmap 64 0\<rparr>),
        caches := (caches st)(c \<mapsto> k\<lparr>partial_list := ret\<rparr>)\<rparr>"

lemma slab_at_with_slab: "slab_at (slabs (with_slab c k ret h sz st)) a =
    (if a = ret then \<lparr>s_next = 0, s_prev = 0, s_mem = slab_mem ret (stride sz), s_free_nr = 64, s_size_each = sz,
       s_slub_cache = c, s_bitmap = Bitmap.Bitmap 64 0\<rparr> else slab_at (slabs st) a)"
  by (simp add: with_slab_def slab_at_def)

lemma with_slab_ok:
  assumes "slab_mem ret (stride sz) + 64 * stride sz < 2 ^ 64"
  shows "slab_ok c sz (with_slab c k ret h sz st) ret" and "slab_bits (slab_at (slabs (with_slab c k ret h sz st)) ret) = {}"
    and "a \<noteq> ret \<Longrightarrow> slab_ok c sz st a \<Longrightarrow> slab_ok c sz (with_slab c k ret h sz st) a"
proof -
  show e: "slab_bits (slab_at (slabs (with_slab c k ret h sz st)) ret) = {}"
    by (simp add: slab_at_with_slab slab_bits_def Bitmap_clear)
  have "length (Bitmap.Bitmap 64 0) = 1"
    by (simp add: Bitmap_def n_int64_def sub64_small)
  moreover have "ret \<in> dom (slabs (with_slab c k ret h sz st))"
    by (simp add: with_slab_def)
  ultimately show "slab_ok c sz (with_slab c k ret h sz st) ret"
    using assms unfolding slab_ok_def slab_good_def e by (simp add: slab_at_with_slab)
  show "slab_ok c sz (with_slab c k ret h sz st) a" if "a \<noteq> ret" "slab_ok c sz st a"
    using that by (simp add: slab_ok_def slab_at_with_slab) (simp add: with_slab_def)
qed

lemma slub_allocate_new:
  assumes inv: "slub_inv c sz st [] [] F" and fresh: "mapper_fresh mapper sz st (set F)"
  shows "\<exists>p x st'. slub_allocate_per_cpu mapper c st = Inr (p, st') \<and> slub_inv c sz st' [] [x] F \<and>
           (\<exists>h. mapper (slab_alloc_size (stride sz)) (backing st) = Inr (x, h)) \<and>
           p \<notin> live sz st [] [] F \<and> live sz st' [] [x] F = insert p (live sz st [] [] F)"
proof -
  obtain k where sz: "0 \<le> sz" "sz < 2 ^ 31" and k: "caches st c = Some k" "c_size_each k = sz"
    and l: "lists_ok (slabs st) k [] [] F" and ok: "\<forall>a\<in>set F. slab_ok c sz st a" "slabs_apart sz (slabs st) (set F)"
    and f: "fill_ok (slabs st) [] [] F"
    using inv unfolding slub_inv_def by auto
  obtain ret h where r: "mapper (slab_alloc_size (stride sz)) (backing st) = Inr (ret, h)" "ret \<noteq> 0" "ret \<notin> set F"
    "slab_mem ret (stride sz) + 64 * stride sz < 2 ^ 64"
    "\<forall>a\<in>set F. {slab_mem ret (stride sz) ..< slab_mem ret (stride sz) + 64 * stride sz} \<inter>
                 span sz (slab_at (slabs st) a) = {}"
    using fresh unfolding mapper_fresh_def by blast
  let ?st = "with_slab c k ret h sz st" and ?A = "set ([] @ [ret] @ F)"
  have ok1: "\<forall>a\<in>?A. slab_ok c sz ?st a"
    using ok(1) with_slab_ok [OF r(4), where c = c and k = k and h = h and st = st] r(3)
    by (metis append_Nil append_Cons set_ConsD)
  have ap1: "slabs_apart sz (slabs ?st) ?A"
    using ok(2) r(3,5) unfolding slabs_apart_def slab_at_with_slab by (auto simp: span_def)
  have "s_free_nr (slab_at (slabs ?st) ret) = 64"
    by (simp add: slab_at_with_slab)
  then obtain p st1 where t: "slab_allocate_object ret ?st = Inr (p, st1)" "keeps ret ?st st1"
    "s_free_nr (slab_at (slabs st1) ret) = 63"
    "\<forall>b\<in>?A. slab_ok c sz st1 b" "slabs_apart sz (slabs st1) ?A"
    "p \<notin> objs sz (slabs ?st) ?A" "objs sz (slabs st1) ?A = insert p (objs sz (slabs ?st) ?A)"
    using take_step [OF sz ok1 ap1, of ret] by auto
  have "dll (slabs ?st) (full_list k) F"
    using l r(3) by (intro dll_cong [of F "slabs ?st" "slabs st"]) (auto simp: lists_ok_def slab_at_with_slab, auto simp: with_slab_def)
  then have "lists_ok (slabs ?st) (k\<lparr>partial_list := ret\<rparr>) [] [ret] F"
    using l r(2,3) by (simp add: lists_ok_def dll_def slab_at_with_slab) (simp add: with_slab_def)
  then have l1: "lists_ok (slabs st1) (k\<lparr>partial_list := ret\<rparr>) [] [ret] F"
    by (rule keeps_lists [OF t(2)])
  have "fill_ok (slabs st1) [] [ret] F"
    using f t(2,3) r(3) unfolding fill_ok_def keeps_def by (auto simp: slab_at_with_slab)
  moreover have "caches st1 c = Some (k\<lparr>partial_list := ret\<rparr>)"
    using t(2) by (simp add: keeps_def with_slab_def)
  ultimately have "slub_inv c sz st1 [] [ret] F"
    using sz k(2) l1 t(4,5) unfolding slub_inv_def by force
  moreover have "objs sz (slabs ?st) ?A = objs sz (slabs st) (set F)"
  proof -
    have "objs sz (slabs ?st) (set F) = objs sz (slabs st) (set F)"
      using r(3) unfolding objs_def by (intro SUP_cong) (auto simp: slab_at_with_slab)
    moreover have "?A - {ret} = set F"
      using r(3) by auto
    ultimately show ?thesis
      using objs_split [of ret ?A sz "slabs ?st"] with_slab_ok(2) [OF r(4), where c = c and k = k and h = h and st = st]
      by simp
  qed
  moreover have "slub_allocate_per_cpu mapper c st = Inr (p, st1)"
  proof -
    have "add64 (u64_of_int sz) 8 = stride sz" "s32 (int (u64_of_int sz)) = sz"
      using sz by (simp_all add: stride_def u64_of_int_small add64_small s32_def)
    then have "slub_allocate_per_cpu mapper c st = slab_allocate_object ret ?st"
      using l k r(1,2) by (simp add: slub_allocate_per_cpu_def cache_at_def lists_ok_def dll_def new_slab_def Let_def
          SIZEOF_object_header_def OBJECTS_PER_SLAB_def upd_slab_def slab_at_def with_slab_def)
    then show ?thesis
      using t(1) by simp
  qed
  ultimately show ?thesis
    using t(6,7) r(1) unfolding live_def by (metis append_Nil)
qed

text \<open>The slabs of the cache afterwards: the same ones, or one more, where the mapper put it.\<close>

definition grown :: "'h mapper \<Rightarrow> int \<Rightarrow> 'h slub \<Rightarrow> nat list \<Rightarrow> nat list \<Rightarrow> nat list \<Rightarrow> nat set \<Rightarrow> bool" where
  "grown mapper sz st E P F A \<longleftrightarrow>
     (if E = [] \<and> P = [] then \<exists>x h. mapper (slab_alloc_size (stride sz)) (backing st) = Inr (x, h) \<and> A = insert x (set F)
      else A = set (E @ P @ F))"

lemma slub_allocate_aux:
  assumes inv: "slub_inv c sz st E P F" and fresh: "E = [] \<Longrightarrow> P = [] \<Longrightarrow> mapper_fresh mapper sz st (set F)"
  shows "\<exists>p st' E' P' F'. slub_allocate_per_cpu mapper c st = Inr (p, st') \<and> slub_inv c sz st' E' P' F' \<and>
           grown mapper sz st E P F (set (E' @ P' @ F')) \<and>
           p \<notin> live sz st E P F \<and> live sz st' E' P' F' = insert p (live sz st E P F)"
proof (cases P)
  case Nil
  show ?thesis
  proof (cases E)
    case Nil
    then show ?thesis
      using slub_allocate_new [of c sz st F mapper] inv fresh \<open>P = []\<close> unfolding grown_def
      by (simp only: simp_thms if_True) (metis append_Nil append_Cons list.simps(15))
  next
    case (Cons x E')
    have "set (E' @ [x] @ F) = set (E @ P @ F)" using Cons \<open>P = []\<close> by auto
    then show ?thesis
      using slub_allocate_empty [of c sz st x E' F mapper] inv \<open>P = []\<close> Cons unfolding grown_def by (metis list.distinct(1))
  qed
next
  case (Cons x P')
  then show ?thesis
    using slub_allocate_partial [of c sz st E x P' F mapper] inv unfolding grown_def by (metis list.distinct(1))
qed

lemma slub_free_unfold:
  assumes "headers st (sub64 p 8) = Some x" "slabs st x = Some y" "s_slub_cache (slab_at (slabs st) x) = c"
    "caches st c = Some k" "slab_free_object x (sub64 p 8) st = Inr st1" "caches st1 = caches st"
    "s_slub_cache (slab_at (slabs st1) x) = c"
  shows "slub_free p st = (let nr = s_free_nr (slab_at (slabs st1) x) in
      if nr = 1 then
        let (fl, S1) = list_del (full_list k) x (slabs st1); (pl, S2) = list_add_head (partial_list k) x S1
        in Inr (st1\<lparr>slabs := S2, caches := (caches st1)(c \<mapsto> k\<lparr>full_list := fl, partial_list := pl\<rparr>)\<rparr>)
      else if nr = 64 then
        let (pl, S1) = list_del (partial_list k) x (slabs st1); (el, S2) = list_add_head (empty_list k) x S1
        in Inr (st1\<lparr>slabs := S2, caches := (caches st1)(c \<mapsto> k\<lparr>partial_list := pl, empty_list := el\<rparr>)\<rparr>)
      else Inr st1)"
  using assms by (simp add: slub_free_def cache_at_def SIZEOF_object_header_def OBJECTS_PER_SLAB_def Let_def)

lemma slub_free_aux:
  assumes inv: "slub_inv c sz st E P F" and p: "p \<in> live sz st E P F"
  shows "\<exists>st' E' P' F'. slub_free p st = Inr st' \<and> slub_inv c sz st' E' P' F' \<and> set (E' @ P' @ F') = set (E @ P @ F) \<and>
           live sz st' E' P' F' = live sz st E P F - {p}"
proof -
  let ?A = "set (E @ P @ F)"
  obtain k where sz: "0 \<le> sz" "sz < 2 ^ 31" and k: "caches st c = Some k" "c_size_each k = sz"
    and l: "lists_ok (slabs st) k E P F" and ok: "\<forall>a\<in>?A. slab_ok c sz st a" "slabs_apart sz (slabs st) ?A"
    and f: "fill_ok (slabs st) E P F"
    using inv unfolding slub_inv_def by blast
  obtain x st1 where t: "x \<in> ?A" "headers st (sub64 p 8) = Some x" "slab_free_object x (sub64 p 8) st = Inr st1"
    "keeps x st st1" "s_slub_cache (slab_at (slabs st1) x) = c"
    "s_free_nr (slab_at (slabs st1) x) = s_free_nr (slab_at (slabs st) x) + 1" "s_free_nr (slab_at (slabs st) x) < 64"
    "\<forall>b\<in>?A. slab_ok c sz st1 b" "slabs_apart sz (slabs st1) ?A" "objs sz (slabs st1) ?A = objs sz (slabs st) ?A - {p}"
    using drop_step [OF sz ok p [unfolded live_def]] by blast
  have l1: "lists_ok (slabs st1) k E P F"
    by (rule keeps_lists [OF t(4) l])
  have dist: "distinct (E @ P @ F)"
    using l by (simp add: lists_ok_def)
  have c1: "caches st1 = caches st"
    using t(4) by (simp add: keeps_def)
  have f1: "\<forall>a. a \<noteq> x \<longrightarrow> s_free_nr (slab_at (slabs st1) a) = s_free_nr (slab_at (slabs st) a)"
    using t(4) by (simp add: keeps_def)
  have xE: "x \<notin> set E"
    using f t(7) by (auto simp: fill_ok_def)
  have "slab_ok c sz st x"
    using ok(1) t(1) by blast
  then obtain y where sx: "slabs st x = Some y" "s_slub_cache (slab_at (slabs st) x) = c"
    by (auto simp: slab_ok_def slab_good_def)
  note unf = slub_free_unfold [OF t(2) sx(1) sx(2) k(1) t(3) c1 t(5)]
  consider (full) "x \<in> set F" | (part) "x \<in> set P" "x \<notin> set F"
    using t(1) xE by auto
  then show ?thesis
  proof cases
    case full
    obtain as bs where F: "F = as @ x # bs"
      using full by (auto dest: split_list)
    have "s_free_nr (slab_at (slabs st) x) = 0"
      using full f by (auto simp: fill_ok_def)
    then have n1: "s_free_nr (slab_at (slabs st1) x) = 1"
      using t(6) by simp
    let ?st' = "\<lambda>h S2. st1\<lparr>slabs := S2, caches := (caches st1)(c \<mapsto> k\<lparr>full_list := h, partial_list := x\<rparr>)\<rparr>"
    have "fill_ok (slabs st1) E (x # P) (as @ bs)"
      using f f1 dist n1 xE unfolding fill_ok_def F by auto
    moreover have "distinct ((as @ x # bs) @ P @ E)" "distinct (E @ (x # P) @ as @ bs)"
      "set (E @ (x # P) @ as @ bs) = set ((as @ x # bs) @ P @ E)" "set ((as @ x # bs) @ P @ E) = ?A"
      using dist unfolding F by auto
    ultimately obtain h S1 S2 where m: "list_del (full_list k) x (slabs st1) = (h, S1)"
      "list_add_head (partial_list k) x S1 = (x, S2)"
      "slub_inv c sz (?st' h S2) E (x # P) (as @ bs)"
      "live sz (?st' h S2) E (x # P) (as @ bs) = live sz st1 E (x # P) (as @ bs)"
      using move_inv [OF sz k(2), of st1 "full_list k" as x bs "partial_list k" P "empty_list k" E c ?st'
          "\<lambda>h. k\<lparr>full_list := h, partial_list := x\<rparr>" E "x # P" "as @ bs"] l1 t(8,9) k(2)
      unfolding F lists_ok_def by auto
    have "slub_free p st = Inr (?st' h S2)"
      using unf m(1,2) n1 by simp
    moreover have "set (E @ (x # P) @ as @ bs) = ?A" unfolding F by auto
    moreover have "live sz st1 E (x # P) (as @ bs) = live sz st E P F - {p}"
      using t(10) unfolding live_def F by (simp add: Un_commute Un_left_commute insert_commute)
    ultimately show ?thesis
      using m(3,4) by metis
  next
    case part
    obtain as bs where P: "P = as @ x # bs"
      using part by (auto dest: split_list)
    have n0: "0 < s_free_nr (slab_at (slabs st) x)"
      using part f by (auto simp: fill_ok_def)
    show ?thesis
    proof (cases "s_free_nr (slab_at (slabs st1) x) = 64")
      case True
      let ?st' = "\<lambda>h S2. st1\<lparr>slabs := S2, caches := (caches st1)(c \<mapsto> k\<lparr>partial_list := h, empty_list := x\<rparr>)\<rparr>"
      have "fill_ok (slabs st1) (x # E) (as @ bs) F"
        using f f1 dist True xE part(2) unfolding fill_ok_def P by auto
      moreover have "distinct ((as @ x # bs) @ E @ F)" "distinct ((x # E) @ (as @ bs) @ F)"
        "set ((x # E) @ (as @ bs) @ F) = set ((as @ x # bs) @ E @ F)" "set ((as @ x # bs) @ E @ F) = ?A"
        using dist unfolding P by auto
      ultimately obtain h S1 S2 where m: "list_del (partial_list k) x (slabs st1) = (h, S1)"
        "list_add_head (empty_list k) x S1 = (x, S2)"
        "slub_inv c sz (?st' h S2) (x # E) (as @ bs) F"
        "live sz (?st' h S2) (x # E) (as @ bs) F = live sz st1 (x # E) (as @ bs) F"
        using move_inv [OF sz k(2), of st1 "partial_list k" as x bs "empty_list k" E "full_list k" F c ?st'
            "\<lambda>h. k\<lparr>partial_list := h, empty_list := x\<rparr>" "x # E" "as @ bs" F] l1 t(8,9) k(2)
        unfolding P lists_ok_def by auto
      have "slub_free p st = Inr (?st' h S2)"
        using unf m(1,2) True by simp
      moreover have "set ((x # E) @ (as @ bs) @ F) = ?A" unfolding P by auto
      moreover have "live sz st1 (x # E) (as @ bs) F = live sz st E P F - {p}"
        using t(10) unfolding live_def P by (simp add: Un_commute Un_left_commute insert_commute)
      ultimately show ?thesis
        using m(3,4) by metis
    next
      case False
      have f2: "s_free_nr (slab_at (slabs st1) a) = s_free_nr (slab_at (slabs st) a) + (if a = x then 1 else 0)" for a
        using f1 t(6) by simp
      have "fill_ok (slabs st1) E P F"
        using f False n0 t(6,7) xE part(2) unfolding fill_ok_def f2 by auto
      then have "slub_inv c sz st1 E P F"
        using sz k l1 t(8,9) c1 unfolding slub_inv_def by metis
      moreover have "slub_free p st = Inr st1"
        using unf False n0 t(6) by simp
      ultimately show ?thesis
        using t(10) unfolding live_def by blast
    qed
  qed
qed

text \<open>
  A per-CPU cache that satisfies the invariant (its slabs are on exactly one of the three doubly
  linked lists, by their number of free objects; the bitmap, the counter and the object headers agree)
  gives out an object that was not live, and the invariant holds afterwards with exactly this object
  added. Only when no slab has a free object is the mapper called, and then it must return memory that
  is not in use.
\<close>

lemma slub_allocate_correct:
  assumes "slub_inv c sz st E P F" "E = [] \<and> P = [] \<longrightarrow> mapper_fresh mapper sz st (set F)"
  shows "\<exists>p st' E' P' F'. slub_allocate_per_cpu mapper c st = Inr (p, st') \<and> slub_inv c sz st' E' P' F' \<and>
           p \<notin> live sz st E P F \<and> live sz st' E' P' F' = insert p (live sz st E P F)"
  using slub_allocate_aux [of c sz st E P F mapper] assms by blast

definition bump_mapper :: "nat mapper" where
  "bump_mapper len h = Inr (h, h + len)"

definition demo_cache :: "nat slub" where
  "demo_cache = \<lparr>slabs = Map.empty, caches = [256 \<mapsto> \<lparr>empty_list = 0, partial_list = 0, full_list = 0, c_size_each = 16\<rparr>],
                 headers = Map.empty, backing = 4096\<rparr>"

lemma demo_cache_inv: "slub_inv 256 16 demo_cache [] [] []"
  by (simp add: slub_inv_def demo_cache_def lists_ok_def dll_def fill_ok_def slabs_apart_def)

lemma demo_cache_fresh: "mapper_fresh bump_mapper 16 demo_cache (set [])"
  by (simp add: mapper_fresh_def bump_mapper_def demo_cache_def slab_mem_def stride_def SIZEOF_slab_def
      add64_def sub64_def mul64_def)

lemma slub_allocate_correct_example:
  "\<exists>p st' E' P' F'. slub_allocate_per_cpu bump_mapper 256 demo_cache = Inr (p, st') \<and> slub_inv 256 16 st' E' P' F' \<and>
     live 16 st' E' P' F' = {p}"
proof -
  have "live 16 demo_cache [] [] [] = {}"
    by (simp add: live_def objs_def)
  then show ?thesis
    using slub_allocate_correct [OF demo_cache_inv, of bump_mapper] demo_cache_fresh by auto
qed

text \<open>
  C15. Freeing a live object of a cache that satisfies the invariant succeeds, keeps the invariant
  (moving the slab from the full list to the partial one or from the partial one to the empty one when
  its count says so), and the live objects afterwards are those before without this object.
\<close>

theorem slub_free_correct:
  assumes "slub_inv c sz st E P F" "p \<in> live sz st E P F"
  shows "\<exists>st' E' P' F'. slub_free p st = Inr st' \<and> slub_inv c sz st' E' P' F' \<and>
           live sz st' E' P' F' = live sz st E P F - {p}"
  using slub_free_aux [OF assms] by blast

theorem slub_free_correct_witness:
  "\<exists>p st st' E' P' F'. slub_allocate_per_cpu bump_mapper 256 demo_cache = Inr (p, st) \<and>
     slub_free p st = Inr st' \<and> slub_inv 256 16 st' E' P' F' \<and> live 16 st' E' P' F' = {}"
proof -
  obtain p st E P F where a: "slub_allocate_per_cpu bump_mapper 256 demo_cache = Inr (p, st)"
    "slub_inv 256 16 st E P F" "live 16 st E P F = insert p (live 16 demo_cache [] [] [])"
    using slub_allocate_aux [OF demo_cache_inv, of bump_mapper] demo_cache_fresh by auto
  moreover have "live 16 demo_cache [] [] [] = {}"
    by (simp add: live_def objs_def)
  ultimately have "p \<in> live 16 st E P F" "live 16 st E P F - {p} = {}"
    by auto
  then show ?thesis
    using slub_free_correct [OF a(2)] a(1) by metis
qed

section \<open>The memory of a slab\<close>

definition bucket_stride :: "nat \<Rightarrow> nat" where
  "bucket_stride i = sc_size (init_unsafe_slub_buckets ! i) + SIZEOF_object_header"

lemma bucket_stride_eq: "i < 10 \<Longrightarrow> bucket_stride i = 2 ^ (i + 4) + 8"
  by (simp add: bucket_stride_def init_unsafe_slub_buckets_def SlubCache_def NUM_SLUB_BUCKETS_def
      SIZEOF_object_header_def power_add)

lemma slab_mem_le:
  assumes "0 < osh" "ret + 77 + osh < 2 ^ 64"
  shows "slab_mem ret osh \<le> ret + 76 + osh"
proof -
  have "(ret + 76) div osh * osh \<le> ret + 76"
    by simp
  moreover have "sub64 (add64 ret 77) 1 = ret + 76"
    using assms(2) by (simp add: add64_small sub64_small)
  moreover have "mul64 a b \<le> a * b" "add64 a b \<le> a + b" for a b
    by (simp_all add: mul64_def add64_def)
  ultimately show ?thesis
    unfolding slab_mem_def SIZEOF_slab_def by (metis add_le_mono1 order_trans)
qed

lemma bucket_stride_slack:
  assumes "i < 8"
  shows "76 + bucket_stride i + 64 * bucket_stride i \<le> slab_alloc_size (bucket_stride i)"
    "slab_alloc_size (bucket_stride i) < 2 ^ 20" "0 < bucket_stride i"
proof -
  have "i \<in> {0, 1, 2, 3, 4, 5, 6, 7}"
    using assms by auto
  then show "76 + bucket_stride i + 64 * bucket_stride i \<le> slab_alloc_size (bucket_stride i)"
    "slab_alloc_size (bucket_stride i) < 2 ^ 20" "0 < bucket_stride i"
    by (auto simp: bucket_stride_eq slab_alloc_size_def OBJECTS_PER_SLAB_def page_mask_def
        add64_def sub64_def mul64_def)
qed

text \<open>
  C35. In the buckets for objects of up to 2048 bytes the 64 objects of a new slab lie inside the memory
  the mapper was asked for, wherever that starts. In the last bucket they do not: the rounding of the
  first object to a multiple of the stride is not part of the size that is requested.
\<close>

theorem new_slab_bounds:
  "(\<forall>i<8. \<forall>ret. ret + 2 ^ 20 < 2 ^ 64 \<longrightarrow>
      slab_mem ret (bucket_stride i) + 64 * bucket_stride i \<le> ret + slab_alloc_size (bucket_stride i)) \<and>
   slab_mem 4096 (bucket_stride 9) + 64 * bucket_stride 9 > 4096 + slab_alloc_size (bucket_stride 9)"
proof
  show "\<forall>i<8. \<forall>ret. ret + 2 ^ 20 < 2 ^ 64 \<longrightarrow>
           slab_mem ret (bucket_stride i) + 64 * bucket_stride i \<le> ret + slab_alloc_size (bucket_stride i)"
  proof (intro allI impI)
    fix i ret :: nat
    assume "i < 8" and r: "ret + 2 ^ 20 < 2 ^ 64"
    note b = bucket_stride_slack [OF this(1)]
    have "ret + 77 + bucket_stride i < 2 ^ 64"
      using b r by linarith
    from slab_mem_le [OF b(3) this] b(1)
    show "slab_mem ret (bucket_stride i) + 64 * bucket_stride i \<le> ret + slab_alloc_size (bucket_stride i)"
      by linarith
  qed
  show "slab_mem 4096 (bucket_stride 9) + 64 * bucket_stride 9 > 4096 + slab_alloc_size (bucket_stride 9)"
    by (simp add: bucket_stride_eq slab_alloc_size_def slab_mem_def SIZEOF_slab_def OBJECTS_PER_SLAB_def
        page_mask_def add64_def sub64_def mul64_def)
qed

theorem new_slab_bounds_witness:
  "slab_mem 40960 (bucket_stride 7) + 64 * bucket_stride 7 \<le> 40960 + slab_alloc_size (bucket_stride 7)"
  using conjunct1 [OF new_slab_bounds, rule_format, of 7 40960] by simp

end
