(* ===== verification/Slub_Heap.thy ===== *)
theory Slub_Heap
  imports Slub
begin

text \<open>
  The slab caches on the heap they take their memory from (\<open>libOS/slub.cpp\<close> on \<open>libOS/allocator.cpp\<close>). A cache
  gets its slabs from a mapper; \<open>slab_source\<close> is what it needs of it, and the unsafe heap provides it. So the caches
  of the unsafe buckets never give out memory that is in use elsewhere, with no assumption on their mapper left.
\<close>

section \<open>What a cache needs of its mapper\<close>

text \<open>Every step of the cache keeps the memory of the slabs it has; only a new slab changes the state behind the mapper.\<close>

definition same_mem :: "(nat \<rightharpoonup> slab) \<Rightarrow> (nat \<rightharpoonup> slab) \<Rightarrow> bool" where
  "same_mem S S' \<longleftrightarrow> (\<forall>a. s_mem (slab_at S' a) = s_mem (slab_at S a))"

lemma list_add_head_mem: "same_mem S (snd (list_add_head h x S))"
  by (auto simp: list_add_head_def same_mem_def Let_def)

lemma list_del_mem: "same_mem S (snd (list_del h x S))"
  by (auto simp: list_del_def same_mem_def Let_def)

lemma same_mem_trans: "same_mem S T \<Longrightarrow> same_mem T U \<Longrightarrow> same_mem S U"
  by (simp add: same_mem_def)

lemma slab_allocate_object_mem:
  "slab_allocate_object x st = Inr (p, st') \<Longrightarrow> same_mem (slabs st) (slabs st') \<and> backing st' = backing st"
  by (auto simp: slab_allocate_object_def same_mem_def Let_def rbind_eq_Inr)

lemma slab_free_object_mem:
  "slab_free_object x h st = Inr st' \<Longrightarrow> same_mem (slabs st) (slabs st') \<and> backing st' = backing st"
  by (auto simp: slab_free_object_def same_mem_def Let_def rbind_eq_Inr)

lemma relink_mem: "same_mem S T \<Longrightarrow> same_mem S (snd (list_add_head h x (snd (list_del h' y T))))"
  by (meson list_add_head_mem list_del_mem same_mem_trans)

lemma slub_free_mem:
  assumes "slub_free p st = Inr st'"
  shows "same_mem (slabs st) (slabs st') \<and> backing st' = backing st"
  using assms
  by (auto simp: slub_free_def Let_def rbind_eq_Inr case_prod_beta relink_mem split: option.splits if_splits dest!: slab_free_object_mem)

definition slab_request :: "int \<Rightarrow> nat" where
  "slab_request sz = slab_alloc_size (stride sz)"

lemma slub_allocate_mem:
  assumes "slub_allocate_per_cpu mapper c st = Inr (p, st')" "caches st c = Some k" "c_size_each k = sz" "0 \<le> sz" "sz < 2 ^ 31"
  shows "if partial_list k = 0 \<and> empty_list k = 0
    then \<exists>x h. mapper (slab_request sz) (backing st) = Inr (x, h) \<and> x \<noteq> 0 \<and> backing st' = h \<and>
      s_mem (slab_at (slabs st') x) = slab_mem x (stride sz) \<and> (\<forall>a. a \<noteq> x \<longrightarrow> s_mem (slab_at (slabs st') a) = s_mem (slab_at (slabs st) a))
    else same_mem (slabs st) (slabs st') \<and> backing st' = backing st"
proof (cases "partial_list k = 0 \<and> empty_list k = 0")
  case True
  have e: "add64 (u64_of_int sz) SIZEOF_object_header = stride sz"
    using assms(4,5) by (simp add: stride_def u64_of_int_small add64_small SIZEOF_object_header_def)
  show ?thesis using True assms(1,2,3)
    by (auto simp: slub_allocate_per_cpu_def cache_at_def new_slab_def Let_def rbind_eq_Inr e slab_request_def same_mem_def split: if_splits
        dest!: slab_allocate_object_mem) (auto simp: slab_at_def upd_slab_def)
next
  case False
  then show ?thesis using assms(1,2)
    by (auto simp: slub_allocate_per_cpu_def cache_at_def Let_def rbind_eq_Inr case_prod_beta relink_mem split: if_splits
        dest!: slab_allocate_object_mem)
qed

text \<open>The bytes of an object lie in its slab, and different objects share no byte.\<close>

definition obj_bytes :: "int \<Rightarrow> nat \<Rightarrow> nat set" where
  "obj_bytes sz p = {p ..< p + nat sz}"

lemma live_in_slab:
  assumes "p \<in> live sz st E P F"
  shows "\<exists>a \<in> set (E @ P @ F). \<exists>n < 64. p = s_mem (slab_at (slabs st) a) + n * stride sz + 8 \<and> obj_bytes sz p \<subseteq> span sz (slab_at (slabs st) a)"
proof -
  obtain a n where a: "a \<in> set (E @ P @ F)" "n < 64" "p = s_mem (slab_at (slabs st) a) + n * stride sz + 8"
    using assms by (auto simp: live_def objs_def slab_bits_def)
  have "(n + 1) * stride sz \<le> 64 * stride sz" using a(2) by (intro mult_le_mono1) simp
  then have "obj_bytes sz p \<subseteq> span sz (slab_at (slabs st) a)" by (auto simp: obj_bytes_def span_def a(3) stride_def)
  then show ?thesis using a by blast
qed

lemma live_apart:
  assumes "slub_inv c sz st E P F" "p \<in> live sz st E P F" "q \<in> live sz st E P F" "p \<noteq> q"
  shows "obj_bytes sz p \<inter> obj_bytes sz q = {}"
proof -
  obtain a n where a: "a \<in> set (E @ P @ F)" "p = s_mem (slab_at (slabs st) a) + n * stride sz + 8" "obj_bytes sz p \<subseteq> span sz (slab_at (slabs st) a)"
    using live_in_slab [OF assms(2)] by blast
  obtain b m where b: "b \<in> set (E @ P @ F)" "q = s_mem (slab_at (slabs st) b) + m * stride sz + 8" "obj_bytes sz q \<subseteq> span sz (slab_at (slabs st) b)"
    using live_in_slab [OF assms(3)] by blast
  show ?thesis
  proof (cases "a = b")
    case True
    then consider "n < m" | "m < n" using a(2) b(2) assms(4) by fastforce
    then have "n * stride sz + stride sz \<le> m * stride sz \<or> m * stride sz + stride sz \<le> n * stride sz"
      by cases (metis Suc_leI add.commute mult_Suc mult_le_mono1)+
    then show ?thesis using a(2) b(2) True by (auto simp: obj_bytes_def stride_def)
  next
    case False
    then have "span sz (slab_at (slabs st) a) \<inter> span sz (slab_at (slabs st) b) = {}"
      using assms(1) a(1) b(1) unfolding slub_inv_def slabs_apart_def by blast
    then show ?thesis using a(3) b(3) by blast
  qed
qed

text \<open>The objects of a slab lie in the memory that was asked for.\<close>

definition slab_fits :: "int \<Rightarrow> bool" where
  "slab_fits sz \<longleftrightarrow> 0 < slab_request sz \<and> (\<forall>ret. ret + 2 ^ 20 < 2 ^ 64 \<longrightarrow>
     ret < slab_mem ret (stride sz) \<and> slab_mem ret (stride sz) + 64 * stride sz \<le> ret + slab_request sz \<and> slab_request sz < 2 ^ 20)"

lemma slab_fits_bucket:
  assumes "i < 8"
  shows "slab_fits (2 ^ (i + 4))"
proof -
  have e: "stride (2 ^ (i + 4)) = bucket_stride i" using assms by (simp add: stride_def bucket_stride_eq nat_power_eq)
  note b = bucket_stride_slack [OF assms]
  have "ret < slab_mem ret (bucket_stride i) \<and> slab_mem ret (bucket_stride i) + 64 * bucket_stride i \<le> ret + slab_alloc_size (bucket_stride i)"
    if r: "ret + 2 ^ 20 < 2 ^ 64" for ret
  proof -
    have lt: "ret + 77 + bucket_stride i < 2 ^ 64" using b r by linarith
    let ?q = "(ret + 76) div bucket_stride i * bucket_stride i"
    have q: "?q \<le> ret + 76" "ret + 76 < ?q + bucket_stride i"
      using dividend_less_div_times [OF b(3), of "ret + 76"] by (simp_all add: add.commute)
    have "slab_mem ret (bucket_stride i) = ?q + bucket_stride i"
    proof -
      have "sub64 (add64 ret 77) 1 = ret + 76" using lt by (simp add: add64_small sub64_small)
      moreover have "mul64 ((ret + 76) div bucket_stride i) (bucket_stride i) = ?q" using lt q(1) by (intro mul64_small) linarith
      moreover have "add64 ?q (bucket_stride i) = ?q + bucket_stride i" using lt q(1) by (intro add64_small) linarith
      ultimately show ?thesis by (simp only: slab_mem_def SIZEOF_slab_def)
    qed
    then show ?thesis using q b(1) by linarith
  qed
  then show ?thesis using b by (simp add: slab_fits_def slab_request_def e)
qed

text \<open>
  The contract of a mapper. \<open>avail\<close> is the memory it can still give out; what it gives out was in it and is not in
  it any more.
\<close>

locale slab_source =
  fixes mapper :: "'h mapper"
    and ok :: "'h \<Rightarrow> bool"
    and avail :: "'h \<Rightarrow> nat set"
  assumes source_returns: "ok h \<Longrightarrow> \<exists>x h'. mapper n h = Inr (x, h')"
    and source_fresh: "ok h \<Longrightarrow> mapper n h = Inr (x, h') \<Longrightarrow> x \<noteq> 0 \<Longrightarrow>
      ok h' \<and> {x ..< x + n} \<subseteq> avail h \<and> avail h' \<subseteq> avail h - {x ..< x + n} \<and> x + n + 2 ^ 20 < 2 ^ 64"
begin

definition cached :: "nat \<Rightarrow> int \<Rightarrow> 'h slub \<Rightarrow> nat list \<Rightarrow> nat list \<Rightarrow> nat list \<Rightarrow> bool" where
  "cached c sz st E P F \<longleftrightarrow>
     slub_inv c sz st E P F \<and> ok (backing st) \<and>
     (\<forall>a \<in> set (E @ P @ F). a \<notin> avail (backing st) \<and> span sz (slab_at (slabs st) a) \<inter> avail (backing st) = {})"

lemma new_slab_span:
  assumes "ok h" "mapper (slab_request sz) h = Inr (x, h')" "x \<noteq> 0" "slab_fits sz"
  shows "{slab_mem x (stride sz) ..< slab_mem x (stride sz) + 64 * stride sz} \<subseteq> {x ..< x + slab_request sz}"
    "slab_mem x (stride sz) + 64 * stride sz < 2 ^ 64" "x \<in> avail h"
proof -
  note f = source_fresh [OF assms(1-3)]
  then have "x + 2 ^ 20 < 2 ^ 64" by linarith
  then have m: "x < slab_mem x (stride sz)" "slab_mem x (stride sz) + 64 * stride sz \<le> x + slab_request sz" "0 < slab_request sz"
    using assms(4) by (auto simp: slab_fits_def)
  then show "{slab_mem x (stride sz) ..< slab_mem x (stride sz) + 64 * stride sz} \<subseteq> {x ..< x + slab_request sz}" by auto
  show "slab_mem x (stride sz) + 64 * stride sz < 2 ^ 64" using m f by linarith
  show "x \<in> avail h" using f m(3) by auto
qed

lemma cached_fresh:
  assumes "cached c sz st [] [] F" "slab_fits sz" "mapper (slab_request sz) (backing st) = Inr (x, h)" "x \<noteq> 0"
  shows "mapper_fresh mapper sz st (set F)"
proof -
  have ok: "ok (backing st)" and F: "\<forall>a \<in> set F. a \<notin> avail (backing st) \<and> span sz (slab_at (slabs st) a) \<inter> avail (backing st) = {}"
    using assms(1) by (auto simp: cached_def)
  note n = new_slab_span [OF ok assms(3,4,2)]
  have "{x ..< x + slab_request sz} \<subseteq> avail (backing st)" using source_fresh [OF ok assms(3,4)] by blast
  then have "{slab_mem x (stride sz) ..< slab_mem x (stride sz) + 64 * stride sz} \<subseteq> avail (backing st)" using n(1) by blast
  then have "\<forall>a \<in> set F. {slab_mem x (stride sz) ..< slab_mem x (stride sz) + 64 * stride sz} \<inter> span sz (slab_at (slabs st) a) = {}"
    using F by blast
  moreover have "x \<notin> set F" using F n(3) by blast
  ultimately show ?thesis using assms(3,4) n(2) unfolding mapper_fresh_def slab_request_def by blast
qed

lemma cached_lists:
  assumes "cached c sz st E P F"
  obtains k where "caches st c = Some k" "c_size_each k = sz" "0 \<le> sz" "sz < 2 ^ 31" "partial_list k = 0 \<longleftrightarrow> P = []" "empty_list k = 0 \<longleftrightarrow> E = []"
proof -
  obtain k where k: "caches st c = Some k" "c_size_each k = sz" "0 \<le> sz" "sz < 2 ^ 31" "lists_ok (slabs st) k E P F"
    using assms by (auto simp: cached_def slub_inv_def)
  have "partial_list k = 0 \<longleftrightarrow> P = []" "empty_list k = 0 \<longleftrightarrow> E = []"
    using k(5) by (cases P; cases E; auto simp: lists_ok_def dll_def)+
  then show thesis using that [of k] k by simp
qed

lemma cached_allocate:
  assumes "cached c sz st E P F" "slab_fits sz" "E = [] \<and> P = [] \<longrightarrow> (\<forall>h. mapper (slab_request sz) (backing st) \<noteq> Inr (0, h))"
  shows "\<exists>p st' E' P' F'. slub_allocate_per_cpu mapper c st = Inr (p, st') \<and> cached c sz st' E' P' F' \<and>
    p \<notin> live sz st E P F \<and> live sz st' E' P' F' = insert p (live sz st E P F)"
proof -
  have inv: "slub_inv c sz st E P F" and ok: "ok (backing st)"
    and apart: "\<And>a. a \<in> set (E @ P @ F) \<Longrightarrow> a \<notin> avail (backing st) \<and> span sz (slab_at (slabs st) a) \<inter> avail (backing st) = {}"
    using assms(1) by (auto simp: cached_def)
  obtain k where k: "caches st c = Some k" "c_size_each k = sz" "0 \<le> sz" "sz < 2 ^ 31" "partial_list k = 0 \<longleftrightarrow> P = []" "empty_list k = 0 \<longleftrightarrow> E = []"
    using cached_lists [OF assms(1)] .
  have fresh: "mapper_fresh mapper sz st (set F)" if e: "E = []" "P = []"
  proof -
    obtain x h where x: "mapper (slab_request sz) (backing st) = Inr (x, h)" using source_returns [OF ok] by blast
    then have "x \<noteq> 0" using assms(3) e by auto
    then show ?thesis using cached_fresh [OF _ assms(2) x] assms(1) e by simp
  qed
  obtain p st' E' P' F' where a: "slub_allocate_per_cpu mapper c st = Inr (p, st')" "slub_inv c sz st' E' P' F'"
      "grown mapper sz st E P F (set (E' @ P' @ F'))" "p \<notin> live sz st E P F" "live sz st' E' P' F' = insert p (live sz st E P F)"
    using slub_allocate_aux [OF inv fresh] by blast
  note m = slub_allocate_mem [OF a(1) k(1-4), unfolded k(5,6)]
  have "cached c sz st' E' P' F'"
  proof (cases "E = [] \<and> P = []")
    case False
    then have "set (E' @ P' @ F') = set (E @ P @ F)" using a(3) by (auto simp: grown_def split: if_splits)
    then show ?thesis using False m a(2) ok apart by (auto simp: cached_def same_mem_def span_def split: if_splits)
  next
    case True
    obtain x h where x: "mapper (slab_request sz) (backing st) = Inr (x, h)" "x \<noteq> 0" "backing st' = h"
        "s_mem (slab_at (slabs st') x) = slab_mem x (stride sz)" "\<And>b. b \<noteq> x \<Longrightarrow> s_mem (slab_at (slabs st') b) = s_mem (slab_at (slabs st) b)"
      using m True by auto
    have A: "set (E' @ P' @ F') = insert x (set F)"
      using a(3) True x(1) by (auto simp: grown_def slab_request_def)
    note n = new_slab_span [OF ok x(1,2) assms(2)] and f = source_fresh [OF ok x(1,2)]
    have "b \<notin> avail h \<and> span sz (slab_at (slabs st') b) \<inter> avail h = {}" if "b \<in> insert x (set F)" for b
    proof (cases "b = x")
      case True
      have "span sz (slab_at (slabs st') b) \<subseteq> {x ..< x + slab_request sz}" using n(1) by (simp add: True span_def x(4))
      moreover have "x \<in> {x ..< x + slab_request sz}" using assms(2) by (simp add: slab_fits_def)
      ultimately show ?thesis using f True by blast
    next
      case False
      then have "span sz (slab_at (slabs st') b) = span sz (slab_at (slabs st) b)" by (simp add: span_def x(5))
      then show ?thesis using apart [of b] that False f by auto
    qed
    then show ?thesis unfolding cached_def A using a(2) f x(3) by simp
  qed
  then show ?thesis using a by blast
qed

lemma cached_no_memory:
  assumes "cached c sz st [] [] F" "mapper (slab_request sz) (backing st) = Inr (0, h)"
  shows "slub_allocate_per_cpu mapper c st = Inl Wild"
proof -
  obtain k where k: "caches st c = Some k" "c_size_each k = sz" "0 \<le> sz" "sz < 2 ^ 31" "partial_list k = 0" "empty_list k = 0"
    using cached_lists [OF assms(1)] by blast
  have "add64 (u64_of_int sz) SIZEOF_object_header = stride sz"
    using k(3,4) by (simp add: stride_def u64_of_int_small add64_small SIZEOF_object_header_def)
  then show ?thesis using k assms(2) by (simp add: slub_allocate_per_cpu_def cache_at_def new_slab_def slab_request_def)
qed

lemma cached_free:
  assumes "cached c sz st E P F" "p \<in> live sz st E P F"
  shows "\<exists>st' E' P' F'. slub_free p st = Inr st' \<and> cached c sz st' E' P' F' \<and> live sz st' E' P' F' = live sz st E P F - {p}"
proof -
  obtain st' E' P' F' where f: "slub_free p st = Inr st'" "slub_inv c sz st' E' P' F'" "set (E' @ P' @ F') = set (E @ P @ F)"
      "live sz st' E' P' F' = live sz st E P F - {p}"
    using slub_free_aux [of c sz st E P F p] assms by (auto simp: cached_def)
  have "cached c sz st' E' P' F'"
    using assms(1) slub_free_mem [OF f(1)] f(2) unfolding cached_def f(3) by (auto simp: same_mem_def span_def)
  then show ?thesis using f by blast
qed

end

section \<open>The unsafe heap is such a source\<close>

definition unsafe_ok :: "nat \<Rightarrow> libos_heap \<Rightarrow> bool" where
  "unsafe_ok MA h \<longleftrightarrow> (\<exists>al lo hi L. unsafeAllocator h = Some al \<and> alloc_inv MA lo hi L al \<and> hi + 2 ^ 20 < 2 ^ 64)"

definition unsafe_avail :: "nat \<Rightarrow> libos_heap \<Rightarrow> nat set" where
  "unsafe_avail MA h = (case unsafeAllocator h of None \<Rightarrow> {} | Some al \<Rightarrow> free_bytes MA al)"

lemma unsafe_mapper_malloc:
  assumes "unsafeAllocator h = Some al" "alloc_inv MA lo hi L al"
  obtains p al' where "unsafe_mapper MA n h = Inr (p, h\<lparr>unsafeAllocator := Some al'\<rparr>)" "malloc_spec MA lo hi L n al p al'"
    "p = 0 \<longleftrightarrow> n = 0 \<or> (\<forall>a \<in> set (root al). ma_len (hdr (areas al) a) < n)"
proof -
  obtain p al' where p: "Allocator_malloc MA n al = Inr (p, al')" "malloc_spec MA lo hi L n al p al'"
      "p = 0 \<longleftrightarrow> n = 0 \<or> (\<forall>a \<in> set (root al). ma_len (hdr (areas al) a) < n)"
    using Allocator_malloc_aux [OF assms(2), of n] by blast
  then show thesis using that [of p al'] assms(1) by (simp add: unsafe_mapper_def unsafeMalloc_def)
qed

interpretation unsafe: slab_source "unsafe_mapper MA" "unsafe_ok MA" "unsafe_avail MA" for MA
proof
  fix h h' :: libos_heap and n x :: nat
  assume "unsafe_ok MA h"
  then obtain al lo hi L where u: "unsafeAllocator h = Some al" "alloc_inv MA lo hi L al" "hi + 2 ^ 20 < 2 ^ 64"
    by (auto simp: unsafe_ok_def)
  obtain p al' where p: "unsafe_mapper MA n h = Inr (p, h\<lparr>unsafeAllocator := Some al'\<rparr>)" "malloc_spec MA lo hi L n al p al'"
    using unsafe_mapper_malloc [OF u(1,2)] by metis
  show "\<exists>x h'. unsafe_mapper MA n h = Inr (x, h')" using p(1) by blast
  assume x: "unsafe_mapper MA n h = Inr (x, h')" "x \<noteq> 0"
  then have h': "x = p" "h' = h\<lparr>unsafeAllocator := Some al'\<rparr>" using p(1) by auto
  have s: "MA < p" "alloc_inv MA lo hi (insert (p - MA) L) al'" "ma_len (hdr (areas al') (p - MA)) = n"
      "region MA al' (p - MA) \<subseteq> free_bytes MA al" "free_bytes MA al' \<subseteq> free_bytes MA al - region MA al' (p - MA)"
    using p(2) x(2) h'(1) by (auto simp: malloc_spec_def)
  have e: "area_end MA al' (p - MA) = p + n" using s(1,3) by (simp add: area_end_def)
  then have r: "{p ..< p + n} \<subseteq> region MA al' (p - MA)" by (auto simp: region_def)
  have "area_end MA al' (p - MA) \<le> hi" using s(2) by (auto simp: inv_defs area_ok_def)
  then have "p + n + 2 ^ 20 < 2 ^ 64" using u(3) e by linarith
  then show "unsafe_ok MA h' \<and> {x ..< x + n} \<subseteq> unsafe_avail MA h \<and> unsafe_avail MA h' \<subseteq> unsafe_avail MA h - {x ..< x + n} \<and>
      x + n + 2 ^ 20 < 2 ^ 64"
    using s(2,4,5) r u by (auto simp: unsafe_ok_def unsafe_avail_def h')
qed

text \<open>A cache of the unsafe buckets: its slabs lie in memory that the unsafe heap has given out.\<close>

definition unsafe_cached :: "nat \<Rightarrow> nat \<Rightarrow> int \<Rightarrow> libos_heap slub \<Rightarrow> nat list \<Rightarrow> nat list \<Rightarrow> nat list \<Rightarrow> bool" where
  "unsafe_cached MA c sz st E P F \<longleftrightarrow>
     slub_inv c sz st E P F \<and> unsafe_ok MA (backing st) \<and>
     (\<forall>a \<in> set (E @ P @ F). a \<notin> unsafe_avail MA (backing st) \<and> span sz (slab_at (slabs st) a) \<inter> unsafe_avail MA (backing st) = {})"

lemma unsafe_cached_iff: "unsafe_cached MA c sz st E P F \<longleftrightarrow> unsafe.cached MA c sz st E P F"
  by (simp add: unsafe_cached_def unsafe.cached_def)


definition demo_unsafe :: allocator where
  "demo_unsafe = \<lparr>areas = [65536 \<mapsto> MemoryArea 8096 65536], root = [65536], chunkList = (replicate 40 [])[39 := [65536]]\<rparr>"

lemma demo_unsafe_inv: "alloc_inv 96 65536 131072 {} demo_unsafe"
proof -
  have "heap_ok 96 65536 131072" by (simp add: heap_ok_def)
  from expandHeap_aux [OF empty_inv [OF this, of Map.empty], of 65536 8192]
  show ?thesis
    by (simp add: expandHeap_def demo_unsafe_def sub64_small insert_equal_def push_back_def CHUNK_LIST_SIZE_def Let_def)
qed

definition demo_unsafe_cache :: "libos_heap slub" where
  "demo_unsafe_cache = \<lparr>slabs = Map.empty, caches = [256 \<mapsto> \<lparr>empty_list = 0, partial_list = 0, full_list = 0, c_size_each = 16\<rparr>],
     headers = Map.empty, backing = \<lparr>pageManager = None, safeAllocator = None, unsafeAllocator = Some demo_unsafe, mem = \<lambda>_. 0\<rparr>\<rparr>"


end
