(* ===== verification/Linked_List.thy ===== *)
theory Linked_List
  imports Prelude
begin

text \<open>
  The circular doubly linked list of the watch lists (\<open>libOS/linked_list.h\<close>).

  Nodes live in a store from addresses to their two pointers; the list object contributes its head
  node. \<open>__listAdd\<close> and \<open>listDelete\<close> change the links of their neighbours under \<open>listLock\<close>.
\<close>

section \<open>State and operations\<close>

record list_node =
  prev :: nat
  next_node :: nat

type_synonym nodes = "nat \<Rightarrow> list_node"

definition LIST_POISON1 :: nat where
  "LIST_POISON1 = 0x00100100"

definition LIST_POISON2 :: nat where
  "LIST_POISON2 = 0x00200200"

definition set_next :: "nat \<Rightarrow> nat \<Rightarrow> nodes \<Rightarrow> nodes" where
  "set_next a v h = h(a := (h a)\<lparr>next_node := v\<rparr>)"

definition set_prev :: "nat \<Rightarrow> nat \<Rightarrow> nodes \<Rightarrow> nodes" where
  "set_prev a v h = h(a := (h a)\<lparr>prev := v\<rparr>)"

definition LinkedList :: "nat \<Rightarrow> nodes \<Rightarrow> nodes" where
  "LinkedList head h = set_prev head head (set_next head head h)"

definition list_begin :: "nat \<Rightarrow> nodes \<Rightarrow> nat" where
  "list_begin head h = next_node (h head)"

definition list_end :: "nat \<Rightarrow> nat" where
  "list_end head = head"

definition listEntry :: "nat \<Rightarrow> nat \<Rightarrow> nat" where
  "listEntry offset nd = sub64 nd offset"

definition listAdd :: "nat \<Rightarrow> nat \<Rightarrow> nat \<Rightarrow> nodes \<Rightarrow> nodes" where
  "listAdd newp p n h = set_prev n newp (set_next p newp (set_prev newp p (set_next newp n h)))"

definition listAddHead :: "nat \<Rightarrow> nat \<Rightarrow> nodes \<Rightarrow> nodes" where
  "listAddHead head newp h = listAdd newp head (next_node (h head)) h"

definition listAddTail :: "nat \<Rightarrow> nat \<Rightarrow> nodes \<Rightarrow> nodes" where
  "listAddTail head newp h = listAdd newp (prev (h head)) head h"

definition listDelete :: "nat \<Rightarrow> nodes \<Rightarrow> bool \<times> nodes" where
  "listDelete entry h =
     (if next_node (h entry) = LIST_POISON1 \<and> prev (h entry) = LIST_POISON2 then (False, h)
      else
        let h1 = set_next (prev (h entry)) (next_node (h entry)) h;
            h2 = set_prev (next_node (h1 entry)) (prev (h1 entry)) h1
        in (True, set_prev entry LIST_POISON2 (set_next entry LIST_POISON1 h2)))"

section \<open>The list a store represents\<close>

fun chain :: "nodes \<Rightarrow> nat list \<Rightarrow> bool" where
  "chain h (x # y # zs) \<longleftrightarrow> next_node (h x) = y \<and> prev (h y) = x \<and> chain h (y # zs)"
| "chain h _ \<longleftrightarrow> True"

definition ring :: "nodes \<Rightarrow> nat \<Rightarrow> nat list \<Rightarrow> bool" where
  "ring h head xs \<longleftrightarrow> distinct (head # xs) \<and> chain h (head # xs @ [head])"

lemma link_simps [simp]:
  "next_node (set_next a v h b) = (if b = a then v else next_node (h b))"
  "prev (set_next a v h b) = prev (h b)"
  "prev (set_prev a v h b) = (if b = a then v else prev (h b))"
  "next_node (set_prev a v h b) = next_node (h b)"
  by (simp_all add: set_next_def set_prev_def)

lemma chain_append: "chain h (xs @ y # ys) \<longleftrightarrow> chain h (xs @ [y]) \<and> chain h (y # ys)"
  by (induction h xs rule: chain.induct) auto

lemma chain_cong:
  assumes "\<forall>a\<in>set (butlast xs). next_node (h' a) = next_node (h a)"
    "\<forall>a\<in>set (tl xs). prev (h' a) = prev (h a)"
  shows "chain h' xs = chain h xs"
  using assms by (induction h xs rule: chain.induct) (auto split: if_splits)

lemma ring_split:
  "ring h head (as @ bs) \<longleftrightarrow> distinct (head # as @ bs) \<and>
     chain h (head # as @ [hd (bs @ [head])]) \<and> chain h (bs @ [head])"
proof (cases bs)
  case (Cons b bs')
  then show ?thesis
    using chain_append [of h "head # as" b "bs' @ [head]"] by (auto simp: ring_def)
qed (auto simp: ring_def)

lemma chain_last: "chain h (xs @ [p, n]) \<longleftrightarrow> chain h (xs @ [p]) \<and> next_node (h p) = n \<and> prev (h n) = p"
  using chain_append [of h xs p "[n]"] by auto

text \<open>A node is put between the neighbours \<open>last (head # as)\<close> and \<open>hd (bs @ [head])\<close>.\<close>

lemma listAdd_ring:
  assumes r: "ring h head (as @ bs)" and new: "newp \<notin> set (head # as @ bs)"
  shows "ring (listAdd newp (last (head # as)) (hd (bs @ [head])) h) head (as @ newp # bs)"
proof -
  let ?p = "last (head # as)" and ?n = "hd (bs @ [head])"
  let ?h = "listAdd newp ?p ?n h"
  have d: "distinct (head # as @ bs)" and c1: "chain h (head # as @ [?n])" and c2: "chain h (bs @ [head])"
    using r ring_split by blast+
  have bl: "head # as = butlast (head # as) @ [?p]"
    by simp
  have "chain h (butlast (head # as) @ [?p, ?n])"
    using c1 bl by (metis append.assoc append_Cons append_Nil)
  then have c1': "chain h (head # as)"
    using bl by (metis chain_last)
  have pn: "?p \<noteq> newp" "?n \<noteq> newp"
    using new by (auto simp: hd_append)
  have e1: "chain ?h (head # as)"
  proof -
    have "?p \<notin> set (butlast (head # as))"
      using d by (metis bl distinct_append append_Cons disjoint_iff list.set_intros(1))
    moreover have "?n \<notin> set as"
      using d by (cases bs) auto
    ultimately show ?thesis
      using c1' new by (subst chain_cong [of _ _ h]) (auto simp: listAdd_def dest: in_set_butlastD split: if_splits)
  qed
  have e2: "chain ?h (bs @ [head])"
  proof -
    have "?p \<in> set (head # as)"
      by (rule last_in_set) simp
    then have "?p \<notin> set bs"
      using d by auto
    moreover have "?n \<notin> set (tl (bs @ [head]))" "newp \<notin> set (tl (bs @ [head]))"
      using d new by (cases bs; auto)+
    ultimately show ?thesis
      using c2 new by (subst chain_cong [of _ _ h])
        (auto simp: listAdd_def butlast_append dest: in_set_butlastD list.set_sel(2) split: if_splits)
  qed
  have e3: "chain ?h [?p, newp, ?n]"
    using pn by (simp add: listAdd_def)
  have "chain ?h (butlast (head # as) @ [?p, newp])"
    using e1 e3 bl by (metis chain_last chain.simps(1))
  then have "chain ?h ((head # as) @ [newp])"
    using bl by (metis append.assoc append_Cons append_Nil)
  moreover have "chain ?h (newp # bs @ [head])"
    using e2 e3 by (cases bs) auto
  ultimately have "chain ?h (head # as @ newp # bs @ [head])"
    using chain_append [of ?h "head # as" newp "bs @ [head]"] by simp
  then show ?thesis
    using d new by (auto simp: ring_def)
qed

lemma listDelete_ring:
  assumes r: "ring h head (as @ x # bs)" and np: "LIST_POISON1 \<notin> set (head # as @ x # bs)"
  shows "\<exists>h'. listDelete x h = (True, h') \<and> ring h' head (as @ bs) \<and>
           next_node (h' x) = LIST_POISON1 \<and> prev (h' x) = LIST_POISON2 \<and>
           (\<forall>y. y \<notin> set (head # as @ x # bs) \<longrightarrow> h' y = h y)"
proof -
  let ?p = "last (head # as)" and ?n = "hd (bs @ [head])"
  have d: "distinct (head # as @ x # bs)" and c: "chain h ((head # as) @ x # bs @ [head])"
    using r by (auto simp: ring_def)
  have c1: "chain h ((head # as) @ [x])" and c2: "chain h (x # bs @ [head])"
    using c chain_append by blast+
  have bl: "head # as = butlast (head # as) @ [?p]"
    by simp
  have "chain h (butlast (head # as) @ [?p, x])"
    using c1 bl by (metis append.assoc append_Cons append_Nil)
  then have px: "next_node (h ?p) = x" "prev (h x) = ?p" "chain h (head # as)"
    using bl by (metis chain_last)+
  have xn: "next_node (h x) = ?n" "prev (h ?n) = x" "chain h (bs @ [head])"
    using c2 by (cases bs; simp)+
  have ne: "?p \<noteq> x" "?n \<noteq> x"
    using d by (auto simp: hd_append)
  let ?h = "set_prev x LIST_POISON2 (set_next x LIST_POISON1 (set_prev ?n ?p (set_next ?p ?n h)))"
  have "?n \<in> set (head # as @ x # bs)"
    by (cases bs) auto
  then have del: "listDelete x h = (True, ?h)"
    using px xn ne np by (auto simp: listDelete_def Let_def)
  have e1: "chain ?h (head # as)"
  proof -
    have "?p \<notin> set (butlast (head # as))"
      using d by (metis bl distinct_append append_Cons disjoint_iff list.set_intros(1))
    moreover have "?n \<notin> set as"
      using d by (cases bs) auto
    ultimately show ?thesis
      using px(3) d by (subst chain_cong [of _ _ h]) (auto dest: in_set_butlastD split: if_splits)
  qed
  have e2: "chain ?h (bs @ [head])"
  proof -
    have "?p \<in> set (head # as)"
      by (rule last_in_set) simp
    then have "?p \<notin> set bs"
      using d by auto
    moreover have "?n \<notin> set (tl (bs @ [head]))" "x \<notin> set (tl (bs @ [head]))"
      using d by (cases bs; auto)+
    ultimately show ?thesis
      using xn(3) d by (subst chain_cong [of _ _ h])
        (auto simp: butlast_append dest: in_set_butlastD list.set_sel(2) split: if_splits)
  qed
  have "chain ?h [?p, ?n]"
    using ne by simp
  then have "chain ?h (butlast (head # as) @ [?p, ?n])"
    using e1 bl by (metis chain_last chain.simps(1))
  then have "chain ?h (head # as @ [?n])"
    using bl by (metis append.assoc append_Cons append_Nil)
  then have "ring ?h head (as @ bs)"
    using d e2 ring_split by auto
  moreover have "?h y = h y" if "y \<notin> set (head # as @ x # bs)" for y
    using that \<open>?n \<in> set (head # as @ x # bs)\<close> by (auto simp: set_next_def set_prev_def split: if_splits)
  ultimately show ?thesis
    using del by simp
qed

lemma LinkedList_ring: "ring (LinkedList head h) head []"
  by (simp add: ring_def LinkedList_def)

section \<open>Properties\<close>

lemma listAdd_frame: "y \<notin> {newp, p, n} \<Longrightarrow> listAdd newp p n h y = h y"
  by (simp add: listAdd_def set_next_def set_prev_def)

lemma ring_ends:
  assumes "ring h head xs"
  shows "next_node (h head) = hd (xs @ [head])" "prev (h head) = last (head # xs)"
proof -
  have c: "chain h (head # xs @ [head])"
    using assms by (simp add: ring_def)
  then show "next_node (h head) = hd (xs @ [head])"
    by (cases "xs @ [head]") auto
  have "head # xs = butlast (head # xs) @ [last (head # xs)]"
    by (rule append_butlast_last_id [symmetric]) simp
  then have "chain h (butlast (head # xs) @ [last (head # xs), head])"
    using c by (metis append.assoc append_Cons append_Nil)
  then show "prev (h head) = last (head # xs)"
    by (simp only: chain_last)
qed

lemma listAddHead_ring:
  assumes "ring h head xs" "newp \<notin> set (head # xs)"
  shows "ring (listAddHead head newp h) head (newp # xs)" "y \<notin> set (newp # head # xs) \<Longrightarrow> listAddHead head newp h y = h y"
proof -
  show "ring (listAddHead head newp h) head (newp # xs)"
    using listAdd_ring [of h head "[]" xs newp] assms ring_ends(1) [OF assms(1)] by (simp add: listAddHead_def)
  show "listAddHead head newp h y = h y" if "y \<notin> set (newp # head # xs)"
    using that ring_ends(1) [OF assms(1)] by (cases xs) (auto simp: listAddHead_def listAdd_frame)
qed

lemma listAddTail_ring:
  assumes "ring h head xs" "newp \<notin> set (head # xs)"
  shows "ring (listAddTail head newp h) head (xs @ [newp])" "y \<notin> set (newp # head # xs) \<Longrightarrow> listAddTail head newp h y = h y"
proof -
  show "ring (listAddTail head newp h) head (xs @ [newp])"
    using listAdd_ring [of h head xs "[]" newp] assms ring_ends(2) [OF assms(1)] by (simp add: listAddTail_def)
  have "last (head # xs) \<in> set (head # xs)"
    by (rule last_in_set) simp
  then show "listAddTail head newp h y = h y" if "y \<notin> set (newp # head # xs)"
    using that unfolding listAddTail_def ring_ends(2) [OF assms(1)] by (intro listAdd_frame) auto
qed

text \<open>
  C17. The list operations on the pointers are the operations on the sequence, which may be empty. The constructor gives
  the empty sequence; \<open>begin\<close> is the first node, or the end when there is none; \<open>listAddHead\<close> and \<open>listAddTail\<close> put a
  node in front and at the end; \<open>listDelete\<close> of any node of the list removes it and poisons it, so that
  deleting it a second time answers false and changes nothing. No operation touches a node outside the list.
\<close>

theorem list_ops_refine:
  assumes "ring h head xs" "newp \<notin> set (head # xs)" "LIST_POISON1 \<notin> set (head # xs)"
  shows "ring (LinkedList hd0 h0) hd0 [] \<and> list_begin head h = hd (xs @ [list_end head]) \<and>
         ring (listAddHead head newp h) head (newp # xs) \<and>
         ring (listAddTail head newp h) head (xs @ [newp]) \<and>
         (\<forall>y. y \<notin> set (newp # head # xs) \<longrightarrow> listAddHead head newp h y = h y \<and> listAddTail head newp h y = h y) \<and>
         (\<forall>as x bs. xs = as @ x # bs \<longrightarrow>
            (\<exists>h'. listDelete x h = (True, h') \<and> ring h' head (as @ bs) \<and> listDelete x h' = (False, h') \<and>
               (\<forall>y. y \<notin> set (head # xs) \<longrightarrow> h' y = h y)))"
proof -
  have "\<exists>h'. listDelete x h = (True, h') \<and> ring h' head (as @ bs) \<and> listDelete x h' = (False, h') \<and>
      (\<forall>y. y \<notin> set (head # xs) \<longrightarrow> h' y = h y)" if xs: "xs = as @ x # bs" for as x bs
  proof -
    obtain h' where "listDelete x h = (True, h')" "ring h' head (as @ bs)" "next_node (h' x) = LIST_POISON1"
        "prev (h' x) = LIST_POISON2" "\<forall>y. y \<notin> set (head # xs) \<longrightarrow> h' y = h y"
      using listDelete_ring [of h head as x bs] assms(1,3) xs by blast
    moreover from this have "listDelete x h' = (False, h')"
      by (simp add: listDelete_def)
    ultimately show ?thesis
      by blast
  qed
  then show ?thesis
    using LinkedList_ring listAddHead_ring [OF assms(1,2)] listAddTail_ring [OF assms(1,2)] ring_ends(1) [OF assms(1)]
    by (simp add: list_begin_def list_end_def)
qed

theorem list_ops_refine_witness:
  "\<exists>h h1 h2 h'. ring h 16 [] \<and> h1 = listAddHead 16 32 h \<and> ring h1 16 [32] \<and> h2 = listAddTail 16 48 h1 \<and> ring h2 16 [32, 48] \<and>
     listDelete 32 h2 = (True, h') \<and> ring h' 16 [48] \<and> listDelete 32 h' = (False, h')"
proof -
  define h where "h = LinkedList 16 (\<lambda>_. \<lparr>prev = 0, next_node = 0\<rparr>)"
  have r: "ring h 16 []"
    by (simp add: h_def LinkedList_ring)
  have r1: "ring (listAddHead 16 32 h) 16 [32]"
    using list_ops_refine [OF r, of 32] by (simp add: LIST_POISON1_def)
  have r2: "ring (listAddTail 16 48 (listAddHead 16 32 h)) 16 [32, 48]"
    using list_ops_refine [OF r1, of 48] by (simp add: LIST_POISON1_def)
  have "\<forall>as x bs. [32, 48] = as @ x # bs \<longrightarrow> (\<exists>h'. listDelete x (listAddTail 16 48 (listAddHead 16 32 h)) = (True, h') \<and>
      ring h' 16 (as @ bs) \<and> listDelete x h' = (False, h'))"
    using list_ops_refine [OF r2, of 64] by (simp add: LIST_POISON1_def) blast
  from this [rule_format, of "[]" 32 "[48]"]
  obtain h' where "listDelete 32 (listAddTail 16 48 (listAddHead 16 32 h)) = (True, h')" "ring h' 16 [48]" "listDelete 32 h' = (False, h')"
    by auto
  then show ?thesis
    using r r1 r2 by blast
qed

end
