(* ===== verification/Rbtree.thy ===== *)
theory Rbtree
  imports Prelude
begin

text \<open>
  The red-black tree of \<open>libOS/mm/rbtree.h\<close> and \<open>libOS/mm/rbtree.cpp\<close>.

  Nodes live in a store indexed by address, a null pointer is 0, and the sentinel is the node at the
  fixed address \<open>SENTINEL\<close>, whose links the constructor leaves unset. A node is embedded in an object
  whose key \<open>less_than\<close> compares; \<open>key_of\<close> gives the key of the object around a node. Reading or
  writing through a pointer to no node is a wild access. The loops follow pointers and may run forever
  on a store that is not a tree, so they are partial functions; \<open>None\<close> means that a loop does not end.
\<close>

section \<open>Nodes and trees\<close>

datatype color = RED | BLACK

record rbtree_node =
  node_color :: color
  left :: nat
  right :: nat
  parent :: nat

record malloc_rbtree =
  nodes :: "nat \<rightharpoonup> rbtree_node"
  tree_root :: nat
  key_of :: "nat \<Rightarrow> int"

definition SENTINEL :: nat where
  "SENTINEL = 1"

definition malloc_rbtree_base :: "rbtree_node \<Rightarrow> (nat \<rightharpoonup> rbtree_node) \<Rightarrow> (nat \<Rightarrow> int) \<Rightarrow> malloc_rbtree" where
  "malloc_rbtree_base junk heap keys =
     \<lparr>nodes = heap(SENTINEL \<mapsto> junk\<lparr>node_color := BLACK\<rparr>), tree_root = 0, key_of = keys\<rparr>"

definition not_null :: "nat \<Rightarrow> bool" where
  "not_null p \<longleftrightarrow> p \<noteq> SENTINEL \<and> p \<noteq> 0"

definition get_fld :: "(rbtree_node \<Rightarrow> 'v) \<Rightarrow> nat \<Rightarrow> malloc_rbtree \<Rightarrow> 'v result" where
  "get_fld f p t = (case nodes t p of None \<Rightarrow> Inl Wild | Some n \<Rightarrow> Inr (f n))"

definition set_fld :: "(rbtree_node \<Rightarrow> rbtree_node) \<Rightarrow> nat \<Rightarrow> malloc_rbtree \<Rightarrow> malloc_rbtree result" where
  "set_fld f p t = (case nodes t p of None \<Rightarrow> Inl Wild | Some n \<Rightarrow> Inr (t\<lparr>nodes := (nodes t)(p \<mapsto> f n)\<rparr>))"

definition set_left :: "nat \<Rightarrow> nat \<Rightarrow> malloc_rbtree \<Rightarrow> malloc_rbtree result" where
  "set_left this node t =
     rbind (set_fld (\<lambda>n. n\<lparr>left := node\<rparr>) this t) (\<lambda>t1.
       if node \<noteq> 0 then set_fld (\<lambda>n. n\<lparr>parent := this\<rparr>) node t1 else Inr t1)"

definition set_right :: "nat \<Rightarrow> nat \<Rightarrow> malloc_rbtree \<Rightarrow> malloc_rbtree result" where
  "set_right this node t =
     rbind (set_fld (\<lambda>n. n\<lparr>right := node\<rparr>) this t) (\<lambda>t1.
       if node \<noteq> 0 then set_fld (\<lambda>n. n\<lparr>parent := this\<rparr>) node t1 else Inr t1)"

text \<open>The three overloads of \<open>less_than\<close>; a node argument must not be null.\<close>

definition less_than :: "nat \<Rightarrow> nat \<Rightarrow> malloc_rbtree \<Rightarrow> bool result" where
  "less_than n1 n2 t = (if \<not> not_null n1 \<or> \<not> not_null n2 then Inl Ud2 else Inr (key_of t n1 < key_of t n2))"

definition less_than_key_node :: "int \<Rightarrow> nat \<Rightarrow> malloc_rbtree \<Rightarrow> bool result" where
  "less_than_key_node k node t = (if \<not> not_null node then Inl Ud2 else Inr (k < key_of t node))"

definition less_than_node_key :: "nat \<Rightarrow> int \<Rightarrow> malloc_rbtree \<Rightarrow> bool result" where
  "less_than_node_key node k t = (if \<not> not_null node then Inl Ud2 else Inr (key_of t node < k))"

section \<open>Insertion below a leaf\<close>

partial_function (option) descend :: "nat \<Rightarrow> nat \<Rightarrow> nat \<Rightarrow> malloc_rbtree \<Rightarrow> nat option result option" where
  "descend node cur p t =
     (if \<not> not_null cur then Some (Inr (Some p))
      else case less_than node cur t of
        Inl e \<Rightarrow> Some (Inl e)
      | Inr smaller \<Rightarrow>
          if smaller then (case get_fld left cur t of Inl e \<Rightarrow> Some (Inl e) | Inr c \<Rightarrow> descend node c cur t)
          else (case less_than cur node t of
                  Inl e \<Rightarrow> Some (Inl e)
                | Inr bigger \<Rightarrow>
                    if bigger then (case get_fld right cur t of Inl e \<Rightarrow> Some (Inl e) | Inr c \<Rightarrow> descend node c cur t)
                    else Some (Inr None)))"

definition attach :: "nat \<Rightarrow> nat \<Rightarrow> malloc_rbtree \<Rightarrow> malloc_rbtree result" where
  "attach node p t =
     rbind (set_fld (\<lambda>n. n\<lparr>parent := p\<rparr>) node t) (\<lambda>t1.
     rbind (if p = SENTINEL then Inr (t1\<lparr>tree_root := node\<rparr>)
            else rbind (less_than node p t1) (\<lambda>b.
              if b then set_fld (\<lambda>n. n\<lparr>left := node\<rparr>) p t1 else set_fld (\<lambda>n. n\<lparr>right := node\<rparr>) p t1)) (\<lambda>t2.
       set_fld (\<lambda>n. n\<lparr>left := SENTINEL, right := SENTINEL, node_color := RED\<rparr>) node t2))"

definition insert_bst :: "nat \<Rightarrow> malloc_rbtree \<Rightarrow> (bool \<times> malloc_rbtree) result option" where
  "insert_bst node t =
     lbind (descend node (tree_root t) SENTINEL t) (\<lambda>place.
       case place of
         None \<Rightarrow> Some (Inr (False, t))
       | Some p \<Rightarrow> Some (rbind (attach node p t) (\<lambda>t1. Inr (True, t1))))"

section \<open>Rotations\<close>

text \<open>The parent of \<open>p\<close>, or the root, now points to \<open>q\<close>.\<close>

definition replace_child :: "nat \<Rightarrow> nat \<Rightarrow> malloc_rbtree \<Rightarrow> malloc_rbtree result" where
  "replace_child p q t =
     rbind (get_fld parent p t) (\<lambda>pp.
       if not_null pp then
         rbind (get_fld left pp t) (\<lambda>l.
           if l = p then set_fld (\<lambda>n. n\<lparr>left := q\<rparr>) pp t
           else rbind (get_fld right pp t) (\<lambda>r. LIBOS_ASSERT (r = p) (set_fld (\<lambda>n. n\<lparr>right := q\<rparr>) pp t)))
       else Inr (t\<lparr>tree_root := q\<rparr>))"

definition rotation_left :: "nat \<Rightarrow> malloc_rbtree \<Rightarrow> malloc_rbtree result" where
  "rotation_left p t =
     LIBOS_ASSERT (not_null p)
       (rbind (get_fld right p t) (\<lambda>q. LIBOS_ASSERT (not_null q)
         (rbind (get_fld left q t) (\<lambda>b.
          rbind (set_fld (\<lambda>n. n\<lparr>right := b\<rparr>) p t) (\<lambda>t1.
          rbind (if not_null b then set_fld (\<lambda>n. n\<lparr>parent := p\<rparr>) b t1 else Inr t1) (\<lambda>t2.
          rbind (get_fld parent p t2) (\<lambda>pp.
          rbind (set_fld (\<lambda>n. n\<lparr>parent := pp\<rparr>) q t2) (\<lambda>t3.
          rbind (replace_child p q t3) (\<lambda>t4.
          rbind (set_fld (\<lambda>n. n\<lparr>left := p\<rparr>) q t4) (\<lambda>t5.
            set_fld (\<lambda>n. n\<lparr>parent := q\<rparr>) p t5))))))))))"

definition rotation_right :: "nat \<Rightarrow> malloc_rbtree \<Rightarrow> malloc_rbtree result" where
  "rotation_right q t =
     LIBOS_ASSERT (not_null q)
       (rbind (get_fld left q t) (\<lambda>p. LIBOS_ASSERT (not_null p)
         (rbind (get_fld right p t) (\<lambda>b.
          rbind (set_fld (\<lambda>n. n\<lparr>left := b\<rparr>) q t) (\<lambda>t1.
          rbind (if not_null b then set_fld (\<lambda>n. n\<lparr>parent := q\<rparr>) b t1 else Inr t1) (\<lambda>t2.
          rbind (get_fld parent q t2) (\<lambda>pp.
          rbind (set_fld (\<lambda>n. n\<lparr>parent := pp\<rparr>) p t2) (\<lambda>t3.
          rbind (replace_child q p t3) (\<lambda>t4.
          rbind (set_fld (\<lambda>n. n\<lparr>right := q\<rparr>) p t4) (\<lambda>t5.
            set_fld (\<lambda>n. n\<lparr>parent := p\<rparr>) q t5))))))))))"

section \<open>Insertion\<close>

definition set_color :: "color \<Rightarrow> nat \<Rightarrow> malloc_rbtree \<Rightarrow> malloc_rbtree result" where
  "set_color c = set_fld (\<lambda>n. n\<lparr>node_color := c\<rparr>)"

definition grandparent :: "nat \<Rightarrow> malloc_rbtree \<Rightarrow> nat result" where
  "grandparent cur t = rbind (get_fld parent cur t) (\<lambda>p. get_fld parent p t)"

text \<open>Case 1 on either side: recolour the parent, the uncle and the grandparent and go up.\<close>

definition insert_recolor :: "nat \<Rightarrow> nat \<Rightarrow> malloc_rbtree \<Rightarrow> (nat \<times> malloc_rbtree) result" where
  "insert_recolor cur uncle t =
     rbind (grandparent cur t) (\<lambda>g.
     rbind (set_color RED g t) (\<lambda>t1.
     rbind (get_fld parent cur t1) (\<lambda>p.
     rbind (set_color BLACK p t1) (\<lambda>t2.
     rbind (set_color BLACK uncle t2) (\<lambda>t3.
     rbind (grandparent cur t3) (\<lambda>g'. Inr (g', t3)))))))"

text \<open>Case 3 on either side: colours, then the rotation \<open>rot\<close> of the grandparent.\<close>

definition insert_case3 ::
  "(nat \<Rightarrow> malloc_rbtree \<Rightarrow> malloc_rbtree result) \<Rightarrow> nat \<Rightarrow> malloc_rbtree \<Rightarrow> (nat \<times> malloc_rbtree) result" where
  "insert_case3 rot cur t =
     rbind (get_fld parent cur t) (\<lambda>p.
     rbind (set_color BLACK p t) (\<lambda>t1.
     rbind (grandparent cur t1) (\<lambda>g.
     rbind (set_color RED g t1) (\<lambda>t2.
     rbind (grandparent cur t2) (\<lambda>g'.
     rbind (rot g' t2) (\<lambda>t3. Inr (cur, t3)))))))"

text \<open>One pass of the loop; \<open>None\<close> when its condition fails.\<close>

definition insert_step :: "nat \<Rightarrow> malloc_rbtree \<Rightarrow> (nat \<times> malloc_rbtree) option result" where
  "insert_step cur t =
     rbind (get_fld parent cur t) (\<lambda>p.
     rbind (get_fld node_color p t) (\<lambda>c.
       if c \<noteq> RED then Inr None
       else rbind (get_fld parent p t) (\<lambda>g.
            rbind (get_fld left g t) (\<lambda>gl.
              if p = gl then
                rbind (get_fld right g t) (\<lambda>uncle.
                rbind (get_fld node_color uncle t) (\<lambda>uc.
                  if uc = RED then rbind (insert_recolor cur uncle t) (\<lambda>r. Inr (Some r))
                  else
                    rbind (get_fld right p t) (\<lambda>pr.
                    rbind (if cur = pr then rbind (rotation_left p t) (\<lambda>t1. Inr (p, t1)) else Inr (cur, t))
                      (\<lambda>(cur1, t1). rbind (insert_case3 rotation_right cur1 t1) (\<lambda>r. Inr (Some r))))))
              else
                rbind (get_fld right g t) (\<lambda>gr. LIBOS_ASSERT (p = gr)
                (rbind (get_fld node_color gl t) (\<lambda>uc.
                  if uc = RED then rbind (insert_recolor cur gl t) (\<lambda>r. Inr (Some r))
                  else
                    rbind (if cur = gl then rbind (rotation_right p t) (\<lambda>t1. Inr (p, t1)) else Inr (cur, t))
                      (\<lambda>(cur1, t1). rbind (insert_case3 rotation_left cur1 t1) (\<lambda>r. Inr (Some r))))))))))"

partial_function (option) insert_fixup :: "nat \<Rightarrow> malloc_rbtree \<Rightarrow> malloc_rbtree result option" where
  "insert_fixup cur t =
     (case insert_step cur t of
        Inl e \<Rightarrow> Some (Inl e)
      | Inr None \<Rightarrow> Some (Inr t)
      | Inr (Some (cur', t')) \<Rightarrow> insert_fixup cur' t')"

definition insert_node :: "nat \<Rightarrow> malloc_rbtree \<Rightarrow> (bool \<times> malloc_rbtree) result option" where
  "insert_node node t =
     lbind (Some (set_fld (\<lambda>n. n\<lparr>parent := SENTINEL, left := SENTINEL, right := SENTINEL\<rparr>) node t)) (\<lambda>t1.
     lbind (insert_bst node t1) (\<lambda>(ok, t2).
       if \<not> ok then Some (Inr (False, t2))
       else lbind (insert_fixup node t2) (\<lambda>t3.
            Some (rbind (set_color BLACK (tree_root t3) t3) (\<lambda>t4. Inr (True, t4))))))"

section \<open>Search and iteration\<close>

partial_function (option) lookup_loop :: "int \<Rightarrow> nat \<Rightarrow> malloc_rbtree \<Rightarrow> nat result option" where
  "lookup_loop k cur t =
     (if \<not> not_null cur then Some (Inr 0)
      else case less_than_key_node k cur t of
        Inl e \<Rightarrow> Some (Inl e)
      | Inr smaller \<Rightarrow>
          if smaller then
            (case get_fld left cur t of
               Inl e \<Rightarrow> Some (Inl e)
             | Inr l \<Rightarrow> if l \<noteq> 0 then lookup_loop k l t else Some (Inr 0))
          else
            (case less_than_node_key cur k t of
               Inl e \<Rightarrow> Some (Inl e)
             | Inr bigger \<Rightarrow>
                 if \<not> bigger then Some (Inr cur)
                 else (case get_fld right cur t of
                         Inl e \<Rightarrow> Some (Inl e)
                       | Inr r \<Rightarrow> if r \<noteq> 0 then lookup_loop k r t else Some (Inr cur))))"

definition lookup_node :: "int \<Rightarrow> malloc_rbtree \<Rightarrow> nat result option" where
  "lookup_node k t = lookup_loop k (tree_root t) t"

partial_function (option) leftmost :: "nat \<Rightarrow> malloc_rbtree \<Rightarrow> nat result option" where
  "leftmost cur t =
     (case get_fld left cur t of
        Inl e \<Rightarrow> Some (Inl e)
      | Inr l \<Rightarrow> if not_null l then leftmost l t else Some (Inr cur))"

definition begin_node :: "nat \<Rightarrow> malloc_rbtree \<Rightarrow> nat result option" where
  "begin_node start t = (if \<not> not_null start then Some (Inr 0) else leftmost start t)"

partial_function (option) climb :: "nat \<Rightarrow> malloc_rbtree \<Rightarrow> nat result option" where
  "climb node t =
     (case get_fld parent node t of
        Inl e \<Rightarrow> Some (Inl e)
      | Inr p \<Rightarrow>
          if \<not> not_null p then Some (Inr 0)
          else (case get_fld left p t of
                  Inl e \<Rightarrow> Some (Inl e)
                | Inr l \<Rightarrow> if node = l then Some (Inr p) else climb p t))"

definition next_node :: "nat \<Rightarrow> malloc_rbtree \<Rightarrow> nat result option" where
  "next_node node t =
     (if node = 0 then Some (Inl Ud2)
      else case get_fld right node t of
        Inl e \<Rightarrow> Some (Inl e)
      | Inr r \<Rightarrow> if not_null r then begin_node r t else climb node t)"

text \<open>The debugging check, on a tree of bounded depth.\<close>

primrec verify_tree :: "nat \<Rightarrow> nat \<Rightarrow> malloc_rbtree \<Rightarrow> unit result option" where
  "verify_tree 0 node t = None"
| "verify_tree (Suc n) node t =
     (if \<not> not_null node then Some (Inr ())
      else case get_fld (\<lambda>x. (left x, right x)) node t of
        Inl e \<Rightarrow> Some (Inl e)
      | Inr (l, r) \<Rightarrow>
          (let side = (\<lambda>c. if not_null c then
                 (case get_fld parent c t of
                    Inl e \<Rightarrow> Some (Inl e)
                  | Inr p \<Rightarrow> if p = node \<and> l \<noteq> r then verify_tree n c t else Some (Inl Ud2))
               else Some (Inr ()))
           in case side l of
                None \<Rightarrow> None
              | Some (Inl e) \<Rightarrow> Some (Inl e)
              | Some (Inr _) \<Rightarrow> side r))"

section \<open>Removal\<close>

definition transplant :: "nat \<Rightarrow> nat \<Rightarrow> malloc_rbtree \<Rightarrow> malloc_rbtree result" where
  "transplant u v t =
     rbind (get_fld parent u t) (\<lambda>p.
     rbind (if \<not> not_null p then Inr (t\<lparr>tree_root := v\<rparr>)
            else rbind (get_fld left p t) (\<lambda>l.
              if u = l then set_fld (\<lambda>n. n\<lparr>left := v\<rparr>) p t else set_fld (\<lambda>n. n\<lparr>right := v\<rparr>) p t)) (\<lambda>t1.
     rbind (get_fld parent u t1) (\<lambda>p1. set_fld (\<lambda>n. n\<lparr>parent := p1\<rparr>) v t1)))"

text \<open>
  The two halves of the loop of \<open>delete_fixup\<close> are mirror images: \<open>near\<close> and \<open>far\<close> select the child
  on the side of \<open>x\<close> and on the other side, \<open>rot\<close> rotates towards \<open>x\<close> and \<open>rot'\<close> away from it.
  The conjunction of the source evaluates \<open>first\<close> before \<open>second\<close>: the left child of \<open>w\<close> and then the
  right one, or the other way round.
\<close>

definition delete_case1 ::
  "(rbtree_node \<Rightarrow> nat) \<Rightarrow> (nat \<Rightarrow> malloc_rbtree \<Rightarrow> malloc_rbtree result) \<Rightarrow> nat \<Rightarrow> malloc_rbtree \<Rightarrow>
   (nat \<times> malloc_rbtree) result" where
  "delete_case1 far rot x t =
     rbind (get_fld parent x t) (\<lambda>p.
     rbind (get_fld far p t) (\<lambda>w.
     rbind (get_fld node_color w t) (\<lambda>c.
       if c = RED then
         rbind (set_color BLACK w t) (\<lambda>t1.
         rbind (get_fld parent x t1) (\<lambda>p1.
         rbind (set_color RED p1 t1) (\<lambda>t2.
         rbind (get_fld parent x t2) (\<lambda>p2.
         rbind (rot p2 t2) (\<lambda>t3.
         rbind (get_fld parent x t3) (\<lambda>p3.
         rbind (get_fld far p3 t3) (\<lambda>w'. Inr (w', t3))))))))
       else Inr (w, t))))"

definition child_black :: "(rbtree_node \<Rightarrow> nat) \<Rightarrow> nat \<Rightarrow> malloc_rbtree \<Rightarrow> bool result" where
  "child_black side w t = rbind (get_fld side w t) (\<lambda>c. rbind (get_fld node_color c t) (\<lambda>k. Inr (k = BLACK)))"

definition delete_case34 ::
  "(rbtree_node \<Rightarrow> nat) \<Rightarrow> (rbtree_node \<Rightarrow> nat) \<Rightarrow> (nat \<Rightarrow> malloc_rbtree \<Rightarrow> malloc_rbtree result) \<Rightarrow>
   (nat \<Rightarrow> malloc_rbtree \<Rightarrow> malloc_rbtree result) \<Rightarrow> nat \<Rightarrow> nat \<Rightarrow> malloc_rbtree \<Rightarrow> malloc_rbtree result" where
  "delete_case34 near far rot rot' x w t =
     rbind (child_black far w t) (\<lambda>fb.
     rbind (if fb then
              rbind (get_fld near w t) (\<lambda>wn.
              rbind (set_color BLACK wn t) (\<lambda>t1.
              rbind (set_color RED w t1) (\<lambda>t2.
              rbind (rot' w t2) (\<lambda>t3.
              rbind (get_fld parent x t3) (\<lambda>p.
              rbind (get_fld far p t3) (\<lambda>w'. Inr (w', t3)))))))
            else Inr (w, t)) (\<lambda>(w1, t1).
     rbind (get_fld parent x t1) (\<lambda>p.
     rbind (get_fld node_color p t1) (\<lambda>c.
     rbind (set_color c w1 t1) (\<lambda>t2.
     rbind (set_color BLACK p t2) (\<lambda>t3.
     rbind (get_fld far w1 t3) (\<lambda>wf.
     rbind (set_color BLACK wf t3) (\<lambda>t4.
     rbind (get_fld parent x t4) (\<lambda>p'. rot p' t4)))))))))"

definition delete_side ::
  "(rbtree_node \<Rightarrow> nat) \<Rightarrow> (rbtree_node \<Rightarrow> nat) \<Rightarrow> (nat \<Rightarrow> malloc_rbtree \<Rightarrow> malloc_rbtree result) \<Rightarrow>
   (nat \<Rightarrow> malloc_rbtree \<Rightarrow> malloc_rbtree result) \<Rightarrow> nat \<Rightarrow> malloc_rbtree \<Rightarrow> (nat \<times> malloc_rbtree) result" where
  "delete_side near far rot rot' x t =
     rbind (delete_case1 far rot x t) (\<lambda>(w, t1).
     rbind (child_black near w t1) (\<lambda>nb.
     rbind (if nb then child_black far w t1 else Inr False) (\<lambda>bb.
       if bb then rbind (set_color RED w t1) (\<lambda>t2. rbind (get_fld parent x t2) (\<lambda>p. Inr (p, t2)))
       else rbind (delete_case34 near far rot rot' x w t1) (\<lambda>t2. Inr (tree_root t2, t2)))))"

partial_function (option) delete_fixup_loop :: "nat \<Rightarrow> malloc_rbtree \<Rightarrow> (nat \<times> malloc_rbtree) result option" where
  "delete_fixup_loop x t =
     (case rbind (get_fld node_color x t) (\<lambda>c.
             if x = tree_root t \<or> c \<noteq> BLACK then Inr None
             else rbind (get_fld parent x t) (\<lambda>p. rbind (get_fld left p t) (\<lambda>l.
                    rbind (if x = l then delete_side left right rotation_left rotation_right x t
                           else delete_side right left rotation_right rotation_left x t) (\<lambda>r. Inr (Some r)))))
      of Inl e \<Rightarrow> Some (Inl e)
       | Inr None \<Rightarrow> Some (Inr (x, t))
       | Inr (Some (x', t')) \<Rightarrow> delete_fixup_loop x' t')"

definition delete_fixup :: "nat \<Rightarrow> malloc_rbtree \<Rightarrow> malloc_rbtree result option" where
  "delete_fixup x t = lbind (delete_fixup_loop x t) (\<lambda>(x', t'). Some (set_color BLACK x' t'))"

text \<open>The case of two children: \<open>y\<close>, the successor of \<open>z\<close>, takes its place.\<close>

definition erase_splice :: "nat \<Rightarrow> nat \<Rightarrow> malloc_rbtree \<Rightarrow> (nat \<times> malloc_rbtree) result" where
  "erase_splice z y t =
     rbind (get_fld right y t) (\<lambda>x.
     rbind (get_fld parent y t) (\<lambda>yp.
     rbind (if yp = z then set_fld (\<lambda>n. n\<lparr>parent := y\<rparr>) x t
            else rbind (transplant y x t) (\<lambda>t1.
                 rbind (get_fld right z t1) (\<lambda>zr.
                 rbind (set_fld (\<lambda>n. n\<lparr>right := zr\<rparr>) y t1) (\<lambda>t2. set_fld (\<lambda>n. n\<lparr>parent := y\<rparr>) zr t2)))) (\<lambda>t3.
     rbind (transplant z y t3) (\<lambda>t4.
     rbind (get_fld left z t4) (\<lambda>zl.
     rbind (set_fld (\<lambda>n. n\<lparr>left := zl\<rparr>) y t4) (\<lambda>t5.
     rbind (set_fld (\<lambda>n. n\<lparr>parent := y\<rparr>) zl t5) (\<lambda>t6.
     rbind (get_fld node_color z t6) (\<lambda>c.
     rbind (set_color c y t6) (\<lambda>t7. Inr (x, t7))))))))))"

definition erase_unlink :: "nat \<Rightarrow> malloc_rbtree \<Rightarrow> (color \<times> nat \<times> malloc_rbtree) result option" where
  "erase_unlink z t =
     lbind (Some (get_fld (\<lambda>n. (node_color n, left n, right n)) z t)) (\<lambda>(c, l, r).
       if \<not> not_null l then Some (rbind (transplant z r t) (\<lambda>t1. Inr (c, r, t1)))
       else if \<not> not_null r then Some (rbind (transplant z l t) (\<lambda>t1. Inr (c, l, t1)))
       else lbind (begin_node r t) (\<lambda>y.
              Some (rbind (erase_splice z y t) (\<lambda>(x, t1). Inr (c, x, t1)))))"

definition erase_node :: "nat \<Rightarrow> malloc_rbtree \<Rightarrow> (nat \<times> malloc_rbtree) result option" where
  "erase_node z t =
     lbind (next_node z t) (\<lambda>ret.
     lbind (erase_unlink z t) (\<lambda>(c, x, t1).
       if c = BLACK then lbind (delete_fixup x t1) (\<lambda>t2. Some (Inr (ret, t2)))
       else Some (Inr (ret, t1))))"

section \<open>The interface on objects\<close>

text \<open>The node of an object lies \<open>hook\<close> bytes behind its start.\<close>

definition container_of :: "nat \<Rightarrow> nat \<Rightarrow> nat" where
  "container_of hook node = sub64 node hook"

definition object_or_null :: "nat \<Rightarrow> nat \<Rightarrow> nat" where
  "object_or_null hook node = (if node = 0 then 0 else container_of hook node)"

definition insert_object :: "nat \<Rightarrow> nat \<Rightarrow> malloc_rbtree \<Rightarrow> (bool \<times> malloc_rbtree) result option" where
  "insert_object hook obj t = insert_node (add64 obj hook) t"

definition next_object :: "nat \<Rightarrow> nat \<Rightarrow> malloc_rbtree \<Rightarrow> nat result option" where
  "next_object hook obj t =
     (if obj = 0 then Some (Inl Ud2)
      else lbind (next_node (add64 obj hook) t) (\<lambda>n. Some (Inr (object_or_null hook n))))"

definition begin_object :: "nat \<Rightarrow> malloc_rbtree \<Rightarrow> nat result option" where
  "begin_object hook t = lbind (begin_node (tree_root t) t) (\<lambda>n. Some (Inr (object_or_null hook n)))"

definition erase_object :: "nat \<Rightarrow> nat \<Rightarrow> malloc_rbtree \<Rightarrow> (nat \<times> malloc_rbtree) result option" where
  "erase_object hook obj t =
     lbind (erase_node (add64 obj hook) t) (\<lambda>(n, t1). Some (Inr (object_or_null hook n, t1)))"

definition lookup_object :: "nat \<Rightarrow> int \<Rightarrow> malloc_rbtree \<Rightarrow> nat result option" where
  "lookup_object hook v t = lbind (lookup_node v t) (\<lambda>n. Some (Inr (object_or_null hook n)))"

section \<open>The trees a store represents\<close>

datatype rb = Lf | Nd rb color nat rb

primrec inorder :: "rb \<Rightarrow> nat list" where
  "inorder Lf = []"
| "inorder (Nd l c a r) = inorder l @ a # inorder r"

primrec tr :: "(nat \<rightharpoonup> rbtree_node) \<Rightarrow> nat \<Rightarrow> nat \<Rightarrow> rb \<Rightarrow> bool" where
  "tr N par p Lf \<longleftrightarrow> p = SENTINEL"
| "tr N par p (Nd l c a r) \<longleftrightarrow> p = a \<and> not_null a \<and>
     (\<exists>n. N a = Some n \<and> node_color n = c \<and> parent n = par \<and> tr N a (left n) l \<and> tr N a (right n) r)"

text \<open>A path from a subtree to the root: each step names the colour and address of the parent and the sibling.\<close>

datatype frame = InL color nat rb | InR rb color nat

primrec fcolor :: "frame \<Rightarrow> color" where
  "fcolor (InL c a r) = c"
| "fcolor (InR l c a) = c"

primrec faddrs :: "frame \<Rightarrow> nat list" where
  "faddrs (InL c a r) = a # inorder r"
| "faddrs (InR l c a) = inorder l @ [a]"

primrec fill :: "rb \<Rightarrow> frame \<Rightarrow> rb" where
  "fill x (InL c a r) = Nd x c a r"
| "fill x (InR l c a) = Nd l c a x"

primrec plug :: "rb \<Rightarrow> frame list \<Rightarrow> rb" where
  "plug x [] = x"
| "plug x (f # fs) = plug (fill x f) fs" for x

fun ctx :: "(nat \<rightharpoonup> rbtree_node) \<Rightarrow> nat \<Rightarrow> nat \<Rightarrow> nat \<Rightarrow> frame list \<Rightarrow> bool" where
  "ctx N rt p par [] \<longleftrightarrow> rt = p \<and> par = SENTINEL"
| "ctx N rt p par (InL c a r # fs) \<longleftrightarrow> par = a \<and> not_null a \<and>
     (\<exists>n. N a = Some n \<and> node_color n = c \<and> left n = p \<and> tr N a (right n) r \<and> ctx N rt a (parent n) fs)"
| "ctx N rt p par (InR l c a # fs) \<longleftrightarrow> par = a \<and> not_null a \<and>
     (\<exists>n. N a = Some n \<and> node_color n = c \<and> right n = p \<and> tr N a (left n) l \<and> ctx N rt a (parent n) fs)"

definition caddrs :: "frame list \<Rightarrow> nat list" where
  "caddrs fs = concat (map faddrs fs)"

lemma caddrs_simps [simp]: "caddrs [] = []" "caddrs (f # fs) = faddrs f @ caddrs fs"
  by (simp_all add: caddrs_def)

lemma tr_upd [simp]: "a \<notin> set (inorder T) \<Longrightarrow> tr (N(a \<mapsto> n)) par p T = tr N par p T"
  by (induction T arbitrary: par p) auto

lemma ctx_upd [simp]: "a \<notin> set (caddrs fs) \<Longrightarrow> ctx (N(a \<mapsto> n)) rt p par fs = ctx N rt p par fs"
  by (induction N rt p par fs rule: ctx.induct) auto

lemma tr_not_at [simp]: "p \<notin> set (inorder T) \<Longrightarrow> not_null p \<Longrightarrow> \<not> tr N par p T"
  by (cases T) (auto simp: not_null_def)

lemma tr_not_null: "tr N par p T \<Longrightarrow> a \<in> set (inorder T) \<Longrightarrow> not_null a"
  by (induction T arbitrary: par p) auto

lemma ctx_not_null: "ctx N rt p par fs \<Longrightarrow> a \<in> set (caddrs fs) \<Longrightarrow> not_null a"
  by (induction N rt p par fs rule: ctx.induct) (auto dest: tr_not_null)

lemma tr_plug: "tr N SENTINEL rt (plug T fs) \<longleftrightarrow> (\<exists>p par. ctx N rt p par fs \<and> tr N par p T)"
proof (induction fs arbitrary: T)
  case (Cons f fs)
  show ?case
    by (cases f) (auto simp: Cons.IH)
qed simp

lemma inorder_plug:
  "set (inorder (plug T fs)) = set (inorder T) \<union> set (caddrs fs)"
  "distinct (inorder (plug T fs)) \<longleftrightarrow> distinct (inorder T @ caddrs fs)"
proof (induction fs arbitrary: T)
  case (Cons f fs)
  {
    case 1
    show ?case
      by (cases f) (auto simp: Cons.IH)
  next
    case 2
    show ?case
      by (cases f) (auto simp: Cons.IH)
  }
qed simp_all

lemma frames_cases [case_names Nil InL InR]:
  obtains "fs = []" | c a r gs where "fs = InL c a r # gs" | l c a gs where "fs = InR l c a # gs"
  by (metis frame.exhaust neq_Nil_conv)

lemma inorder_plug_cong: "inorder S = inorder T \<Longrightarrow> inorder (plug S fs) = inorder (plug T fs)"
proof (induction fs arbitrary: S T)
  case (Cons f fs)
  show ?case
    using Cons.prems by (cases f) (simp_all add: Cons.IH)
qed simp

lemma not_null_simps [simp]: "\<not> not_null SENTINEL" "\<not> not_null 0" "not_null a \<Longrightarrow> a \<noteq> SENTINEL" "not_null a \<Longrightarrow> SENTINEL \<noteq> a"
    "not_null a \<Longrightarrow> a \<noteq> 0"
  by (auto simp: not_null_def)

lemma tr_reparent:
  "tr N par b B \<Longrightarrow> B \<noteq> Lf \<Longrightarrow> distinct (inorder B) \<Longrightarrow> N b = Some n \<Longrightarrow> tr (N(b \<mapsto> n\<lparr>parent := p\<rparr>)) p b B"
  by (cases B) auto

lemma get_fld_Some [simp]: "nodes t p = Some n \<Longrightarrow> get_fld f p t = Inr (f n)"
  by (simp add: get_fld_def)

lemma set_fld_Some [simp]: "nodes t p = Some n \<Longrightarrow> set_fld f p t = Inr (t\<lparr>nodes := (nodes t)(p \<mapsto> f n)\<rparr>)"
  by (simp add: set_fld_def)

lemma LIBOS_ASSERT_True [simp]: "b \<Longrightarrow> LIBOS_ASSERT b k = k"
  by (simp add: LIBOS_ASSERT_def)

text \<open>A focus: a subtree at \<open>p\<close> and the path above it.\<close>

definition foc :: "malloc_rbtree \<Rightarrow> nat \<Rightarrow> rb \<Rightarrow> frame list \<Rightarrow> bool" where
  "foc t p T fs \<longleftrightarrow> (\<exists>par. ctx (nodes t) (tree_root t) p par fs \<and> tr (nodes t) par p T) \<and>
     distinct (inorder T @ caddrs fs)"

definition same_sent :: "malloc_rbtree \<Rightarrow> malloc_rbtree \<Rightarrow> bool" where
  "same_sent t t' \<longleftrightarrow> nodes t' SENTINEL = nodes t SENTINEL \<and> key_of t' = key_of t \<and> dom (nodes t') = dom (nodes t)"

lemma tr_cong: "(\<And>a. a \<in> set (inorder T) \<Longrightarrow> N' a = N a) \<Longrightarrow> tr N' par p T = tr N par p T"
  by (induction T arbitrary: par p) auto

lemma ctx_cong: "(\<And>a. a \<in> set (caddrs fs) \<Longrightarrow> N' a = N a) \<Longrightarrow> ctx N' rt p par fs = ctx N rt p par fs"
proof (induction N rt p par fs rule: ctx.induct)
  case (2 N rt p par c a r fs)
  then show ?case
    using tr_cong [of r N' N] by auto
next
  case (3 N rt p par l c a fs)
  then show ?case
    using tr_cong [of l N' N] by auto
qed simp

lemma replace_child_ctx:
  assumes c: "ctx (nodes t) (tree_root t) p (parent np) fs" and p: "nodes t p = Some np" "not_null p"
    and d: "p \<notin> set (caddrs fs)" "distinct (caddrs fs)"
  shows "\<exists>t'. replace_child p q t = Inr t' \<and> ctx (nodes t') (tree_root t') q (parent np) fs \<and>
           (\<forall>a. a \<notin> set (caddrs fs) \<longrightarrow> nodes t' a = nodes t a) \<and> same_sent t t'"
proof (cases fs rule: frames_cases)
  case Nil
  then show ?thesis
    using c p by (simp add: replace_child_def same_sent_def)
next
  case (InL c a r gs)
  then obtain n where "parent np = a" "not_null a" "nodes t a = Some n" "left n = p"
    "tr (nodes t) a (right n) r" "ctx (nodes t) (tree_root t) a (parent n) gs" "node_color n = c"
    using assms by auto
  then show ?thesis
    using p d by (simp add: replace_child_def same_sent_def insert_absorb domI InL)
next
  case (InR l c a gs)
  then obtain n where n: "parent np = a" "not_null a" "nodes t a = Some n" "right n = p"
    "tr (nodes t) a (left n) l" "ctx (nodes t) (tree_root t) a (parent n) gs" "node_color n = c"
    using assms by auto
  then have "left n \<noteq> p"
    using p(2) d InR by auto
  then show ?thesis
    using n p d by (simp add: replace_child_def same_sent_def insert_absorb domI InR)
qed

text \<open>What the end of a rotation stores: \<open>q\<close> in the place of \<open>p\<close>, and the middle subtree at \<open>b\<close> under \<open>p\<close>.\<close>

lemma reparent_ok:
  assumes "tr (nodes t) par b B" "distinct (inorder B)"
  shows "\<exists>t'. (if not_null b then set_fld (\<lambda>n. n\<lparr>parent := p\<rparr>) b t else Inr t) = Inr t' \<and> tr (nodes t') p b B \<and>
           (\<forall>a. a \<notin> set (inorder B) \<longrightarrow> nodes t' a = nodes t a) \<and> tree_root t' = tree_root t \<and>
           key_of t' = key_of t \<and> dom (nodes t') = dom (nodes t)"
  using assms by (cases B) (auto simp: insert_absorb domI)

text \<open>The disjointness of the parts of a tree that is rotated.\<close>

lemma rot_disjoint:
  assumes "distinct (inorder A @ p # inorder B @ q # inorder C @ caddrs fs)"
  shows "p \<noteq> q" "q \<noteq> p" "p \<notin> set (inorder A)" "p \<notin> set (inorder B)" "p \<notin> set (inorder C)" "p \<notin> set (caddrs fs)"
    "q \<notin> set (inorder A)" "q \<notin> set (inorder B)" "q \<notin> set (inorder C)" "q \<notin> set (caddrs fs)"
    "distinct (inorder B)" "distinct (caddrs fs)"
    "\<And>a. a \<in> set (inorder A) \<Longrightarrow> a \<notin> set (inorder B) \<and> a \<notin> set (caddrs fs) \<and> a \<noteq> p \<and> a \<noteq> q"
    "\<And>a. a \<in> set (inorder C) \<Longrightarrow> a \<notin> set (inorder B) \<and> a \<notin> set (caddrs fs) \<and> a \<noteq> p \<and> a \<noteq> q"
    "\<And>a. a \<in> set (inorder B) \<Longrightarrow> a \<notin> set (caddrs fs) \<and> a \<noteq> p \<and> a \<noteq> q"
    "\<And>a. a \<in> set (caddrs fs) \<Longrightarrow> a \<notin> set (inorder B) \<and> a \<noteq> p \<and> a \<noteq> q"
  using assms by auto

lemma rotation_left_foc:
  assumes "foc t p (Nd A c p (Nd B d q C)) fs"
  shows "\<exists>t'. rotation_left p t = Inr t' \<and> foc t' q (Nd (Nd A c p B) d q C) fs \<and> same_sent t t'"
proof -
  obtain par np nq where c: "ctx (nodes t) (tree_root t) p par fs" and
    n: "nodes t p = Some np" "node_color np = c" "parent np = par" "right np = q" "not_null p"
      "nodes t q = Some nq" "node_color nq = d" "parent nq = p" "not_null q"
    and s: "tr (nodes t) p (left np) A" "tr (nodes t) q (left nq) B" "tr (nodes t) q (right nq) C"
    and d: "distinct (inorder A @ p # inorder B @ q # inorder C @ caddrs fs)"
    using assms unfolding foc_def by auto
  note dis = rot_disjoint [OF d]
  let ?b = "left nq" and ?np = "np\<lparr>right := left nq\<rparr>"
  let ?t1 = "t\<lparr>nodes := (nodes t)(p \<mapsto> ?np)\<rparr>"
  have "tr (nodes ?t1) q ?b B"
    using s(2) dis by simp
  from reparent_ok [OF this dis(11), of p] obtain t2 where
    t2: "(if not_null ?b then set_fld (\<lambda>n. n\<lparr>parent := p\<rparr>) ?b ?t1 else Inr ?t1) = Inr t2"
      "tr (nodes t2) p ?b B" "\<And>a. a \<notin> set (inorder B) \<Longrightarrow> nodes t2 a = nodes ?t1 a" "tree_root t2 = tree_root ?t1"
      "key_of t2 = key_of ?t1" "dom (nodes t2) = dom (nodes ?t1)"
    by blast
  have p2: "nodes t2 p = Some ?np" "nodes t2 q = Some nq"
    using t2(3) [of p] t2(3) [of q] dis(1-10) n by simp_all
  let ?t3 = "t2\<lparr>nodes := (nodes t2)(q \<mapsto> nq\<lparr>parent := par\<rparr>)\<rparr>"
  have "ctx (nodes t2) (tree_root t2) p par fs"
    using t2(3,4) dis(16) c ctx_cong [of fs "nodes t2" "nodes t"] by simp
  then have "ctx (nodes ?t3) (tree_root ?t3) p (parent ?np) fs" "nodes ?t3 p = Some ?np"
    using n dis(1-10) p2 by simp_all
  from replace_child_ctx [OF this n(5) dis(6,12), of q] obtain t4 where
    t4: "replace_child p q ?t3 = Inr t4" "ctx (nodes t4) (tree_root t4) q (parent ?np) fs"
      "\<And>a. a \<notin> set (caddrs fs) \<Longrightarrow> nodes t4 a = nodes ?t3 a" "same_sent ?t3 t4"
    by blast
  let ?N = "(nodes t4)(q \<mapsto> nq\<lparr>parent := par, left := p\<rparr>, p \<mapsto> ?np\<lparr>parent := q\<rparr>)"
  have p4: "nodes t4 p = Some ?np" "nodes t4 q = Some (nq\<lparr>parent := par\<rparr>)"
    using t4(3) [of p] t4(3) [of q] dis(1-10) p2 by simp_all
  have eq: "rotation_left p t = Inr (t4\<lparr>nodes := ?N\<rparr>)"
    using n p2 p4 t2(1) t4(1) dis(1,2) by (simp add: rotation_left_def)
  have N: "?N a = nodes t2 a" if "a \<notin> set (caddrs fs)" "a \<noteq> p" "a \<noteq> q" for a
    using t4(3) that by simp
  have NA: "?N a = nodes t a" if "a \<in> set (inorder A) \<or> a \<in> set (inorder C)" for a
    using N [of a] t2(3) [of a] dis(13,14) [of a] that by auto
  have NB: "?N a = nodes t2 a" if "a \<in> set (inorder B)" for a
    using N [of a] dis(15) [of a] that by blast
  have "tr ?N p (left np) A" "tr ?N q (right nq) C" "tr ?N p ?b B"
    using s(1,3) t2(2) tr_cong [of A ?N "nodes t"] tr_cong [of C ?N "nodes t"] tr_cong [of B ?N "nodes t2"] NA NB
    by blast+
  then have "tr ?N par q (Nd (Nd A c p B) d q C)"
    using n dis(1) by simp
  moreover have "ctx ?N (tree_root t4) q par fs"
    using t4(2) dis(6,10) n(3) by simp
  ultimately have "foc (t4\<lparr>nodes := ?N\<rparr>) q (Nd (Nd A c p B) d q C) fs"
    using d unfolding foc_def by (intro conjI exI [of _ par]) simp_all
  moreover have "SENTINEL \<notin> set (inorder B)" "SENTINEL \<notin> set (caddrs fs)"
    using tr_not_null [OF s(2)] ctx_not_null [OF c] by fastforce+
  then have "same_sent t (t4\<lparr>nodes := ?N\<rparr>)"
    using t2(3,5,6) t4(3,4) n(1,5,6,9) p2 p4 unfolding same_sent_def by (simp add: insert_absorb domI)
  ultimately show ?thesis
    using eq by blast
qed

lemma rotation_right_foc:
  assumes "foc t q (Nd (Nd A c p B) d q C) fs"
  shows "\<exists>t'. rotation_right q t = Inr t' \<and> foc t' p (Nd A c p (Nd B d q C)) fs \<and> same_sent t t'"
proof -
  obtain par np nq where c: "ctx (nodes t) (tree_root t) q par fs" and
    n: "nodes t p = Some np" "node_color np = c" "parent nq = par" "left nq = p" "not_null p"
      "nodes t q = Some nq" "node_color nq = d" "parent np = q" "not_null q"
    and s: "tr (nodes t) p (left np) A" "tr (nodes t) p (right np) B" "tr (nodes t) q (right nq) C"
    and d: "distinct (inorder A @ p # inorder B @ q # inorder C @ caddrs fs)"
    using assms unfolding foc_def by auto
  note dis = rot_disjoint [OF d]
  let ?b = "right np" and ?nq = "nq\<lparr>left := right np\<rparr>"
  let ?t1 = "t\<lparr>nodes := (nodes t)(q \<mapsto> ?nq)\<rparr>"
  have "tr (nodes ?t1) p ?b B"
    using s(2) dis by simp
  from reparent_ok [OF this dis(11), of q] obtain t2 where
    t2: "(if not_null ?b then set_fld (\<lambda>n. n\<lparr>parent := q\<rparr>) ?b ?t1 else Inr ?t1) = Inr t2"
      "tr (nodes t2) q ?b B" "\<And>a. a \<notin> set (inorder B) \<Longrightarrow> nodes t2 a = nodes ?t1 a" "tree_root t2 = tree_root ?t1"
      "key_of t2 = key_of ?t1" "dom (nodes t2) = dom (nodes ?t1)"
    by blast
  have p2: "nodes t2 q = Some ?nq" "nodes t2 p = Some np"
    using t2(3) [of p] t2(3) [of q] dis(1-10) n by simp_all
  let ?t3 = "t2\<lparr>nodes := (nodes t2)(p \<mapsto> np\<lparr>parent := par\<rparr>)\<rparr>"
  have "ctx (nodes t2) (tree_root t2) q par fs"
    using t2(3,4) dis(16) c ctx_cong [of fs "nodes t2" "nodes t"] by simp
  then have "ctx (nodes ?t3) (tree_root ?t3) q (parent ?nq) fs" "nodes ?t3 q = Some ?nq"
    using n dis(1-10) p2 by simp_all
  from replace_child_ctx [OF this n(9) dis(10,12), of p] obtain t4 where
    t4: "replace_child q p ?t3 = Inr t4" "ctx (nodes t4) (tree_root t4) p (parent ?nq) fs"
      "\<And>a. a \<notin> set (caddrs fs) \<Longrightarrow> nodes t4 a = nodes ?t3 a" "same_sent ?t3 t4"
    by blast
  let ?N = "(nodes t4)(p \<mapsto> np\<lparr>parent := par, right := q\<rparr>, q \<mapsto> ?nq\<lparr>parent := p\<rparr>)"
  have p4: "nodes t4 q = Some ?nq" "nodes t4 p = Some (np\<lparr>parent := par\<rparr>)"
    using t4(3) [of p] t4(3) [of q] dis(1-10) p2 by simp_all
  have eq: "rotation_right q t = Inr (t4\<lparr>nodes := ?N\<rparr>)"
    using n p2 p4 t2(1) t4(1) dis(1,2) by (simp add: rotation_right_def)
  have N: "?N a = nodes t2 a" if "a \<notin> set (caddrs fs)" "a \<noteq> p" "a \<noteq> q" for a
    using t4(3) that by simp
  have NA: "?N a = nodes t a" if "a \<in> set (inorder A) \<or> a \<in> set (inorder C)" for a
    using N [of a] t2(3) [of a] dis(13,14) [of a] that by auto
  have NB: "?N a = nodes t2 a" if "a \<in> set (inorder B)" for a
    using N [of a] dis(15) [of a] that by blast
  have "tr ?N p (left np) A" "tr ?N q (right nq) C" "tr ?N q ?b B"
    using s(1,3) t2(2) tr_cong [of A ?N "nodes t"] tr_cong [of C ?N "nodes t"] tr_cong [of B ?N "nodes t2"] NA NB
    by blast+
  then have "tr ?N par p (Nd A c p (Nd B d q C))"
    using n dis(1) by simp
  moreover have "ctx ?N (tree_root t4) p par fs"
    using t4(2) dis(6,10) n(3) by simp
  ultimately have "foc (t4\<lparr>nodes := ?N\<rparr>) p (Nd A c p (Nd B d q C)) fs"
    using d unfolding foc_def by (intro conjI exI [of _ par]) simp_all
  moreover have "SENTINEL \<notin> set (inorder B)" "SENTINEL \<notin> set (caddrs fs)"
    using tr_not_null [OF s(2)] ctx_not_null [OF c] by fastforce+
  then have "same_sent t (t4\<lparr>nodes := ?N\<rparr>)"
    using t2(3,5,6) t4(3,4) n(1,5,6,9) p2 p4 unfolding same_sent_def by (simp add: insert_absorb domI)
  ultimately show ?thesis
    using eq by blast
qed

section \<open>Operations on represented trees\<close>

primrec troot :: "rb \<Rightarrow> nat" where
  "troot Lf = SENTINEL"
| "troot (Nd l c a r) = a"

definition top_addr :: "frame list \<Rightarrow> nat" where
  "top_addr fs = (case fs of [] \<Rightarrow> SENTINEL | InL c a r # _ \<Rightarrow> a | InR l c a # _ \<Rightarrow> a)"

lemma top_addr_simps [simp]: "top_addr [] = SENTINEL" "top_addr (InL c a r # fs) = a" "top_addr (InR l c a # fs) = a"
  by (simp_all add: top_addr_def)

text \<open>
  The store represents the tree \<open>W\<close>: the links from the root are those of \<open>W\<close>, and the sentinel is
  black. Before the first insertion the root is a null pointer instead of the sentinel.
\<close>

definition rep :: "malloc_rbtree \<Rightarrow> rb \<Rightarrow> bool" where
  "rep t W \<longleftrightarrow> (if W = Lf then \<not> not_null (tree_root t) else tr (nodes t) SENTINEL (tree_root t) W) \<and>
     distinct (inorder W) \<and> (\<exists>s. nodes t SENTINEL = Some s \<and> node_color s = BLACK)"

lemma tr_troot: "tr N par p T \<Longrightarrow> p = troot T"
  by (cases T) auto

lemma ctx_top: "ctx N rt p par fs \<Longrightarrow> par = top_addr fs"
  by (cases fs rule: frames_cases) auto

lemma plug_Nd [simp]: "plug (Nd l c a r) fs \<noteq> Lf"
proof (induction fs arbitrary: l c a r)
  case (Cons f fs)
  then show ?case
    by (cases f) simp_all
qed simp

lemma rep_plug:
  "rep t (plug (Nd l c a r) fs) \<longleftrightarrow> foc t a (Nd l c a r) fs \<and> (\<exists>s. nodes t SENTINEL = Some s \<and> node_color s = BLACK)"
  unfolding rep_def foc_def by (auto simp: tr_plug inorder_plug)

lemma rep_same: "same_sent t t' \<Longrightarrow> (\<exists>s. nodes t SENTINEL = Some s \<and> node_color s = BLACK) \<Longrightarrow>
    (\<exists>s. nodes t' SENTINEL = Some s \<and> node_color s = BLACK)"
  by (simp add: same_sent_def)

lemma same_sent_trans: "same_sent t t1 \<Longrightarrow> same_sent t1 t2 \<Longrightarrow> same_sent t t2"
  by (simp add: same_sent_def)

lemma rep_rotation_left:
  "rep t (plug (Nd A c p (Nd B d q C)) fs) \<Longrightarrow>
   \<exists>t'. rotation_left p t = Inr t' \<and> rep t' (plug (Nd (Nd A c p B) d q C) fs) \<and> same_sent t t'"
  using rotation_left_foc rep_same unfolding rep_plug by blast

lemma rep_rotation_right:
  "rep t (plug (Nd (Nd A c p B) d q C) fs) \<Longrightarrow>
   \<exists>t'. rotation_right q t = Inr t' \<and> rep t' (plug (Nd A c p (Nd B d q C)) fs) \<and> same_sent t t'"
  using rotation_right_foc rep_same unfolding rep_plug by blast

lemma rep_read:
  assumes "rep t (plug (Nd l c a r) fs)"
  shows "get_fld node_color a t = Inr c" "get_fld left a t = Inr (troot l)" "get_fld right a t = Inr (troot r)"
    "get_fld parent a t = Inr (top_addr fs)" "not_null a"
  using assms unfolding rep_plug foc_def by (auto dest: tr_troot ctx_top)

primrec col :: "rb \<Rightarrow> color" where
  "col Lf = BLACK"
| "col (Nd l c a r) = c"

lemma rep_child:
  assumes "rep t (plug (Nd l c a r) fs)"
  shows "get_fld node_color (troot l) t = Inr (col l)" "get_fld node_color (troot r) t = Inr (col r)"
    "l \<noteq> Lf \<Longrightarrow> get_fld parent (troot l) t = Inr a" "r \<noteq> Lf \<Longrightarrow> get_fld parent (troot r) t = Inr a"
proof -
  obtain s where s: "nodes t SENTINEL = Some s" "node_color s = BLACK"
    using assms unfolding rep_plug by blast
  have L: "rep t (plug l (InL c a r # fs))" and R: "rep t (plug r (InR l c a # fs))"
    using assms by simp_all
  show "get_fld node_color (troot l) t = Inr (col l)" "l \<noteq> Lf \<Longrightarrow> get_fld parent (troot l) t = Inr a"
    using s rep_read(1,4) [of t _ _ _ _ "InL c a r # fs"] L by (cases l; simp)+
  show "get_fld node_color (troot r) t = Inr (col r)" "r \<noteq> Lf \<Longrightarrow> get_fld parent (troot r) t = Inr a"
    using s rep_read(1,4) [of t _ _ _ _ "InR l c a # fs"] R by (cases r; simp)+
qed

lemma rep_set_color:
  assumes "rep t (plug (Nd l c a r) fs)"
  shows "\<exists>t'. set_color d a t = Inr t' \<and> rep t' (plug (Nd l d a r) fs) \<and> same_sent t t'"
proof -
  obtain par n where n: "ctx (nodes t) (tree_root t) a par fs" "nodes t a = Some n" "not_null a" "parent n = par"
    "tr (nodes t) a (left n) l" "tr (nodes t) a (right n) r" "distinct (inorder l @ a # inorder r @ caddrs fs)"
    and s: "\<exists>s. nodes t SENTINEL = Some s \<and> node_color s = BLACK"
    using assms unfolding rep_plug foc_def by auto
  have "a \<notin> set (inorder l)" "a \<notin> set (inorder r)" "a \<notin> set (caddrs fs)"
    using n(7) by auto
  then show ?thesis
    unfolding set_color_def rep_plug foc_def same_sent_def
    using n s by (simp add: insert_absorb domI)
qed

section \<open>The red-black invariants\<close>

primrec invc :: "rb \<Rightarrow> bool" where
  "invc Lf = True"
| "invc (Nd l c a r) = (invc l \<and> invc r \<and> (c = RED \<longrightarrow> col l = BLACK \<and> col r = BLACK))"

primrec bheight :: "rb \<Rightarrow> nat" where
  "bheight Lf = 0"
| "bheight (Nd l c a r) = bheight l + (if c = BLACK then 1 else 0)"

primrec invh :: "rb \<Rightarrow> bool" where
  "invh Lf = True"
| "invh (Nd l c a r) = (invh l \<and> invh r \<and> bheight l = bheight r)"

primrec sib :: "frame \<Rightarrow> rb" where
  "sib (InL c a r) = r"
| "sib (InR l c a) = l"

definition black_top :: "frame list \<Rightarrow> bool" where
  "black_top fs = (case fs of [] \<Rightarrow> False | f # _ \<Rightarrow> fcolor f = BLACK)"

primrec cinvc :: "frame list \<Rightarrow> bool" where
  "cinvc [] = True"
| "cinvc (f # fs) = (invc (sib f) \<and> (fcolor f = RED \<longrightarrow> col (sib f) = BLACK \<and> black_top fs) \<and> cinvc fs)"

primrec cinvh :: "nat \<Rightarrow> frame list \<Rightarrow> bool" where
  "cinvh n [] = True"
| "cinvh n (f # fs) = (invh (sib f) \<and> bheight (sib f) = n \<and> cinvh (n + (if fcolor f = BLACK then 1 else 0)) fs)"

lemma black_top_simps [simp]: "\<not> black_top []" "black_top (f # fs) \<longleftrightarrow> fcolor f = BLACK"
  by (simp_all add: black_top_def)

lemma not_RED [simp]: "c \<noteq> RED \<longleftrightarrow> c = BLACK"
  by (cases c) simp_all

lemma plug_inv:
  assumes "invc T" "invh T" "cinvc fs" "cinvh (bheight T) fs" "col T = RED \<Longrightarrow> fs = [] \<or> black_top fs"
  shows "invc (plug T fs) \<and> invh (plug T fs)"
  using assms
proof (induction fs arbitrary: T)
  case (Cons f fs)
  have "invc (fill T f) \<and> invh (fill T f) \<and> cinvh (bheight (fill T f)) fs \<and> (col (fill T f) = RED \<longrightarrow> black_top fs)"
    using Cons.prems(1-4) Cons.prems(5) by (cases f) force+
  then show ?case
    using Cons.IH [of "fill T f"] Cons.prems(3) by simp
qed simp

lemma plug_inv_split:
  assumes "invc (plug T fs)" "invh (plug T fs)" "col (plug T fs) = BLACK"
  shows "invc T \<and> invh T \<and> cinvc fs \<and> cinvh (bheight T) fs \<and> (col T = RED \<longrightarrow> black_top fs)"
  using assms
proof (induction fs arbitrary: T)
  case (Cons f fs)
  have "invc (fill T f) \<and> invh (fill T f) \<and> cinvc fs \<and> cinvh (bheight (fill T f)) fs \<and> (col (fill T f) = RED \<longrightarrow> black_top fs)"
    using Cons.prems by (intro Cons.IH) simp_all
  then show ?case
    by (cases f) auto
qed simp

section \<open>Insertion keeps the tree red-black\<close>

lemma grandparent_read:
  assumes "get_fld parent cur t = Inr p" "get_fld parent p t = Inr g"
  shows "grandparent cur t = Inr g"
  using assms by (simp add: grandparent_def)

lemma case3_right:
  assumes r: "rep t (plug (Nd (Nd X cp p Y) cg g u) fs)" and X: "X \<noteq> Lf" "cur = troot X"
  shows "\<exists>t'. insert_case3 rotation_right cur t = Inr (cur, t') \<and>
           rep t' (plug (Nd X BLACK p (Nd Y RED g u)) fs) \<and> same_sent t t'"
proof -
  obtain t1 where 1: "set_color BLACK p t = Inr t1" "rep t1 (plug (Nd (Nd X BLACK p Y) cg g u) fs)" "same_sent t t1"
    using rep_set_color [of t X cp p Y "InL cg g u # fs" BLACK] r by auto
  obtain t2 where 2: "set_color RED g t1 = Inr t2" "rep t2 (plug (Nd (Nd X BLACK p Y) RED g u) fs)" "same_sent t1 t2"
    using rep_set_color [OF 1(2), of RED] by auto
  obtain t3 where 3: "rotation_right g t2 = Inr t3" "rep t3 (plug (Nd X BLACK p (Nd Y RED g u)) fs)" "same_sent t2 t3"
    using rep_rotation_right [OF 2(2)] by auto
  have c: "get_fld parent cur t' = Inr p" "get_fld parent p t' = Inr g"
    if "rep t' (plug (Nd (Nd X d p Y) e g u) fs)" for t' d e
    using rep_child(3) [of t' X d p Y "InL e g u # fs"] rep_child(3) [OF that] that X by simp_all
  have "insert_case3 rotation_right cur t = Inr (cur, t3)"
    using c [OF r] c [OF 1(2)] c [OF 2(2)] 1(1) 2(1) 3(1) by (simp add: insert_case3_def grandparent_def)
  then show ?thesis
    using 3(2) same_sent_trans [OF same_sent_trans [OF 1(3) 2(3)] 3(3)] by (intro exI conjI)
qed

lemma case3_left:
  assumes r: "rep t (plug (Nd u cg g (Nd X cp p Y)) fs)"
    and cur: "X \<noteq> Lf \<and> cur = troot X \<or> Y \<noteq> Lf \<and> cur = troot Y"
  shows "\<exists>t'. insert_case3 rotation_left cur t = Inr (cur, t') \<and>
           rep t' (plug (Nd (Nd u RED g X) BLACK p Y) fs) \<and> same_sent t t'"
proof -
  obtain t1 where 1: "set_color BLACK p t = Inr t1" "rep t1 (plug (Nd u cg g (Nd X BLACK p Y)) fs)" "same_sent t t1"
    using rep_set_color [of t X cp p Y "InR u cg g # fs" BLACK] r by auto
  obtain t2 where 2: "set_color RED g t1 = Inr t2" "rep t2 (plug (Nd u RED g (Nd X BLACK p Y)) fs)" "same_sent t1 t2"
    using rep_set_color [OF 1(2), of RED] by auto
  obtain t3 where 3: "rotation_left g t2 = Inr t3" "rep t3 (plug (Nd (Nd u RED g X) BLACK p Y) fs)" "same_sent t2 t3"
    using rep_rotation_left [OF 2(2)] by auto
  have c: "get_fld parent cur t' = Inr p" "get_fld parent p t' = Inr g"
    if "rep t' (plug (Nd u e g (Nd X d p Y)) fs)" for t' d e
    using rep_child(3,4) [of t' X d p Y "InR u e g # fs"] rep_child(4) [OF that] that cur by auto
  have "insert_case3 rotation_left cur t = Inr (cur, t3)"
    using c [OF r] c [OF 1(2)] c [OF 2(2)] 1(1) 2(1) 3(1) by (simp add: insert_case3_def grandparent_def)
  then show ?thesis
    using 3(2) same_sent_trans [OF same_sent_trans [OF 1(3) 2(3)] 3(3)] by (intro exI conjI)
qed

primrec faddr :: "frame \<Rightarrow> nat" where
  "faddr (InL c a r) = a"
| "faddr (InR l c a) = a"

primrec fset :: "color \<Rightarrow> frame \<Rightarrow> frame" where
  "fset d (InL c a r) = InL d a r"
| "fset d (InR l c a) = InR l d a"

primrec paint :: "color \<Rightarrow> rb \<Rightarrow> rb" where
  "paint d Lf = Lf"
| "paint d (Nd l c a r) = Nd l d a r"

primrec fsib :: "color \<Rightarrow> frame \<Rightarrow> frame" where
  "fsib d (InL c a r) = InL c a (paint d r)"
| "fsib d (InR l c a) = InR (paint d l) c a"

lemma fill_simps [simp]: "fill T f \<noteq> Lf" "troot (fill T f) = faddr f"
  by (cases f; simp)+

lemma frame_simps [simp]: "faddr (fset d f) = faddr f" "faddr (fsib d f) = faddr f" "sib (fset d f) = sib f"
  "fcolor (fset d f) = d" "sib (fsib d f) = paint d (sib f)" "fcolor (fsib d f) = fcolor f"
  by (cases f; simp)+

lemma top_addr_Cons [simp]: "top_addr (f # fs) = faddr f"
  by (cases f) simp_all

lemma rep_parent: "rep t (plug T (f # fs)) \<Longrightarrow> T \<noteq> Lf \<Longrightarrow> get_fld parent (troot T) t = Inr (faddr f)"
  using rep_read(4) [of t _ _ _ _ "f # fs"] by (cases T) auto

lemma rep_set_frame:
  "rep t (plug T (f # fs)) \<Longrightarrow>
   \<exists>t'. set_color d (faddr f) t = Inr t' \<and> rep t' (plug T (fset d f # fs)) \<and> same_sent t t'"
  using rep_set_color [of t _ _ _ _ fs d] by (cases f) auto

lemma rep_set_sib:
  assumes "rep t (plug T (f # fs))" "sib f \<noteq> Lf"
  shows "\<exists>t'. set_color d (troot (sib f)) t = Inr t' \<and> rep t' (plug T (fsib d f # fs)) \<and> same_sent t t'"
proof (cases f)
  case (InL c a r)
  then show ?thesis
    using assms rep_set_color [of t _ _ _ _ "InR T c a # fs" d] by (cases r) auto
next
  case (InR l c a)
  then show ?thesis
    using assms rep_set_color [of t _ _ _ _ "InL c a T # fs" d] by (cases l) auto
qed

lemma set_color_parent: "set_color d a t = Inr t' \<Longrightarrow> get_fld parent x t' = get_fld parent x t"
  by (auto simp: set_color_def set_fld_def get_fld_def split: option.splits if_splits)

text \<open>Case 1: the parent and the uncle are red.\<close>

lemma recolor:
  assumes r: "rep t (plug T (f1 # f2 # fs))" and T: "T \<noteq> Lf" "sib f2 \<noteq> Lf"
  shows "\<exists>t'. insert_recolor (troot T) (troot (sib f2)) t = Inr (faddr f2, t') \<and> same_sent t t' \<and>
           rep t' (plug T (fset BLACK f1 # fsib BLACK (fset RED f2) # fs))"
proof -
  obtain t1 where 1: "set_color RED (faddr f2) t = Inr t1" "rep t1 (plug (fill T f1) (fset RED f2 # fs))" "same_sent t t1"
    using rep_set_frame [of t "fill T f1" f2 fs RED] r by auto
  obtain t2 where 2: "set_color BLACK (faddr f1) t1 = Inr t2" "rep t2 (plug T (fset BLACK f1 # fset RED f2 # fs))" "same_sent t1 t2"
    using rep_set_frame [of t1 T f1 "fset RED f2 # fs" BLACK] 1(2) by auto
  obtain t3 where 3: "set_color BLACK (troot (sib f2)) t2 = Inr t3" "same_sent t2 t3"
    "rep t3 (plug (fill T (fset BLACK f1)) (fsib BLACK (fset RED f2) # fs))"
    using rep_set_sib [of t2 "fill T (fset BLACK f1)" "fset RED f2" fs BLACK] 2(2) T(2) by auto
  have "get_fld parent (troot T) t = Inr (faddr f1)" "get_fld parent (faddr f1) t = Inr (faddr f2)"
    using rep_parent [of t T f1 "f2 # fs"] rep_parent [of t "fill T f1" f2 fs] r T(1) by simp_all
  moreover note set_color_parent [OF 1(1)] set_color_parent [OF 2(1)] set_color_parent [OF 3(1)]
  ultimately have "insert_recolor (troot T) (troot (sib f2)) t = Inr (faddr f2, t3)"
    using 1(1) 2(1) 3(1) by (simp add: insert_recolor_def grandparent_def)
  then show ?thesis
    using 3(3) same_sent_trans [OF same_sent_trans [OF 1(3) 2(3)] 3(2)] by (intro exI conjI) simp_all
qed

lemma rep_distinct:
  assumes "rep t (plug T (f1 # f2 # fs))" "T \<noteq> Lf"
  shows "troot (sib f2) \<noteq> faddr f1" "troot T \<noteq> troot (sib f2)" "troot T \<noteq> troot (sib f1)"
proof -
  have d: "distinct (inorder T @ faddrs f1 @ faddrs f2 @ caddrs fs)"
    using assms(1) inorder_plug(2) [of T "f1 # f2 # fs"] by (simp add: rep_def)
  have "get_fld parent (troot T) t = Inr (faddr f1)" "not_null (troot T)"
    using assms rep_read(5) [of t _ _ _ _ "f1 # f2 # fs"] rep_parent [of t T f1 "f2 # fs"] by (cases T; auto)+
  moreover have "not_null (faddr f1)"
    using assms(1) rep_read(5) [of t _ _ "faddr f1" _ "f2 # fs"] by (cases f1) auto
  moreover have "troot S = SENTINEL \<or> troot S \<in> set (inorder S)" for S
    by (cases S) simp_all
  then have "troot (sib f1) = SENTINEL \<or> troot (sib f1) \<in> set (faddrs f1)" "troot T \<in> set (inorder T)"
    "troot (sib f2) = SENTINEL \<or> troot (sib f2) \<in> set (faddrs f2)" "faddr f1 \<in> set (faddrs f1)"
    using assms(2) by (cases f1; cases f2; cases T; force)+
  ultimately show "troot (sib f2) \<noteq> faddr f1" "troot T \<noteq> troot (sib f2)" "troot T \<noteq> troot (sib f1)"
    using d by auto
qed

lemma rep_frame_color: "rep t (plug T (f # fs)) \<Longrightarrow> get_fld node_color (faddr f) t = Inr (fcolor f)"
  using rep_read(1) [of t _ _ _ _ fs] by (cases f) auto

lemma rep_sib_color: "rep t (plug T (f # fs)) \<Longrightarrow> get_fld node_color (troot (sib f)) t = Inr (col (sib f))"
  using rep_child(1,2) [of t _ _ _ _ fs] by (cases f) auto

lemma step_done:
  assumes "rep t (plug T fs)" "T \<noteq> Lf" "fs = [] \<or> black_top fs"
  shows "insert_step (troot T) t = Inr None"
proof (cases fs)
  case Nil
  then have "get_fld parent (troot T) t = Inr SENTINEL"
    using assms(1,2) rep_read(4) [of t _ _ _ _ "[]"] by (cases T) auto
  moreover have "get_fld node_color SENTINEL t = Inr BLACK"
    using assms(1) by (auto simp: rep_def)
  ultimately show ?thesis
    by (simp add: insert_step_def)
next
  case (Cons f gs)
  then show ?thesis
    using assms rep_parent [of t T f gs] rep_frame_color [of t T f gs] by (simp add: insert_step_def)
qed

text \<open>What a pass of the loop reads when the parent is red.\<close>

lemma step_reads:
  assumes r: "rep t (plug T (f1 # f2 # fs))" and T: "T \<noteq> Lf" and c: "fcolor f1 = RED"
  shows "get_fld parent (troot T) t = Inr (faddr f1)" "get_fld node_color (faddr f1) t = Inr RED"
    "get_fld parent (faddr f1) t = Inr (faddr f2)" "get_fld node_color (troot (sib f2)) t = Inr (col (sib f2))"
    "get_fld left (faddr f2) t = Inr (case f2 of InL c g u \<Rightarrow> faddr f1 | InR u c g \<Rightarrow> troot u)"
    "get_fld right (faddr f2) t = Inr (case f2 of InL c g u \<Rightarrow> troot u | InR u c g \<Rightarrow> faddr f1)"
    "get_fld right (faddr f1) t = Inr (case f1 of InL c p s \<Rightarrow> troot s | InR s c p \<Rightarrow> troot T)"
proof -
  have r2: "rep t (plug (fill T f1) (f2 # fs))"
    using r by simp
  show "get_fld parent (troot T) t = Inr (faddr f1)" "get_fld node_color (faddr f1) t = Inr RED"
    using rep_parent [OF r T] rep_frame_color [OF r] c by simp_all
  show "get_fld parent (faddr f1) t = Inr (faddr f2)" "get_fld node_color (troot (sib f2)) t = Inr (col (sib f2))"
    using rep_parent [OF r2] rep_sib_color [OF r2] by simp_all
  show "get_fld left (faddr f2) t = Inr (case f2 of InL c g u \<Rightarrow> faddr f1 | InR u c g \<Rightarrow> troot u)"
    "get_fld right (faddr f2) t = Inr (case f2 of InL c g u \<Rightarrow> troot u | InR u c g \<Rightarrow> faddr f1)"
    using rep_read(2,3) [of t _ _ _ _ fs] r by (cases f2; auto)+
  show "get_fld right (faddr f1) t = Inr (case f1 of InL c p s \<Rightarrow> troot s | InR s c p \<Rightarrow> troot T)"
    using rep_read(3) [of t _ _ _ _ "f2 # fs"] r by (cases f1; auto)
qed

lemma step_recolor:
  assumes r: "rep t (plug T (f1 # f2 # fs))" and T: "T \<noteq> Lf" and c: "fcolor f1 = RED" "col (sib f2) = RED"
  shows "\<exists>t'. insert_step (troot T) t = Inr (Some (faddr f2, t')) \<and> same_sent t t' \<and>
           rep t' (plug T (fset BLACK f1 # fsib BLACK (fset RED f2) # fs))"
proof -
  have "sib f2 \<noteq> Lf"
    using c(2) by auto
  from recolor [OF r T this] obtain t' where t': "insert_recolor (troot T) (troot (sib f2)) t = Inr (faddr f2, t')"
    "same_sent t t'" "rep t' (plug T (fset BLACK f1 # fsib BLACK (fset RED f2) # fs))"
    by blast
  have "insert_step (troot T) t = Inr (Some (faddr f2, t'))"
    using step_reads [OF r T c(1)] rep_distinct [OF r T] c(2) t'(1)
    by (cases f2) (auto simp: insert_step_def)
  then show ?thesis
    using t' by blast
qed

lemma step_A3:
  assumes r: "rep t (plug T (InL RED p s # InL BLACK g u # fs))" and T: "T \<noteq> Lf" and c: "col u = BLACK"
  shows "\<exists>t'. insert_step (troot T) t = Inr (Some (troot T, t')) \<and> same_sent t t' \<and>
           rep t' (plug (Nd T BLACK p (Nd s RED g u)) fs)"
proof -
  obtain t' where "insert_case3 rotation_right (troot T) t = Inr (troot T, t')"
    "rep t' (plug (Nd T BLACK p (Nd s RED g u)) fs)" "same_sent t t'"
    using case3_right [of t T RED p s BLACK g u fs "troot T"] r T by auto
  moreover have "insert_step (troot T) t = rbind (insert_case3 rotation_right (troot T) t) (\<lambda>r. Inr (Some r))"
    using step_reads [OF r T] rep_distinct [OF r T] c by (simp add: insert_step_def)
  ultimately show ?thesis
    by simp
qed

lemma step_A2:
  assumes r: "rep t (plug (Nd l c a r) (InR s RED p # InL BLACK g u # fs))" and c: "col u = BLACK"
  shows "\<exists>t'. insert_step a t = Inr (Some (p, t')) \<and> same_sent t t' \<and>
           rep t' (plug (Nd (Nd s RED p l) BLACK a (Nd r RED g u)) fs)"
proof -
  obtain t1 where 1: "rotation_left p t = Inr t1" "rep t1 (plug (Nd (Nd s RED p l) c a r) (InL BLACK g u # fs))" "same_sent t t1"
    using rep_rotation_left [of t s RED p l c a r "InL BLACK g u # fs"] r by auto
  obtain t2 where 2: "insert_case3 rotation_right p t1 = Inr (p, t2)"
    "rep t2 (plug (Nd (Nd s RED p l) BLACK a (Nd r RED g u)) fs)" "same_sent t1 t2"
    using case3_right [of t1 "Nd s RED p l" c a r BLACK g u fs p] 1(2) by auto
  have "insert_step a t = Inr (Some (p, t2))"
    using step_reads [OF r] c 1(1) 2(1) by (simp add: insert_step_def)
  then show ?thesis
    using 2(2) same_sent_trans [OF 1(3) 2(3)] by blast
qed

lemma step_B:
  assumes r: "rep t (plug T (f1 # InR u BLACK g # fs))" and T: "T \<noteq> Lf" and c: "fcolor f1 = RED" "col u = BLACK"
  shows "\<exists>t'. insert_step (troot T) t = Inr (Some (troot T, t')) \<and> same_sent t t' \<and>
           rep t' (plug (case f1 of InL c p s \<Rightarrow> Nd (Nd u RED g T) BLACK p s | InR s c p \<Rightarrow> Nd (Nd u RED g s) BLACK p T) fs)"
proof -
  obtain t' where "insert_case3 rotation_left (troot T) t = Inr (troot T, t')" "same_sent t t'"
    "rep t' (plug (case f1 of InL c p s \<Rightarrow> Nd (Nd u RED g T) BLACK p s | InR s c p \<Rightarrow> Nd (Nd u RED g s) BLACK p T) fs)"
    using case3_left [of t u BLACK g _ _ _ _ fs "troot T"] r T by (cases f1) fastforce+
  moreover have "insert_step (troot T) t = rbind (insert_case3 rotation_left (troot T) t) (\<lambda>r. Inr (Some r))"
    using step_reads [OF r T c(1)] rep_distinct [OF r T] c by (simp add: insert_step_def)
  ultimately show ?thesis
    by simp
qed

lemma not_BLACK [simp]: "c \<noteq> BLACK \<longleftrightarrow> c = RED"
  by (cases c) simp_all

text \<open>
  What the loop of an insertion starts from and keeps: the focus is a red node, everything else is
  red-black, and only the focus and its parent may both be red.
\<close>

definition almost :: "rb \<Rightarrow> frame list \<Rightarrow> bool" where
  "almost T fs \<longleftrightarrow> col T = RED \<and> invc T \<and> invh T \<and> cinvc fs \<and> cinvh (bheight T) fs"

text \<open>What the loop ends with, from a tree with the elements \<open>xs\<close>.\<close>

definition fixed :: "malloc_rbtree \<Rightarrow> nat list \<Rightarrow> malloc_rbtree result option \<Rightarrow> bool" where
  "fixed t xs r \<longleftrightarrow> (\<exists>t' W. r = Some (Inr t') \<and> rep t' W \<and> inorder W = xs \<and> invc W \<and> invh W \<and> same_sent t t')"

lemma fixed_step:
  assumes "insert_step cur t = Inr (Some (cur', t'))" "same_sent t t'" "fixed t' xs (insert_fixup cur' t')"
  shows "fixed t xs (insert_fixup cur t)"
  using assms same_sent_trans unfolding fixed_def insert_fixup.simps [of cur t] by fastforce

lemma fixed_done:
  assumes "rep t (plug T fs)" "T \<noteq> Lf" "fs = [] \<or> black_top fs" "invc (plug T fs)" "invh (plug T fs)"
  shows "fixed t (inorder (plug T fs)) (insert_fixup (troot T) t)"
proof -
  have "insert_fixup (troot T) t = Some (Inr t)"
    using step_done [OF assms(1-3)] by (simp add: insert_fixup.simps [of "troot T" t])
  then show ?thesis
    using assms(1,4,5) by (auto simp: fixed_def same_sent_def)
qed

lemma almost_Nd: "almost T fs \<Longrightarrow> \<exists>l a r. T = Nd l RED a r \<and> col l = BLACK \<and> col r = BLACK"
  by (cases T) (auto simp: almost_def)

lemma inorder_plug_eq: "inorder S = inorder T \<Longrightarrow> inorder (plug S fs) = inorder (plug T fs)"
  by (rule inorder_plug_cong)

lemma fix_A:
  assumes r: "rep t (plug T (f1 # InL BLACK g u # fs))" and a: "almost T (f1 # InL BLACK g u # fs)"
    and c: "fcolor f1 = RED" "col u = BLACK"
  shows "fixed t (inorder (plug T (f1 # InL BLACK g u # fs))) (insert_fixup (troot T) t)"
proof (cases f1)
  case (InL c1 p s)
  have T: "T \<noteq> Lf"
    using almost_Nd [OF a] by auto
  obtain t' where t': "insert_step (troot T) t = Inr (Some (troot T, t'))" "same_sent t t'"
    "rep t' (plug (Nd T BLACK p (Nd s RED g u)) fs)"
    using step_A3 [of t T p s g u fs] r T c InL by auto
  have "invc (plug (Nd T BLACK p (Nd s RED g u)) fs) \<and> invh (plug (Nd T BLACK p (Nd s RED g u)) fs)"
    using a c InL by (intro plug_inv) (auto simp: almost_def)
  then have "fixed t' (inorder (plug T (InL BLACK p (Nd s RED g u) # fs))) (insert_fixup (troot T) t')"
    using t'(3) T by (intro fixed_done) auto
  moreover have "inorder (plug T (InL BLACK p (Nd s RED g u) # fs)) = inorder (plug T (f1 # InL BLACK g u # fs))"
    unfolding InL plug.simps by (intro inorder_plug_eq) simp
  ultimately show ?thesis
    using fixed_step [OF t'(1,2)] by simp
next
  case (InR s c1 p)
  obtain l x r where T: "T = Nd l RED x r" "col l = BLACK" "col r = BLACK"
    using almost_Nd [OF a] by blast
  obtain t' where t': "insert_step x t = Inr (Some (p, t'))" "same_sent t t'"
    "rep t' (plug (Nd (Nd s RED p l) BLACK x (Nd r RED g u)) fs)"
    using step_A2 [of t l RED x r s p g u fs] assms(1) c InR T(1) by auto
  have "invc (plug (Nd (Nd s RED p l) BLACK x (Nd r RED g u)) fs) \<and> invh (plug (Nd (Nd s RED p l) BLACK x (Nd r RED g u)) fs)"
    using a c InR T by (intro plug_inv) (auto simp: almost_def)
  then have "fixed t' (inorder (plug (Nd s RED p l) (InL BLACK x (Nd r RED g u) # fs))) (insert_fixup (troot (Nd s RED p l)) t')"
    using t'(3) by (intro fixed_done) auto
  moreover have "inorder (plug (Nd s RED p l) (InL BLACK x (Nd r RED g u) # fs)) = inorder (plug T (f1 # InL BLACK g u # fs))"
    unfolding InR T(1) plug.simps by (intro inorder_plug_eq) simp
  ultimately show ?thesis
    using fixed_step [OF t'(1,2)] T(1) by simp
qed

text \<open>
  Case B. The guard of case 2 compares the node with the left child of the grandparent, which is the
  uncle, so the inner rotation never happens here. A left child of a right child is rotated to the
  inside, where the next pass finds it in case A.
\<close>

lemma fix_B:
  assumes r: "rep t (plug T (f1 # InR u BLACK g # fs))" and a: "almost T (f1 # InR u BLACK g # fs)"
    and c: "fcolor f1 = RED" "col u = BLACK"
  shows "fixed t (inorder (plug T (f1 # InR u BLACK g # fs))) (insert_fixup (troot T) t)"
proof -
  have T: "T \<noteq> Lf"
    using almost_Nd [OF a] by auto
  show ?thesis
  proof (cases f1)
    case (InL c1 p s)
    obtain t' where t': "insert_step (troot T) t = Inr (Some (troot T, t'))" "same_sent t t'"
      "rep t' (plug T (InR u RED g # InL BLACK p s # fs))"
      using step_B [OF r T c] InL by auto
    have "fixed t' (inorder (plug T (InR u RED g # InL BLACK p s # fs))) (insert_fixup (troot T) t')"
      using a c InL by (intro fix_A [OF t'(3)]) (auto simp: almost_def)
    moreover have "inorder (plug T (InR u RED g # InL BLACK p s # fs)) = inorder (plug T (f1 # InR u BLACK g # fs))"
      unfolding InL plug.simps by (intro inorder_plug_eq) simp
    ultimately show ?thesis
      using fixed_step [OF t'(1,2)] by simp
  next
    case (InR s c1 p)
    obtain t' where t': "insert_step (troot T) t = Inr (Some (troot T, t'))" "same_sent t t'"
      "rep t' (plug (Nd (Nd u RED g s) BLACK p T) fs)"
      using step_B [OF r T c] InR by auto
    have "invc (plug (Nd (Nd u RED g s) BLACK p T) fs) \<and> invh (plug (Nd (Nd u RED g s) BLACK p T) fs)"
      using a c InR by (intro plug_inv) (auto simp: almost_def)
    then have "fixed t' (inorder (plug T (InR (Nd u RED g s) BLACK p # fs))) (insert_fixup (troot T) t')"
      using t'(3) T by (intro fixed_done) auto
    moreover have "inorder (plug T (InR (Nd u RED g s) BLACK p # fs)) = inorder (plug T (f1 # InR u BLACK g # fs))"
      unfolding InR plug.simps by (intro inorder_plug_eq) simp
    ultimately show ?thesis
      using fixed_step [OF t'(1,2)] by simp
  qed
qed

lemma recolor_almost:
  assumes a: "almost T (f1 # f2 # fs)" and c: "fcolor f1 = RED" "col (sib f2) = RED"
  shows "almost (fill (fill T (fset BLACK f1)) (fsib BLACK (fset RED f2))) fs"
    "inorder (plug (fill (fill T (fset BLACK f1)) (fsib BLACK (fset RED f2))) fs) = inorder (plug T (f1 # f2 # fs))"
proof -
  obtain l u r where u: "sib f2 = Nd l RED u r"
    using c(2) by (cases "sib f2") auto
  show "almost (fill (fill T (fset BLACK f1)) (fsib BLACK (fset RED f2))) fs"
    using a c u by (cases f1; cases f2) (auto simp: almost_def)
  show "inorder (plug (fill (fill T (fset BLACK f1)) (fsib BLACK (fset RED f2))) fs) = inorder (plug T (f1 # f2 # fs))"
    unfolding plug.simps using u by (intro inorder_plug_eq) (cases f1; cases f2; auto)
qed

lemma insert_fixup_correct:
  "rep t (plug T fs) \<Longrightarrow> almost T fs \<Longrightarrow> fixed t (inorder (plug T fs)) (insert_fixup (troot T) t)"
proof (induction fs arbitrary: T t rule: measure_induct_rule [of length])
  case (less fs)
  have T: "T \<noteq> Lf"
    using almost_Nd [OF less.prems(2)] by auto
  show ?case
  proof (cases "fs = [] \<or> black_top fs")
    case True
    then have "invc (plug T fs) \<and> invh (plug T fs)"
      using less.prems(2) by (intro plug_inv) (auto simp: almost_def)
    then show ?thesis
      using fixed_done [OF less.prems(1) T True] by blast
  next
    case False
    then obtain f1 f2 gs where fs: "fs = f1 # f2 # gs" "fcolor f1 = RED" "fcolor f2 = BLACK"
      using less.prems(2) by (cases fs; cases "tl fs") (auto simp: almost_def)
    note r = less.prems(1) [unfolded fs(1)] and a = less.prems(2) [unfolded fs(1)]
    show ?thesis
    proof (cases "col (sib f2)")
      case RED
      let ?G = "fill (fill T (fset BLACK f1)) (fsib BLACK (fset RED f2))"
      obtain t' where t': "insert_step (troot T) t = Inr (Some (faddr f2, t'))" "same_sent t t'" "rep t' (plug ?G gs)"
        using step_recolor [OF r T fs(2) RED] by auto
      have "fixed t' (inorder (plug ?G gs)) (insert_fixup (troot ?G) t')"
        using fs(1) by (intro less.IH t'(3) recolor_almost(1) [OF a fs(2) RED]) simp
      then show ?thesis
        using fixed_step [OF t'(1,2)] recolor_almost(2) [OF a fs(2) RED] unfolding fs(1) by simp
    next
      case BLACK
      then show ?thesis
        using fix_A [of t T f1 _ _ gs] fix_B [of t T f1 _ _ gs] r a fs by (cases f2) auto
    qed
  qed
qed

section \<open>Search trees\<close>

definition bst :: "(nat \<Rightarrow> int) \<Rightarrow> nat list \<Rightarrow> bool" where
  "bst k xs \<longleftrightarrow> sorted_wrt (\<lambda>a b. k a < k b) xs"

lemma bst_append: "bst k (xs @ a # ys) \<longleftrightarrow>
    bst k xs \<and> bst k ys \<and> (\<forall>x\<in>set xs. k x < k a) \<and> (\<forall>y\<in>set ys. k a < k y) \<and> (\<forall>x\<in>set xs. \<forall>y\<in>set ys. k x < k y)"
  by (auto simp: bst_def sorted_wrt_append)

lemma insort_left: "(\<forall>y\<in>set (a # ys). k x < k y) \<Longrightarrow> insort_key k x (xs @ a # ys) = insort_key k x xs @ a # ys"
  by (induction xs) auto

lemma insort_right: "(\<forall>y\<in>set xs. k y < k x) \<Longrightarrow> insort_key k x (xs @ ys) = xs @ insort_key k x ys"
  by (induction xs) auto

text \<open>The parent at the end of the descent is the right one, and the new node goes to the right side.\<close>

definition fits :: "(nat \<Rightarrow> int) \<Rightarrow> nat \<Rightarrow> frame list \<Rightarrow> bool" where
  "fits k x fs \<longleftrightarrow> (case fs of [] \<Rightarrow> True | InL c a r # _ \<Rightarrow> k x < k a | InR l c a # _ \<Rightarrow> k a < k x)"

lemma fits_simps [simp]: "fits k x []" "fits k x (InL c a r # fs) \<longleftrightarrow> k x < k a" "fits k x (InR l c a # fs) \<longleftrightarrow> k a < k x"
  by (simp_all add: fits_def)

lemma plug_append: "plug T (gs @ fs) = plug (plug T gs) fs"
  by (induction gs arbitrary: T) simp_all

text \<open>The outcome of a descent through \<open>T\<close>: the key is there, or the path \<open>gs\<close> to a leaf of \<open>T\<close>.\<close>

definition descent :: "(nat \<Rightarrow> int) \<Rightarrow> nat \<Rightarrow> rb \<Rightarrow> frame list \<Rightarrow> nat option result option \<Rightarrow> bool" where
  "descent k x T fs res \<longleftrightarrow>
     (if k x \<in> k ` set (inorder T) then res = Some (Inr None)
      else \<exists>gs. T = plug Lf gs \<and> fits k x (gs @ fs) \<and> res = Some (Inr (Some (top_addr (gs @ fs)))) \<and>
             (\<forall>c. inorder (plug (Nd Lf c x Lf) gs) = insort_key k x (inorder T)))"

lemma descent_extend:
  assumes d: "descent k x T (f # fs) res"
    and k: "k x \<in> k ` set (inorder (fill T f)) \<longleftrightarrow> k x \<in> k ` set (inorder T)"
    and i: "\<And>S. inorder S = insort_key k x (inorder T) \<Longrightarrow> inorder (fill S f) = insort_key k x (inorder (fill T f))"
  shows "descent k x (fill T f) fs res"
proof (cases "k x \<in> k ` set (inorder T)")
  case True
  then show ?thesis
    using d k by (simp add: descent_def)
next
  case False
  then obtain gs where "T = plug Lf gs" "fits k x (gs @ f # fs)" "res = Some (Inr (Some (top_addr (gs @ f # fs))))"
    "\<forall>c. inorder (plug (Nd Lf c x Lf) gs) = insort_key k x (inorder T)"
    using d by (auto simp: descent_def)
  then show ?thesis
    using False k i by (auto simp: descent_def plug_append intro!: exI [of _ "gs @ [f]"])
qed

lemma descend_correct:
  assumes "rep t (plug T fs)" "bst (key_of t) (inorder T)" "not_null x" "fits (key_of t) x fs"
  shows "descent (key_of t) x T fs (descend x (troot T) (top_addr fs) t)"
  using assms
proof (induction T arbitrary: fs)
  case Lf
  then show ?case
    by (auto simp: descent_def descend.simps [of x SENTINEL] intro: exI [of _ "[]"])
next
  case (Nd l c a r)
  let ?k = "key_of t"
  note rd = rep_read [OF Nd.prems(1)]
  have b: "bst ?k (inorder l)" "bst ?k (inorder r)" "\<forall>y\<in>set (inorder l). ?k y < ?k a" "\<forall>y\<in>set (inorder r). ?k a < ?k y"
    using Nd.prems(2) by (auto simp: bst_append)
  consider "?k x < ?k a" | "?k x = ?k a" | "?k a < ?k x"
    by linarith
  then show ?case
  proof cases
    case 1
    have "descend x a (top_addr fs) t = descend x (troot l) (top_addr (InL c a r # fs)) t"
      using rd 1 Nd.prems(3) by (simp add: descend.simps [of x a] less_than_def)
    moreover have "descent ?k x l (InL c a r # fs) (descend x (troot l) (top_addr (InL c a r # fs)) t)"
      using Nd.prems 1 b by (intro Nd.IH) simp_all
    ultimately show ?thesis
      using descent_extend [of ?k x l "InL c a r" fs] 1 b(4) insort_left [of a "inorder r" ?k x "inorder l"] by force
  next
    case 2
    then show ?thesis
      using rd Nd.prems(3) by (simp add: descent_def descend.simps [of x a] less_than_def)
  next
    case 3
    have "descend x a (top_addr fs) t = descend x (troot r) (top_addr (InR l c a # fs)) t"
      using rd 3 Nd.prems(3) by (simp add: descend.simps [of x a] less_than_def)
    moreover have "descent ?k x r (InR l c a # fs) (descend x (troot r) (top_addr (InR l c a # fs)) t)"
      using Nd.prems 3 b by (intro Nd.IH) simp_all
    ultimately show ?thesis
      using descent_extend [of ?k x r "InR l c a" fs] 3 b(3) insort_right [of "inorder l @ [a]" ?k x "inorder r"] by force
  qed
qed

lemma rep_other:
  assumes "rep t W" "a \<notin> set (inorder W)" "a \<noteq> SENTINEL"
  shows "rep (t\<lparr>nodes := (nodes t)(a \<mapsto> n)\<rparr>) W"
  using assms by (auto simp: rep_def)

lemma attach_rep:
  assumes r: "rep t (plug Lf fs)" and x: "not_null x" "nodes t x = Some n" "x \<notin> set (caddrs fs)" "fits (key_of t) x fs"
  shows "\<exists>t'. attach x (top_addr fs) t = Inr t' \<and> rep t' (plug (Nd Lf RED x Lf) fs) \<and> same_sent t t'"
proof (cases fs rule: frames_cases)
  case Nil
  then show ?thesis
    using r x by (auto simp: attach_def rep_def same_sent_def insert_absorb domI)
next
  case (InL c a s gs)
  then obtain m par where m: "ctx (nodes t) (tree_root t) a par gs" "nodes t a = Some m" "not_null a" "parent m = par"
    "node_color m = c" "left m = SENTINEL" "tr (nodes t) a (right m) s" "distinct (a # inorder s @ caddrs gs)"
    "\<exists>s. nodes t SENTINEL = Some s \<and> node_color s = BLACK"
    using r rep_plug [of t Lf c a s gs] unfolding foc_def by auto
  have "a \<notin> set (inorder s)" "a \<notin> set (caddrs gs)" "x \<noteq> a" "a \<noteq> x" "x \<notin> set (inorder s)" "x \<notin> set (caddrs gs)"
    using m(8) x(3) InL by auto
  then show ?thesis
    using m x InL rep_plug [of _ "Nd Lf RED x Lf" c a s gs] unfolding foc_def
    by (simp add: attach_def less_than_def same_sent_def insert_absorb domI)
next
  case (InR s c a gs)
  then obtain m par where m: "ctx (nodes t) (tree_root t) a par gs" "nodes t a = Some m" "not_null a" "parent m = par"
    "node_color m = c" "right m = SENTINEL" "tr (nodes t) a (left m) s" "distinct (inorder s @ a # caddrs gs)"
    "\<exists>s. nodes t SENTINEL = Some s \<and> node_color s = BLACK"
    using r rep_plug [of t s c a Lf gs] unfolding foc_def by auto
  have "a \<notin> set (inorder s)" "a \<notin> set (caddrs gs)" "x \<noteq> a" "a \<noteq> x" "x \<notin> set (inorder s)" "x \<notin> set (caddrs gs)"
    using m(8) x(3) InR by auto
  then show ?thesis
    using m x InR rep_plug [of _ s c a "Nd Lf RED x Lf" gs] unfolding foc_def
    by (simp add: attach_def less_than_def same_sent_def insert_absorb domI)
qed

text \<open>A red-black search tree: what every operation may rely on.\<close>

definition rbtree_inv :: "malloc_rbtree \<Rightarrow> rb \<Rightarrow> bool" where
  "rbtree_inv t W \<longleftrightarrow> rep t W \<and> invc W \<and> invh W \<and> col W = BLACK \<and> bst (key_of t) (inorder W)"

lemma tree_root_cases: "rep t W \<Longrightarrow> tree_root t = troot W \<or> W = Lf \<and> \<not> not_null (tree_root t)"
  unfolding rep_def by (metis tr_troot)

lemma descend_root: "rep t W \<Longrightarrow> descend x (tree_root t) p t = descend x (troot W) p t"
  using tree_root_cases [of t W] descend.simps [of x "tree_root t" p t] descend.simps [of x SENTINEL p t]
  by (cases "tree_root t = troot W") auto

lemma bst_insort:
  assumes "bst k xs" "k x \<notin> k ` set xs"
  shows "bst k (insort_key k x xs)"
  using assms unfolding bst_def by (induction xs) (auto simp: set_insort_key less_le)

lemma insert_bst_new:
  assumes r: "rep t W" "bst (key_of t) (inorder W)" and x: "not_null x" "nodes t x = Some n" "x \<notin> set (inorder W)"
    and k: "key_of t x \<notin> key_of t ` set (inorder W)"
  shows "\<exists>gs t'. insert_bst x t = Some (Inr (True, t')) \<and> same_sent t t' \<and> W = plug Lf gs \<and>
           rep t' (plug (Nd Lf RED x Lf) gs) \<and> inorder (plug (Nd Lf RED x Lf) gs) = insort_key (key_of t) x (inorder W)"
proof -
  obtain gs where gs: "W = plug Lf gs" "fits (key_of t) x gs" "descend x (troot W) SENTINEL t = Some (Inr (Some (top_addr gs)))"
    "\<forall>c. inorder (plug (Nd Lf c x Lf) gs) = insort_key (key_of t) x (inorder W)"
    using descend_correct [of t W "[]" x] r x k by (auto simp: descent_def)
  have "x \<notin> set (caddrs gs)"
    using x(3) inorder_plug(1) [of Lf gs] gs(1) by auto
  from attach_rep [OF _ x(1,2) this gs(2)] r(1) gs(1) obtain t' where
    "attach x (top_addr gs) t = Inr t'" "rep t' (plug (Nd Lf RED x Lf) gs)" "same_sent t t'"
    by auto
  then show ?thesis
    using gs r(1) by (auto simp: insert_bst_def descend_root)
qed

lemma insert_node_aux:
  assumes inv: "rbtree_inv t W" and x: "not_null x" "x \<in> dom (nodes t)" "x \<notin> set (inorder W)"
  shows "if key_of t x \<in> key_of t ` set (inorder W) then \<exists>t'. insert_node x t = Some (Inr (False, t')) \<and> rbtree_inv t' W
         else \<exists>t' W'. insert_node x t = Some (Inr (True, t')) \<and> rbtree_inv t' W' \<and>
                inorder W' = insort_key (key_of t) x (inorder W)"
proof -
  obtain n where n: "nodes t x = Some n"
    using x(2) by auto
  define m where "m = n\<lparr>parent := SENTINEL, left := SENTINEL, right := SENTINEL\<rparr>"
  define t1 where "t1 = t\<lparr>nodes := (nodes t)(x \<mapsto> m)\<rparr>"
  have r1: "rep t1 W" "bst (key_of t1) (inorder W)" "nodes t1 x = Some m" and k1: "key_of t1 = key_of t"
    using inv x rep_other [of t W x m] by (auto simp: rbtree_inv_def t1_def)
  have ins: "insert_node x t = lbind (insert_bst x t1) (\<lambda>(ok, t2). if \<not> ok then Some (Inr (False, t2))
      else lbind (insert_fixup x t2) (\<lambda>t3. Some (rbind (set_color BLACK (tree_root t3) t3) (\<lambda>t4. Inr (True, t4)))))"
    using n by (simp add: insert_node_def t1_def m_def)
  show ?thesis
  proof (cases "key_of t x \<in> key_of t ` set (inorder W)")
    case True
    have "descend x (troot W) SENTINEL t1 = Some (Inr None)"
      using descend_correct [of t1 W "[]" x] r1 x(1) True k1 by (simp add: descent_def)
    then have "insert_node x t = Some (Inr (False, t1))"
      using r1(1) by (simp add: ins insert_bst_def descend_root)
    then show ?thesis
      using True inv r1(1) k1 by (simp add: rbtree_inv_def)
  next
    case False
    obtain gs t2 where 2: "insert_bst x t1 = Some (Inr (True, t2))" "same_sent t1 t2" "W = plug Lf gs"
      "rep t2 (plug (Nd Lf RED x Lf) gs)" "inorder (plug (Nd Lf RED x Lf) gs) = insort_key (key_of t1) x (inorder W)"
      using insert_bst_new [OF r1(1,2) x(1) r1(3) x(3)] False k1 by metis
    have "almost (Nd Lf RED x Lf) gs"
      using plug_inv_split [of Lf gs] inv 2(3) by (auto simp: rbtree_inv_def almost_def)
    from insert_fixup_correct [OF 2(4) this] obtain t3 V where
      3: "insert_fixup x t2 = Some (Inr t3)" "rep t3 V" "inorder V = insort_key (key_of t) x (inorder W)"
        "invc V" "invh V" "same_sent t2 t3"
      using 2(5) k1 by (auto simp: fixed_def)
    obtain l c a r where V: "V = Nd l c a r"
      using 3(3) by (cases V) (auto simp: insort_not_Nil dest: sym)
    then obtain t4 where 4: "set_color BLACK (tree_root t3) t3 = Inr t4" "rep t4 (Nd l BLACK a r)" "same_sent t3 t4"
      using rep_set_color [of t3 l c a r "[]" BLACK] 3(2) tree_root_cases [OF 3(2)] by auto
    have "key_of t4 = key_of t"
      using 2(2) 3(6) 4(3) k1 by (simp add: same_sent_def)
    then have "rbtree_inv t4 (Nd l BLACK a r)"
      using 3(3-5) 4(2) V bst_insort [of "key_of t" "inorder W" x] inv False by (auto simp: rbtree_inv_def)
    moreover have "insert_node x t = Some (Inr (True, t4))"
      using 2(1) 3(1) 4(1) by (simp add: ins)
    ultimately show ?thesis
      using 3(3) False V by auto
  qed
qed

section \<open>Search and iteration\<close>

lemma lookup_loop_correct:
  assumes "rep t (plug T fs)" "bst (key_of t) (inorder T)"
  shows "lookup_loop k (troot T) t =
           Some (Inr (case find (\<lambda>a. key_of t a = k) (inorder T) of None \<Rightarrow> 0 | Some a \<Rightarrow> a))"
  using assms
proof (induction T arbitrary: fs)
  case Lf
  then show ?case
    by (simp add: lookup_loop.simps [of k SENTINEL])
next
  case (Nd l c a r)
  note rd = rep_read [OF Nd.prems(1)]
  have b: "bst (key_of t) (inorder l)" "bst (key_of t) (inorder r)"
    "\<forall>y\<in>set (inorder l). key_of t y < key_of t a" "\<forall>y\<in>set (inorder r). key_of t a < key_of t y"
    using Nd.prems(2) by (auto simp: bst_append)
  have "troot S \<noteq> 0" if "rep t (plug S gs)" for S gs
    using that rep_read(5) [of t _ _ _ _ gs] by (cases S) (force simp: SENTINEL_def)+
  then have nz: "troot l \<noteq> 0" "troot r \<noteq> 0"
    using Nd.prems(1) by (metis fill.simps plug.simps(2))+
  have fl: "find P (xs @ ys) = (case find P xs of None \<Rightarrow> find P ys | Some v \<Rightarrow> Some v)" for P :: "nat \<Rightarrow> bool" and xs ys
    by (induction xs) auto
  consider "k < key_of t a" | "k = key_of t a" | "key_of t a < k"
    by linarith
  then show ?case
  proof cases
    case 1
    have "find (\<lambda>a. key_of t a = k) (a # inorder r) = None"
      using 1 b(4) by (auto simp: find_None_iff)
    then show ?thesis
      using rd 1 nz Nd.IH(1) [of "InL c a r # fs"] Nd.prems(1) b(1)
      by (simp add: lookup_loop.simps [of k a] less_than_key_node_def fl split: option.split)
  next
    case 2
    have "find (\<lambda>x. key_of t x = k) (inorder l) = None"
      using 2 b(3) by (auto simp: find_None_iff)
    then show ?thesis
      using rd 2 by (simp add: lookup_loop.simps [of _ a] less_than_key_node_def less_than_node_key_def fl)
  next
    case 3
    have "find (\<lambda>x. key_of t x = k) (inorder l) = None"
      using 3 b(3) by (auto simp: find_None_iff)
    then show ?thesis
      using rd 3 nz Nd.IH(2) [of "InR l c a # fs"] Nd.prems(1) b(2)
      by (simp add: lookup_loop.simps [of k a] less_than_key_node_def less_than_node_key_def fl)
  qed
qed

lemma leftmost_correct:
  assumes "rep t (plug (Nd l c a r) fs)"
  shows "leftmost a t = Some (Inr (hd (inorder (Nd l c a r))))"
  using assms
proof (induction l arbitrary: c a r fs)
  case Lf
  then show ?case
    using rep_read [OF Lf] by (simp add: leftmost.simps [of a])
next
  case (Nd ll cc b rr)
  have L: "rep t (plug (Nd ll cc b rr) (InL c a r # fs))"
    using Nd.prems by simp
  have "leftmost a t = leftmost b t"
    using rep_read [OF Nd.prems] rep_read(5) [OF L] by (simp add: leftmost.simps [of a])
  then show ?case
    using Nd.IH(1) [OF L] by (simp add: hd_append)
qed

lemma climb_correct:
  assumes "rep t (plug T fs)" "T \<noteq> Lf"
  shows "\<exists>pre post. inorder (plug T fs) = pre @ inorder T @ post \<and>
           climb (troot T) t = Some (Inr (case post of [] \<Rightarrow> 0 | b # _ \<Rightarrow> b))"
  using assms
proof (induction fs arbitrary: T)
  case Nil
  then have "get_fld parent (troot T) t = Inr SENTINEL"
    using rep_read(4) [of t _ _ _ _ "[]"] by (cases T) auto
  then show ?case
    by (intro exI [of _ "[]"]) (simp add: climb.simps [of "troot T"])
next
  case (Cons f fs)
  note p = rep_parent [OF Cons.prems]
  have nn: "not_null (faddr f)"
    using Cons.prems(1) rep_read(5) [of t _ _ "faddr f" _ fs] by (cases f) auto
  obtain pre post where pp: "inorder (plug (fill T f) fs) = pre @ inorder (fill T f) @ post"
    "climb (faddr f) t = Some (Inr (case post of [] \<Rightarrow> 0 | b # _ \<Rightarrow> b))"
    using Cons.IH [of "fill T f"] Cons.prems(1) by auto
  show ?case
  proof (cases f)
    case (InL c a r)
    then have "get_fld left a t = Inr (troot T)"
      using rep_read(2) [of t T c a r fs] Cons.prems(1) by simp
    then have "climb (troot T) t = Some (Inr a)"
      using p nn InL by (simp add: climb.simps [of "troot T"])
    then show ?thesis
      using pp(1) InL by (intro exI [of _ pre] exI [of _ "a # inorder r @ post"]) simp
  next
    case (InR l c a)
    then have l: "get_fld left a t = Inr (troot l)"
      using rep_read(2) [of t l c a T fs] Cons.prems(1) by simp
    have "distinct (inorder l @ a # inorder T)"
      using Cons.prems(1) InR inorder_plug(2) [of "Nd l c a T" fs] by (auto simp: rep_def)
    moreover have "not_null (troot T)" "troot T \<in> set (inorder T)"
      using Cons.prems rep_read(5) [of t _ _ _ _ "f # fs"] by (cases T; auto)+
    moreover have "troot l = SENTINEL \<or> troot l \<in> set (inorder l)"
      by (cases l) auto
    ultimately have "troot T \<noteq> troot l"
      by auto
    then have "climb (troot T) t = climb a t"
      using p nn InR l by (simp add: climb.simps [of "troot T"])
    then show ?thesis
      using pp InR by (intro exI [of _ "pre @ inorder l @ [a]"] exI [of _ post]) simp
  qed
qed

lemma focus_exists: "a \<in> set (inorder W) \<Longrightarrow> \<exists>l c r fs. W = plug (Nd l c a r) fs"
proof (induction W)
  case (Nd L d b R)
  then consider "a = b" | "a \<in> set (inorder L)" | "a \<in> set (inorder R)"
    by auto
  then show ?case
  proof cases
    case 1
    then show ?thesis
      by (intro exI [of _ L] exI [of _ d] exI [of _ R] exI [of _ "[]"]) simp
  next
    case 2
    then obtain l c r fs where "L = plug (Nd l c a r) fs"
      using Nd.IH(1) by blast
    then have "Nd L d b R = plug (Nd l c a r) (fs @ [InL d b R])"
      by (simp add: plug_append)
    then show ?thesis
      by blast
  next
    case 3
    then obtain l c r fs where "R = plug (Nd l c a r) fs"
      using Nd.IH(2) by blast
    then have "Nd L d b R = plug (Nd l c a r) (fs @ [InR L d b])"
      by (simp add: plug_append)
    then show ?thesis
      by blast
  qed
qed simp

lemma next_node_aux:
  assumes r: "rep t W" and a: "inorder W = xs @ a # ys"
  shows "next_node a t = Some (Inr (case ys of [] \<Rightarrow> 0 | b # _ \<Rightarrow> b))"
proof -
  obtain l c rt fs where W: "W = plug (Nd l c a rt) fs"
    using focus_exists [of a W] a by auto
  note R = r [unfolded W]
  obtain pre post where pp: "inorder W = pre @ inorder (Nd l c a rt) @ post"
    "climb a t = Some (Inr (case post of [] \<Rightarrow> 0 | b # _ \<Rightarrow> b))"
    using climb_correct [OF R] W by auto
  have "distinct (xs @ a # ys)"
    using r a by (simp add: rep_def)
  then have "a \<notin> set xs" "a \<notin> set ys"
    by simp_all
  moreover have "xs @ a # ys = (pre @ inorder l) @ a # (inorder rt @ post)"
    using pp(1) a by simp
  ultimately have ys: "ys = inorder rt @ post"
    using append_Cons_eq_iff [of a xs ys "pre @ inorder l" "inorder rt @ post"] by blast
  show ?thesis
  proof (cases rt)
    case Lf
    then show ?thesis
      using rep_read [OF R] pp(2) ys by (simp add: next_node_def)
  next
    case (Nd rl rc b rr)
    have "rep t (plug (Nd rl rc b rr) (InR l c a # fs))"
      using R Nd by simp
    note L = leftmost_correct [OF this] rep_read(5) [OF this]
    have "hd (inorder rt) = (case ys of [] \<Rightarrow> 0 | b # _ \<Rightarrow> b)"
      using ys Nd by (auto simp: neq_Nil_conv hd_append split: list.splits)
    then show ?thesis
      using rep_read [OF R] L Nd by (simp add: next_node_def begin_node_def)
  qed
qed

section \<open>Erasing a black node with a red successor\<close>

lemma transplant_ctx:
  assumes "ctx (nodes t) (tree_root t) u (parent nu) fs" "nodes t u = Some nu" "not_null u" "u \<notin> set (caddrs fs)" "distinct (caddrs fs)"
    "nodes t v = Some nv" "v \<notin> set (caddrs fs)" "v \<noteq> u"
  shows "\<exists>t'. transplant u v t = Inr t' \<and> ctx (nodes t') (tree_root t') v (parent nu) fs \<and> nodes t' v = Some (nv\<lparr>parent := parent nu\<rparr>) \<and>
    (\<forall>a. a \<notin> set (caddrs fs) \<longrightarrow> a \<noteq> v \<longrightarrow> nodes t' a = nodes t a) \<and> dom (nodes t') = dom (nodes t)"
proof (cases fs rule: frames_cases)
  case Nil
  then show ?thesis
    using assms by (auto simp: transplant_def)
next
  case (InL c a r gs)
  then obtain n where n: "nodes t a = Some n" "parent nu = a" "not_null a" "node_color n = c" "left n = u" "tr (nodes t) a (right n) r"
      "ctx (nodes t) (tree_root t) a (parent n) gs"
    using assms(1) by auto
  have "a \<noteq> u" "u \<noteq> a" "a \<noteq> v" "v \<noteq> a" "a \<notin> set (inorder r)" "a \<notin> set (caddrs gs)" "v \<notin> set (inorder r)" "v \<notin> set (caddrs gs)"
    using assms(4,5,7) InL by auto
  then show ?thesis
    using n InL assms(2,6,8) by (auto simp: transplant_def)
next
  case (InR l c a gs)
  then obtain n where n: "nodes t a = Some n" "parent nu = a" "not_null a" "node_color n = c" "right n = u" "tr (nodes t) a (left n) l"
      "ctx (nodes t) (tree_root t) a (parent n) gs"
    using assms(1) by auto
  have "a \<noteq> u" "u \<noteq> a" "a \<noteq> v" "v \<noteq> a" "a \<notin> set (inorder l)" "a \<notin> set (caddrs gs)" "v \<notin> set (inorder l)" "v \<notin> set (caddrs gs)"
    using assms(4,5,7) InR by auto
  moreover have "u \<noteq> left n"
    using n(6) assms(3,4) InR tr_not_at [of u l "nodes t" a] by auto
  ultimately show ?thesis
    using n InR assms(2,6,8) by (auto simp: transplant_def)
qed

text \<open>\<open>z\<close> is replaced by \<open>y\<close>, a node whose right link is in place already; \<open>x\<close> is the node that moved to the place of \<open>y\<close>.\<close>

definition take_place :: "nat \<Rightarrow> nat \<Rightarrow> malloc_rbtree \<Rightarrow> malloc_rbtree result" where
  "take_place z y t3 =
     rbind (transplant z y t3) (\<lambda>t4.
     rbind (get_fld left z t4) (\<lambda>zl.
     rbind (set_fld (\<lambda>n. n\<lparr>left := zl\<rparr>) y t4) (\<lambda>t5.
     rbind (set_fld (\<lambda>n. n\<lparr>parent := y\<rparr>) zl t5) (\<lambda>t6.
     rbind (get_fld node_color z t6) (\<lambda>c. set_color c y t6)))))"

lemma take_place_rep:
  assumes c: "ctx (nodes t) (tree_root t) z (parent nz) fs" "distinct (inorder L @ z # y # inorder R @ caddrs fs)"
    and z: "nodes t z = Some nz" "not_null z" "tr (nodes t) z (left nz) L" "L \<noteq> Lf"
    and y: "nodes t y = Some ny" "not_null y" "tr (nodes t) y (right ny) R"
    and s: "nodes t SENTINEL = Some s" "node_color s = BLACK"
  shows "\<exists>t'. take_place z y t = Inr t' \<and> rep t' (plug (Nd L (node_color nz) y R) fs) \<and> nodes t' SENTINEL = Some s \<and>
    dom (nodes t') = dom (nodes t)"
proof -
  obtain t4 where t4: "transplant z y t = Inr t4" "ctx (nodes t4) (tree_root t4) y (parent nz) fs"
      "nodes t4 y = Some (ny\<lparr>parent := parent nz\<rparr>)" "\<And>a. a \<notin> set (caddrs fs) \<Longrightarrow> a \<noteq> y \<Longrightarrow> nodes t4 a = nodes t a"
      "dom (nodes t4) = dom (nodes t)"
    using transplant_ctx [OF c(1) z(1,2) _ _ y(1)] c(2) by auto
  obtain LL d l LR where L: "L = Nd LL d l LR"
    using z(4) by (cases L) auto
  obtain nl where nl: "nodes t l = Some nl" "node_color nl = d" "left nz = l" "not_null l" "tr (nodes t) l (left nl) LL" "tr (nodes t) l (right nl) LR"
    using z(3) L by auto
  have d: "l \<noteq> y" "y \<noteq> l" "z \<noteq> y" "y \<noteq> z" "l \<noteq> z" "z \<noteq> l" "z \<notin> set (caddrs fs)" "l \<notin> set (caddrs fs)" "y \<notin> set (caddrs fs)"
      "SENTINEL \<notin> set (caddrs fs)" "y \<notin> set (inorder LL)" "y \<notin> set (inorder LR)" "y \<notin> set (inorder R)"
      "l \<notin> set (inorder LL)" "l \<notin> set (inorder LR)" "l \<notin> set (inorder R)"
    using c(2) L ctx_not_null [OF c(1), of SENTINEL] by auto
  have rd: "nodes t4 z = Some nz" "nodes t4 l = Some nl" "nodes t4 SENTINEL = Some s"
    using t4(4) d z(1) y(2) nl(1) s(1) by auto
  have same: "nodes t4 a = nodes t a" if "a \<in> set (inorder LL) \<union> set (inorder LR) \<union> set (inorder R)" for a
    using that c(2) L by (intro t4(4)) auto
  have tr: "tr (nodes t4) l (left nl) LL" "tr (nodes t4) l (right nl) LR" "tr (nodes t4) y (right ny) R"
    using nl(5,6) y(3) same tr_cong [of _ "nodes t4" "nodes t"] by auto
  have "rep (t4\<lparr>nodes := (nodes t4)(l \<mapsto> nl\<lparr>parent := y\<rparr>, y \<mapsto> ny\<lparr>parent := parent nz, left := l, node_color := node_color nz\<rparr>)\<rparr>)
      (plug (Nd L (node_color nz) y R) fs)"
    unfolding rep_plug foc_def using t4(2) tr d L nl(2,4) y(2) s c(2) rd(3) by auto
  moreover have "take_place z y t = Inr (t4\<lparr>nodes := (nodes t4)(l \<mapsto> nl\<lparr>parent := y\<rparr>, y \<mapsto> ny\<lparr>parent := parent nz, left := l, node_color := node_color nz\<rparr>)\<rparr>)"
    using t4(1,3) rd d nl(3) by (simp add: take_place_def set_color_def fun_upd_twist)
  ultimately show ?thesis
    using d rd(3) t4(3,5) rd(2) y(2) nl(4) by (auto simp: domI insert_absorb)
qed

lemma rbind_assoc: "rbind (rbind m f) g = rbind m (\<lambda>x. rbind (f x) g)"
  by (cases m) simp_all

lemma erase_splice_eq:
  "erase_splice z y t =
     rbind (get_fld right y t) (\<lambda>x.
     rbind (get_fld parent y t) (\<lambda>yp.
     rbind (if yp = z then set_fld (\<lambda>n. n\<lparr>parent := y\<rparr>) x t
            else rbind (transplant y x t) (\<lambda>t1.
                 rbind (get_fld right z t1) (\<lambda>zr.
                 rbind (set_fld (\<lambda>n. n\<lparr>right := zr\<rparr>) y t1) (\<lambda>t2. set_fld (\<lambda>n. n\<lparr>parent := y\<rparr>) zr t2)))) (\<lambda>t3.
     rbind (take_place z y t3) (\<lambda>t7. Inr (x, t7)))))"
  by (simp add: erase_splice_def take_place_def rbind_assoc)

lemma erase_splice_near:
  assumes "rep t (plug (Nd L c z (Nd Lf d y Lf)) fs)" "L \<noteq> Lf" "nodes t SENTINEL = Some s"
  shows "\<exists>t1. erase_splice z y t = Inr (SENTINEL, t1) \<and> rep t1 (plug (Nd L c y Lf) fs) \<and>
    nodes t1 SENTINEL = Some (s\<lparr>parent := y\<rparr>) \<and> dom (nodes t1) = dom (nodes t)"
proof -
  obtain nz ny where n: "ctx (nodes t) (tree_root t) z (parent nz) fs" "nodes t z = Some nz" "node_color nz = c" "not_null z"
      "tr (nodes t) z (left nz) L" "nodes t y = Some ny" "not_null y" "parent ny = z" "left ny = SENTINEL" "right ny = SENTINEL"
      "distinct (inorder L @ z # y # caddrs fs)" "node_color s = BLACK"
    using assms(1,3) unfolding rep_plug foc_def by auto
  let ?t = "t\<lparr>nodes := (nodes t)(SENTINEL \<mapsto> s\<lparr>parent := y\<rparr>)\<rparr>"
  have sent: "SENTINEL \<notin> set (inorder L)" "SENTINEL \<notin> set (caddrs fs)"
    using tr_not_null [OF n(5), of SENTINEL] ctx_not_null [OF n(1), of SENTINEL] by auto
  have "\<exists>t'. take_place z y ?t = Inr t' \<and> rep t' (plug (Nd L (node_color nz) y Lf) fs) \<and>
      nodes t' SENTINEL = Some (s\<lparr>parent := y\<rparr>) \<and> dom (nodes t') = dom (nodes ?t)"
    by (rule take_place_rep) (use n sent assms(2) in auto)
  then show ?thesis
    using n(3,6,8,10) assms(3) by (auto simp: erase_splice_eq domI insert_absorb)
qed

lemma erase_splice_far:
  assumes "rep t (plug (Nd L c z (plug (Nd Lf d y Lf) gs)) fs)" "L \<noteq> Lf" "nodes t SENTINEL = Some s" "gs = InL k p B # hs"
  shows "\<exists>t1. erase_splice z y t = Inr (SENTINEL, t1) \<and> rep t1 (plug (Nd L c y (plug Lf gs)) fs) \<and>
    nodes t1 SENTINEL = Some (s\<lparr>parent := p\<rparr>) \<and> dom (nodes t1) = dom (nodes t)"
proof -
  have "rep t (plug (Nd Lf d y Lf) (gs @ InR L c z # fs))"
    using assms(1) by (simp add: plug_append)
  then obtain ny where y: "ctx (nodes t) (tree_root t) y (parent ny) (gs @ InR L c z # fs)" "nodes t y = Some ny" "not_null y"
      "right ny = SENTINEL" "distinct (y # caddrs (gs @ InR L c z # fs))" "node_color s = BLACK"
    using assms(3) unfolding rep_plug foc_def by auto
  then have py: "parent ny = p" using assms(4) by auto
  have sent: "SENTINEL \<notin> set (caddrs (gs @ InR L c z # fs))"
    using ctx_not_null [OF y(1), of SENTINEL] by auto
  obtain t1 where t1: "transplant y SENTINEL t = Inr t1" "ctx (nodes t1) (tree_root t1) SENTINEL p (gs @ InR L c z # fs)"
      "nodes t1 SENTINEL = Some (s\<lparr>parent := p\<rparr>)" "nodes t1 y = Some ny" "dom (nodes t1) = dom (nodes t)"
    using transplant_ctx [OF y(1-3) _ _ assms(3) sent] y(2,3,5) py by auto
  have "tr (nodes t1) SENTINEL (tree_root t1) (plug Lf (gs @ InR L c z # fs))"
    unfolding tr_plug using t1(2) by auto
  moreover have "plug Lf (gs @ InR L c z # fs) = plug (Nd L c z (plug Lf gs)) fs"
    by (simp add: plug_append)
  ultimately obtain par where z: "ctx (nodes t1) (tree_root t1) z par fs" "tr (nodes t1) par z (Nd L c z (plug Lf gs))"
    using tr_plug [of "nodes t1" "tree_root t1" "Nd L c z (plug Lf gs)" fs] by auto
  then obtain nz where nz: "nodes t1 z = Some nz" "node_color nz = c" "parent nz = par" "not_null z" "tr (nodes t1) z (left nz) L"
      "tr (nodes t1) z (right nz) (plug Lf gs)"
    by auto
  obtain RL e q RR where R: "plug Lf gs = Nd RL e q RR"
    using assms(4) by (cases "plug Lf gs") (simp_all add: plug_Nd)
  obtain nq where nq: "right nz = q" "nodes t1 q = Some nq" "node_color nq = e" "not_null q"
      "tr (nodes t1) q (left nq) RL" "tr (nodes t1) q (right nq) RR"
    using nz(6) R by auto
  have dis: "distinct (inorder L @ z # y # inorder (plug Lf gs) @ caddrs fs)"
    using y(5) inorder_plug [of Lf gs] by (auto simp: caddrs_def)
  let ?t = "t1\<lparr>nodes := (nodes t1)(y \<mapsto> ny\<lparr>right := q\<rparr>, q \<mapsto> nq\<lparr>parent := y\<rparr>)\<rparr>"
  have q: "q \<noteq> y" "y \<noteq> q" "z \<noteq> q" "q \<noteq> z" "y \<noteq> z" "z \<noteq> y" "q \<notin> set (inorder L)" "q \<notin> set (caddrs fs)" "y \<notin> set (inorder L)" "y \<notin> set (caddrs fs)"
      "q \<notin> set (inorder RL)" "q \<notin> set (inorder RR)" "y \<notin> set (inorder RL)" "y \<notin> set (inorder RR)"
    using dis R by auto
  have "\<exists>t'. take_place z y ?t = Inr t' \<and> rep t' (plug (Nd L (node_color nz) y (plug Lf gs)) fs) \<and>
      nodes t' SENTINEL = Some (s\<lparr>parent := p\<rparr>) \<and> dom (nodes t') = dom (nodes ?t)"
    by (rule take_place_rep [OF _ dis, where nz = nz and ny = "ny\<lparr>right := q\<rparr>"]) (use z(1) nz nq q R y(3,6) t1(3,4) assms(2) in auto)
  moreover have "p \<noteq> z"
    using y(5) assms(4) by (auto simp: caddrs_def)
  then have "erase_splice z y t = rbind (take_place z y ?t) (\<lambda>t7. Inr (SENTINEL, t7))"
    using y(2,4) py t1(1,4) nz(1) nq(1,2) q by (simp add: erase_splice_eq)
  moreover have "dom (nodes ?t) = dom (nodes t)"
    using t1(4) nq(2) by (simp add: insert_absorb domI flip: t1(5))
  ultimately show ?thesis
    using nz(2) by auto
qed

text \<open>A fixup that starts at the sentinel and whose sibling is a leaf, or a red node without children, reads a colour through
  the links of the sentinel.\<close>

lemma bheight_0: "invc S \<Longrightarrow> invh S \<Longrightarrow> bheight S = 0 \<Longrightarrow> S = Lf \<or> (\<exists>b. S = Nd Lf RED b Lf)"
proof (cases S)
  case (Nd l c a r)
  assume "invc S" "invh S" "bheight S = 0"
  then show ?thesis
    using Nd by (cases l; cases r) (auto split: if_splits)
qed simp

lemma side_sentinel:
  "nodes t SENTINEL = Some s \<Longrightarrow> nodes t (side s) = None \<Longrightarrow> child_black side SENTINEL t = Inl Wild"
  by (simp add: child_black_def get_fld_def)

lemma case1_red:
  assumes "rep t (plug Lf (f # fs))" "nodes t SENTINEL = Some s" "parent s = faddr f" "sib f = Nd Lf RED b Lf"
  shows "\<exists>t1. (case f of InL c a r \<Rightarrow> delete_case1 right rotation_left SENTINEL t | InR l c a \<Rightarrow> delete_case1 left rotation_right SENTINEL t)
      = Inr (SENTINEL, t1) \<and> same_sent t t1"
proof -
  obtain t1 where 1: "set_color BLACK b t = Inr t1" "rep t1 (plug Lf (fsib BLACK f # fs))" "same_sent t t1"
    using rep_set_sib [OF assms(1), of BLACK] assms(4) by auto
  obtain t2 where 2: "set_color RED (faddr f) t1 = Inr t2" "rep t2 (plug Lf (fset RED (fsib BLACK f) # fs))" "same_sent t1 t2"
    using rep_set_frame [OF 1(2), of RED] by auto
  have s: "nodes t1 SENTINEL = Some s" "nodes t2 SENTINEL = Some s"
    using 1(3) 2(3) assms(2) by (simp_all add: same_sent_def)
  show ?thesis
  proof (cases f)
    case (InL c a r)
    then have rd: "get_fld right a t = Inr b" "get_fld node_color b t = Inr RED"
      using rep_read(3) [of t Lf c a r fs] rep_child(2) [of t Lf c a r fs] assms(1,4) by auto
    obtain t3 where 3: "rotation_left a t2 = Inr t3" "rep t3 (plug (Nd (Nd Lf RED a Lf) BLACK b Lf) fs)" "same_sent t2 t3"
      using rep_rotation_left [of t2 Lf RED a Lf BLACK b Lf fs] 2(2) InL assms(4) by auto
    have "get_fld right a t3 = Inr SENTINEL" "nodes t3 SENTINEL = Some s"
      using rep_read(3) [of t3 Lf RED a Lf "InL BLACK b Lf # fs"] 3(2,3) s(2) by (simp_all add: same_sent_def)
    then show ?thesis
      using InL rd 1(1) 2(1) 3(1) s assms(2,3) same_sent_trans [OF same_sent_trans [OF 1(3) 2(3)] 3(3)]
      by (simp add: delete_case1_def)
  next
    case (InR l c a)
    then have rd: "get_fld left a t = Inr b" "get_fld node_color b t = Inr RED"
      using rep_read(2) [of t l c a Lf fs] rep_child(1) [of t l c a Lf fs] assms(1,4) by auto
    obtain t3 where 3: "rotation_right a t2 = Inr t3" "rep t3 (plug (Nd Lf BLACK b (Nd Lf RED a Lf)) fs)" "same_sent t2 t3"
      using rep_rotation_right [of t2 Lf BLACK b Lf RED a Lf fs] 2(2) InR assms(4) by auto
    have "get_fld left a t3 = Inr SENTINEL" "nodes t3 SENTINEL = Some s"
      using rep_read(2) [of t3 Lf RED a Lf "InR Lf BLACK b # fs"] 3(2,3) s(2) by (simp_all add: same_sent_def)
    then show ?thesis
      using InR rd 1(1) 2(1) 3(1) s assms(2,3) same_sent_trans [OF same_sent_trans [OF 1(3) 2(3)] 3(3)]
      by (simp add: delete_case1_def)
  qed
qed

lemma case1_leaf:
  assumes "rep t (plug Lf (InL c a Lf # fs))" "nodes t SENTINEL = Some s" "parent s = a"
  shows "delete_case1 right rotation_left SENTINEL t = Inr (SENTINEL, t)"
  using assms rep_read(3) [of t Lf c a Lf fs] by (auto simp: delete_case1_def rep_def)

lemma side_wild:
  assumes "delete_case1 far rot SENTINEL t = Inr (SENTINEL, t1)" "same_sent t t1" "nodes t SENTINEL = Some s" "nodes t (near s) = None"
  shows "delete_side near far rot rot' SENTINEL t = Inl Wild"
proof -
  have "nodes t1 SENTINEL = Some s" "nodes t1 (near s) = None"
    using assms(2-4) unfolding same_sent_def by (metis domIff)+
  then show ?thesis
    using assms(1) side_sentinel [of t1 s near] by (simp add: delete_side_def)
qed

lemma fixup_wild:
  assumes r: "rep t (plug Lf (f # fs))" and s: "nodes t SENTINEL = Some s" "parent s = faddr f" "nodes t (left s) = None" "nodes t (right s) = None"
    and sb: "(\<exists>b. sib f = Nd Lf RED b Lf) \<or> (\<exists>c a. f = InL c a Lf)"
  shows "delete_fixup_loop SENTINEL t = Some (Inl Wild)"
proof -
  obtain l c a rr where F: "fill Lf f = Nd l c a rr" "a = faddr f"
    by (cases f) auto
  have R: "rep t (plug (Nd l c a rr) fs)"
    using r F(1) by simp
  then have "not_null (tree_root t)" "node_color s = BLACK"
    using s(1) plug_Nd [of l c a rr fs] unfolding rep_def by (cases "plug (Nd l c a rr) fs"; auto)+
  then have c: "SENTINEL \<noteq> tree_root t" "node_color s = BLACK"
    by auto
  show ?thesis
  proof (cases f)
    case (InL k b S)
    obtain t1 where "delete_case1 right rotation_left SENTINEL t = Inr (SENTINEL, t1)" "same_sent t t1"
      using case1_leaf [of t k b fs s] case1_red [OF r s(1,2)] sb r s(1,2) InL by (auto simp: same_sent_def)
    from side_wild [OF this s(1), of left] s(3)
    have "delete_side left right rotation_left rotation_right SENTINEL t = Inl Wild"
      by blast
    then show ?thesis
      using c s rep_read(2) [OF R] F InL by (simp add: delete_fixup_loop.simps [of SENTINEL])
  next
    case (InR S k b)
    then obtain d where d: "S = Nd Lf RED d Lf"
      using sb by auto
    obtain t1 where "delete_case1 left rotation_right SENTINEL t = Inr (SENTINEL, t1)" "same_sent t t1"
      using case1_red [OF r s(1,2), of d] d InR by auto
    from side_wild [OF this s(1), of right] s(4)
    have "delete_side right left rotation_right rotation_left SENTINEL t = Inl Wild"
      by blast
    moreover have "get_fld left b t = Inr d" "SENTINEL \<noteq> d"
      using rep_read(2) [OF R] rep_read(5) [of t Lf RED d Lf "InL c a rr # fs"] R F InR d by auto
    ultimately show ?thesis
      using c s F InR by (simp add: delete_fixup_loop.simps [of SENTINEL])
  qed
qed

lemma leftmost_focus:
  "R \<noteq> Lf \<Longrightarrow> \<exists>d y r gs. R = plug (Nd Lf d y r) gs \<and> y = hd (inorder R) \<and> (\<forall>f \<in> set gs. \<exists>k p B. f = InL k p B)"
proof (induction R)
  case (Nd l c a r)
  show ?case
  proof (cases "l = Lf")
    case True
    then show ?thesis
      by (intro exI [of _ c] exI [of _ a] exI [of _ r] exI [of _ "[]"]) simp
  next
    case False
    then obtain d y rr gs where "l = plug (Nd Lf d y rr) gs" "y = hd (inorder l)" "\<forall>f \<in> set gs. \<exists>k p B. f = InL k p B"
      using Nd.IH(1) by blast
    moreover have "inorder l \<noteq> []"
      using False by (cases l) auto
    ultimately show ?thesis
      by (intro exI [of _ d] exI [of _ y] exI [of _ rr] exI [of _ "gs @ [InL c a r]"]) (auto simp: plug_append)
  qed
qed simp

lemma erase_splice_red:
  assumes inv: "rbtree_inv t (plug (Nd L BLACK z (plug (Nd Lf RED y r) gs)) fs)" and L: "L \<noteq> Lf" and s: "nodes t SENTINEL = Some s"
    and gs: "\<forall>f \<in> set gs. \<exists>k p B. f = InL k p B"
  shows "\<exists>t1 f hs. erase_splice z y t = Inr (SENTINEL, t1) \<and> rep t1 (plug Lf (f # hs)) \<and> nodes t1 SENTINEL = Some (s\<lparr>parent := faddr f\<rparr>) \<and>
    dom (nodes t1) = dom (nodes t) \<and> ((\<exists>b. sib f = Nd Lf RED b Lf) \<or> (\<exists>c a. f = InL c a Lf))"
proof -
  let ?F = "gs @ InR L BLACK z # fs"
  have W: "plug (Nd L BLACK z (plug (Nd Lf RED y r) gs)) fs = plug (Nd Lf RED y r) ?F"
    by (simp add: plug_append)
  have "invc (Nd Lf RED y r) \<and> invh (Nd Lf RED y r) \<and> cinvc ?F \<and> cinvh 0 ?F"
    using inv plug_inv_split [of "Nd Lf RED y r" ?F] unfolding rbtree_inv_def W by simp
  moreover from this have r: "r = Lf"
    by (cases r) (auto split: if_splits)
  ultimately have sb: "sib (hd ?F) = Lf \<or> (\<exists>b. sib (hd ?F) = Nd Lf RED b Lf)"
    using bheight_0 [of "sib (hd ?F)"] by (cases ?F) auto
  have rep: "rep t (plug (Nd L BLACK z (plug (Nd Lf RED y Lf) gs)) fs)"
    using inv r by (simp add: rbtree_inv_def)
  show ?thesis
  proof (cases gs)
    case Nil
    then obtain t1 where "erase_splice z y t = Inr (SENTINEL, t1)" "rep t1 (plug (Nd L BLACK y Lf) fs)"
        "nodes t1 SENTINEL = Some (s\<lparr>parent := y\<rparr>)" "dom (nodes t1) = dom (nodes t)"
      using erase_splice_near [of t L BLACK z RED y fs s] rep L s by auto
    then show ?thesis
      using sb L Nil by (intro exI [of _ t1] exI [of _ "InR L BLACK y"] exI [of _ fs]) auto
  next
    case (Cons f hs)
    then obtain k p B where f: "gs = InL k p B # hs"
      using gs by auto
    obtain t1 where "erase_splice z y t = Inr (SENTINEL, t1)" "rep t1 (plug (Nd L BLACK y (plug Lf gs)) fs)"
        "nodes t1 SENTINEL = Some (s\<lparr>parent := p\<rparr>)" "dom (nodes t1) = dom (nodes t)"
      using erase_splice_far [OF rep L s f] by blast
    then show ?thesis
      using sb f by (intro exI [of _ t1] exI [of _ "InL k p B"] exI [of _ "hs @ InR L BLACK y # fs"]) (auto simp: plug_append)
  qed
qed

text \<open>
  C3. Inserting a node into a red-black search tree ends, and it fails exactly when the key is there.
  Otherwise the store afterwards represents a red-black search tree (no red node has a red child, every
  path has the same number of black nodes, the root is black) with the new node at its place in key
  order. This holds although the guard of case 2 on the right side tests the wrong pointer.
\<close>

theorem insert_node_correct:
  assumes "rbtree_inv t W" "not_null x" "x \<in> dom (nodes t)" "x \<notin> set (inorder W)"
  shows "if key_of t x \<in> key_of t ` set (inorder W)
         then \<exists>t'. insert_node x t = Some (Inr (False, t')) \<and> rbtree_inv t' W
         else \<exists>t' W'. insert_node x t = Some (Inr (True, t')) \<and> rbtree_inv t' W' \<and>
                inorder W' = insort_key (key_of t) x (inorder W)"
  by (rule insert_node_aux [OF assms])

definition demo_node :: rbtree_node where
  "demo_node = \<lparr>node_color = RED, left = 0, right = 0, parent = 0\<rparr>"

definition demo_tree :: malloc_rbtree where
  "demo_tree = malloc_rbtree_base demo_node [16 \<mapsto> demo_node, 32 \<mapsto> demo_node, 48 \<mapsto> demo_node] int"

lemma demo_tree_inv: "rbtree_inv demo_tree Lf"
  by (simp add: rbtree_inv_def rep_def demo_tree_def malloc_rbtree_base_def bst_def)

theorem insert_node_correct_witness:
  "\<exists>t' W'. insert_node 16 demo_tree = Some (Inr (True, t')) \<and> rbtree_inv t' W' \<and> inorder W' = [16]"
  using insert_node_correct [OF demo_tree_inv, of 16]
  by (simp add: not_null_def SENTINEL_def demo_tree_def malloc_rbtree_base_def)

text \<open>A root with two red children.\<close>

definition three_nodes :: malloc_rbtree where
  "three_nodes =
     \<lparr>nodes = [SENTINEL \<mapsto> \<lparr>node_color = BLACK, left = 0, right = 0, parent = 0\<rparr>,
               16 \<mapsto> \<lparr>node_color = RED, left = SENTINEL, right = SENTINEL, parent = 32\<rparr>,
               32 \<mapsto> \<lparr>node_color = BLACK, left = 16, right = 48, parent = SENTINEL\<rparr>,
               48 \<mapsto> \<lparr>node_color = RED, left = SENTINEL, right = SENTINEL, parent = 32\<rparr>],
      tree_root = 32, key_of = int\<rparr>"

lemma three_nodes_rep: "rep three_nodes (Nd (Nd Lf RED 16 Lf) BLACK 32 (Nd Lf RED 48 Lf))"
  by (simp add: rep_def three_nodes_def not_null_def SENTINEL_def)

lemma three_nodes_inv: "rbtree_inv three_nodes (Nd (Nd Lf RED 16 Lf) BLACK 32 (Nd Lf RED 48 Lf))"
  using three_nodes_rep by (simp add: rbtree_inv_def bst_def) (simp add: three_nodes_def)

text \<open>
  C25. A lookup ends and returns the node with the key, or a null pointer when no node of the tree has it.
\<close>

theorem lookup_node_correct:
  assumes "rbtree_inv t W"
  shows "lookup_node k t = Some (Inr (case find (\<lambda>a. key_of t a = k) (inorder W) of None \<Rightarrow> 0 | Some a \<Rightarrow> a))"
proof -
  have r: "rep t W" and b: "bst (key_of t) (inorder W)"
    using assms by (simp_all add: rbtree_inv_def)
  have "lookup_loop k (tree_root t) t = lookup_loop k (troot W) t"
    using tree_root_cases [OF r] lookup_loop.simps [of k "tree_root t" t] lookup_loop.simps [of k SENTINEL t]
    by (cases "tree_root t = troot W") auto
  then show ?thesis
    using lookup_loop_correct [of t W "[]" k] r b by (simp add: lookup_node_def)
qed

theorem lookup_node_correct_witness:
  "lookup_node 48 three_nodes = Some (Inr 48) \<and> lookup_node 16 three_nodes = Some (Inr 16) \<and> lookup_node 5 three_nodes = Some (Inr 0)"
proof -
  have "key_of three_nodes = int"
    by (simp add: three_nodes_def)
  then show ?thesis
    using lookup_node_correct [OF three_nodes_inv, of 48] lookup_node_correct [OF three_nodes_inv, of 16]
      lookup_node_correct [OF three_nodes_inv, of 5] by simp
qed

text \<open>
  C26. Iteration: the first node is the one with the least key, and the node after \<open>a\<close> is its successor in
  key order, or a null pointer after the last one. Both searches end.
\<close>

theorem iteration_correct:
  assumes "rep t W" "inorder W = xs @ a # ys"
  shows "begin_node (tree_root t) t = Some (Inr (hd (inorder W))) \<and>
         next_node a t = Some (Inr (case ys of [] \<Rightarrow> 0 | b # _ \<Rightarrow> b))"
proof
  show "next_node a t = Some (Inr (case ys of [] \<Rightarrow> 0 | b # _ \<Rightarrow> b))"
    by (rule next_node_aux [OF assms])
  obtain l c b r where "W = Nd l c b r"
    using assms(2) by (cases W) auto
  then show "begin_node (tree_root t) t = Some (Inr (hd (inorder W)))"
    using leftmost_correct [of t l c b r "[]"] rep_read(5) [of t l c b r "[]"] tree_root_cases [OF assms(1)] assms(1)
    by (auto simp: begin_node_def)
qed

theorem iteration_correct_witness: "next_node 16 three_nodes = Some (Inr 32)"
  using conjunct2 [OF iteration_correct [OF three_nodes_rep, of "[]" 16 "[32, 48]"]] by simp



end
