(* ===== verification/Mpmc_Queue.thy ===== *)
theory Mpmc_Queue
  imports Prelude
begin

text \<open>
  The bounded queue between the enclave and the swapper (\<open>include/queue.h\<close>).

  Any number of threads run \<open>push\<close> and \<open>take\<close> at once. A step is one access to a shared variable: the
  load of a position, the load of the sequence number of a cell, a compare-and-exchange, the access to
  the data of a cell, the store of a sequence number. The weak compare-and-exchange may fail without a
  reason. Positions and sequence numbers are \<open>size_t\<close> values that wrap. The list \<open>pushed\<close> and the count
  \<open>claimed\<close> record the claims that succeeded; the code has neither.
\<close>

section \<open>State and steps\<close>

record 'a cell_t =
  sequence :: nat
  cell_data :: 'a

datatype 'a qpc =
    Idle
  | PushTop 'a nat      \<comment> \<open>at the top of the loop of \<open>push\<close> with \<open>pos\<close>\<close>
  | PushCas 'a nat      \<comment> \<open>\<open>dif == 0\<close> was seen\<close>
  | PushReload 'a       \<comment> \<open>\<open>dif > 0\<close> was seen\<close>
  | PushFill 'a nat     \<comment> \<open>the position is claimed\<close>
  | PushPublish 'a nat  \<comment> \<open>the data is in the cell\<close>
  | PushDone nat
  | TakeTop nat
  | TakeCas nat
  | TakeReload
  | TakeRead nat
  | TakeFree nat 'a
  | TakeDone nat 'a     \<comment> \<open>\<open>take\<close> returned true\<close>
  | TakeEmpty           \<comment> \<open>\<open>take\<close> returned false\<close>

record 'a mpmc_bounded_queue =
  buffer :: "'a cell_t list"
  buffer_mask :: nat
  enqueue_pos :: nat
  dequeue_pos :: nat
  pcs :: "nat \<Rightarrow> 'a qpc"
  pushed :: "'a list"
  claimed :: nat

definition mpmc_bounded_queue :: "'a \<Rightarrow> nat \<Rightarrow> 'a mpmc_bounded_queue result" where
  "mpmc_bounded_queue junk buffer_size =
     (if buffer_size \<ge> 2 \<and> buffer_size AND (buffer_size - 1) = 0
      then Inr \<lparr>buffer = map (\<lambda>i. \<lparr>sequence = i, cell_data = junk\<rparr>) [0..<buffer_size],
                buffer_mask = buffer_size - 1, enqueue_pos = 0, dequeue_pos = 0,
                pcs = (\<lambda>_. Idle), pushed = [], claimed = 0\<rparr>
      else Inl Abort)"

definition cell_index :: "'a mpmc_bounded_queue \<Rightarrow> nat \<Rightarrow> nat" where
  "cell_index s pos = pos AND buffer_mask s"

text \<open>The signed difference of two positions.\<close>

definition dif64 :: "nat \<Rightarrow> nat \<Rightarrow> int" where
  "dif64 seq pos = (int seq - int pos + 2 ^ 63) mod 2 ^ 64 - 2 ^ 63"

definition goto :: "nat \<Rightarrow> 'a qpc \<Rightarrow> 'a mpmc_bounded_queue \<Rightarrow> 'a mpmc_bounded_queue" where
  "goto t pc s = s\<lparr>pcs := (pcs s)(t := pc)\<rparr>"

definition upd_cell :: "nat \<Rightarrow> ('a cell_t \<Rightarrow> 'a cell_t) \<Rightarrow> 'a mpmc_bounded_queue \<Rightarrow> 'a mpmc_bounded_queue" where
  "upd_cell pos f s = s\<lparr>buffer := (buffer s)[cell_index s pos := f (buffer s ! cell_index s pos)]\<rparr>"

text \<open>
  The next step of thread \<open>t\<close>; \<open>weak\<close> says whether a compare-and-exchange fails for no reason. A call
  starts with the argument of \<open>push\<close> (\<open>Some v\<close>) or with none for \<open>take\<close>.
\<close>

definition push_top :: "nat \<Rightarrow> 'a \<Rightarrow> nat \<Rightarrow> 'a mpmc_bounded_queue \<Rightarrow> 'a mpmc_bounded_queue" where
  "push_top t v pos s =
     (let dif = dif64 (sequence (buffer s ! cell_index s pos)) pos in
      if dif = 0 then goto t (PushCas v pos) s
      else if dif < 0 then goto t (PushTop v pos) s
      else goto t (PushReload v) s)"

definition push_cas :: "bool \<Rightarrow> nat \<Rightarrow> 'a \<Rightarrow> nat \<Rightarrow> 'a mpmc_bounded_queue \<Rightarrow> 'a mpmc_bounded_queue" where
  "push_cas weak t v pos s =
     (if enqueue_pos s = pos \<and> \<not> weak
      then goto t (PushFill v pos) (s\<lparr>enqueue_pos := add64 pos 1, pushed := pushed s @ [v]\<rparr>)
      else goto t (PushTop v (enqueue_pos s)) s)"

definition take_top :: "nat \<Rightarrow> nat \<Rightarrow> 'a mpmc_bounded_queue \<Rightarrow> 'a mpmc_bounded_queue" where
  "take_top t pos s =
     (let dif = dif64 (sequence (buffer s ! cell_index s pos)) (add64 pos 1) in
      if dif = 0 then goto t (TakeCas pos) s
      else if dif < 0 then goto t TakeEmpty s
      else goto t TakeReload s)"

definition take_cas :: "bool \<Rightarrow> nat \<Rightarrow> nat \<Rightarrow> 'a mpmc_bounded_queue \<Rightarrow> 'a mpmc_bounded_queue" where
  "take_cas weak t pos s =
     (if dequeue_pos s = pos \<and> \<not> weak
      then goto t (TakeRead pos) (s\<lparr>dequeue_pos := add64 pos 1, claimed := claimed s + 1\<rparr>)
      else goto t (TakeTop (dequeue_pos s)) s)"

definition queue_step :: "'a option \<Rightarrow> bool \<Rightarrow> nat \<Rightarrow> 'a mpmc_bounded_queue \<Rightarrow> 'a mpmc_bounded_queue" where
  "queue_step call weak t s =
     (case pcs s t of
        PushTop v pos \<Rightarrow> push_top t v pos s
      | PushCas v pos \<Rightarrow> push_cas weak t v pos s
      | PushReload v \<Rightarrow> goto t (PushTop v (enqueue_pos s)) s
      | PushFill v pos \<Rightarrow> goto t (PushPublish v pos) (upd_cell pos (\<lambda>c. c\<lparr>cell_data := v\<rparr>) s)
      | PushPublish v pos \<Rightarrow> goto t (PushDone pos) (upd_cell pos (\<lambda>c. c\<lparr>sequence := add64 pos 1\<rparr>) s)
      | TakeTop pos \<Rightarrow> take_top t pos s
      | TakeCas pos \<Rightarrow> take_cas weak t pos s
      | TakeReload \<Rightarrow> goto t (TakeTop (dequeue_pos s)) s
      | TakeRead pos \<Rightarrow> goto t (TakeFree pos (cell_data (buffer s ! cell_index s pos))) s
      | TakeFree pos v \<Rightarrow>
          goto t (TakeDone pos v) (upd_cell pos (\<lambda>c. c\<lparr>sequence := add64 (add64 pos (buffer_mask s)) 1\<rparr>) s)
      | _ \<Rightarrow> (case call of
                Some v \<Rightarrow> goto t (PushTop v (enqueue_pos s)) s
              | None \<Rightarrow> goto t (TakeTop (dequeue_pos s)) s))"

inductive reach :: "'a mpmc_bounded_queue \<Rightarrow> 'a mpmc_bounded_queue \<Rightarrow> bool" for s0 where
  reach_refl: "reach s0 s0"
| reach_step: "reach s0 s \<Longrightarrow> reach s0 (queue_step call weak t s)"

section \<open>The tickets of the cells\<close>

text \<open>
  Ticket \<open>p\<close> is the \<open>p\<close>-th push that claimed a position and the \<open>p\<close>-th take that did; both use the
  cell \<open>p mod N\<close>. \<open>PP\<close> are the tickets whose push is not finished, \<open>PT\<close> those whose take is not.
\<close>

primrec ptick :: "'a qpc \<Rightarrow> nat option" where
  "ptick Idle = None" | "ptick (PushTop v p) = None" | "ptick (PushCas v p) = None" | "ptick (PushReload v) = None"
| "ptick (PushFill v p) = Some p" | "ptick (PushPublish v p) = Some p" | "ptick (PushDone p) = None"
| "ptick (TakeTop p) = None" | "ptick (TakeCas p) = None" | "ptick TakeReload = None" | "ptick (TakeRead p) = None"
| "ptick (TakeFree p v) = None" | "ptick (TakeDone p v) = None" | "ptick TakeEmpty = None"

primrec ttick :: "'a qpc \<Rightarrow> nat option" where
  "ttick Idle = None" | "ttick (PushTop v p) = None" | "ttick (PushCas v p) = None" | "ttick (PushReload v) = None"
| "ttick (PushFill v p) = None" | "ttick (PushPublish v p) = None" | "ttick (PushDone p) = None"
| "ttick (TakeTop p) = None" | "ttick (TakeCas p) = None" | "ttick TakeReload = None" | "ttick (TakeRead p) = Some p"
| "ttick (TakeFree p v) = Some p" | "ttick (TakeDone p v) = None" | "ttick TakeEmpty = None"

definition tickets :: "('a qpc \<Rightarrow> nat option) \<Rightarrow> (nat \<Rightarrow> 'a qpc) \<Rightarrow> nat set" where
  "tickets f c = {p. \<exists>t. f (c t) = Some p}"

definition seqno :: "'a cell_t list \<Rightarrow> nat \<Rightarrow> nat" where
  "seqno B p = sequence (B ! (p mod length B))"

definition datum :: "'a cell_t list \<Rightarrow> nat \<Rightarrow> 'a" where
  "datum B p = cell_data (B ! (p mod length B))"

definition cells_ok :: "'a cell_t list \<Rightarrow> 'a list \<Rightarrow> nat \<Rightarrow> nat set \<Rightarrow> nat set \<Rightarrow> bool" where
  "cells_ok B xs D PP PT \<longleftrightarrow>
     2 \<le> length B \<and> D \<le> length xs \<and> length xs \<le> D + length B \<and>
     (\<forall>p\<in>PP. D \<le> p \<and> p < length xs \<and> seqno B p = p) \<and>
     (\<forall>p. D \<le> p \<longrightarrow> p < length xs \<longrightarrow> p \<notin> PP \<longrightarrow> seqno B p = p + 1 \<and> datum B p = xs ! p) \<and>
     (\<forall>q\<in>PT. q < D \<and> length xs \<le> q + length B \<and> seqno B q = q + 1 \<and> datum B q = xs ! q) \<and>
     (\<forall>p. length xs \<le> p \<longrightarrow> p < D + length B \<longrightarrow> (length B \<le> p \<longrightarrow> p - length B \<notin> PT) \<longrightarrow> seqno B p = p)"

lemma mod_window: "p mod n = q mod n \<Longrightarrow> p \<le> q \<Longrightarrow> q < p + n \<Longrightarrow> p = (q :: nat)"
  by (metis add_diff_inverse_nat le_add1 less_diff_conv2 linorder_not_less mod_eq_dvd_iff_nat nat_dvd_not_less
      add.commute diff_is_0_eq zero_less_diff not_gr_zero order_antisym_conv)

lemma seqno_upd:
  assumes "0 < length B"
  shows "seqno (B[p mod length B := c]) q = (if q mod length B = p mod length B then sequence c else seqno B q)"
    "datum (B[p mod length B := c]) q = (if q mod length B = p mod length B then cell_data c else datum B q)"
  using assms by (auto simp: seqno_def datum_def)

lemma cells_claim_push:
  assumes "cells_ok B xs D PP PT" "length xs < D + length B" "length B \<le> length xs \<longrightarrow> length xs - length B \<notin> PT"
  shows "cells_ok B (xs @ [v]) D (insert (length xs) PP) PT"
proof -
  have "length xs \<noteq> q + length B" if "q \<in> PT" for q
    using assms(3) that by auto
  then have "\<forall>q\<in>PT. length (xs @ [v]) \<le> q + length B"
    using assms(1) unfolding cells_ok_def by (metis Suc_leI le_neq_implies_less length_append_singleton)
  then show ?thesis
    using assms unfolding cells_ok_def by (auto simp: nth_append less_Suc_eq)
qed

lemma cells_claim_take:
  assumes "cells_ok B xs D PP PT" "D < length xs" "D \<notin> PP"
  shows "cells_ok B xs (D + 1) PP (insert D PT)"
proof -
  have "D \<noteq> p" if "p \<in> PP" for p
    using assms(3) that by auto
  then have "\<forall>p\<in>PP. D + 1 \<le> p"
    using assms(1) unfolding cells_ok_def by (metis Suc_eq_plus1 Suc_leI le_neq_implies_less)
  moreover have "p < D + length B" if "p < D + 1 + length B" "length B \<le> p \<longrightarrow> p - length B \<notin> insert D PT" for p
    using that by auto
  ultimately show ?thesis
    using assms unfolding cells_ok_def by auto
qed

lemma no_collision:
  assumes ok: "cells_ok B xs D PP PT" and p: "p mod length B = q mod length B"
  shows "D \<le> p \<Longrightarrow> p < D + length B \<Longrightarrow> D \<le> q \<Longrightarrow> q < D + length B \<Longrightarrow> p = q"
    "p \<in> PT \<Longrightarrow> D \<le> q \<Longrightarrow> q < length xs \<Longrightarrow> False" "p \<in> PT \<Longrightarrow> q \<in> PT \<Longrightarrow> p = q"
    "p \<in> PT \<Longrightarrow> D \<le> q \<Longrightarrow> q < D + length B \<Longrightarrow> q = p + length B"
proof -
  note mw = mod_window [OF p] mod_window [OF p [symmetric]]
  show "D \<le> p \<Longrightarrow> p < D + length B \<Longrightarrow> D \<le> q \<Longrightarrow> q < D + length B \<Longrightarrow> p = q"
    using mw by linarith
  have PT: "r < D" "D \<le> length xs" "length xs \<le> r + length B" if "r \<in> PT" for r
    using ok that unfolding cells_ok_def by auto
  show "p \<in> PT \<Longrightarrow> D \<le> q \<Longrightarrow> q < length xs \<Longrightarrow> False"
    using mw PT [of p] by linarith
  show "p \<in> PT \<Longrightarrow> q \<in> PT \<Longrightarrow> p = q"
    using mw PT [of p] PT [of q] by linarith
  show "q = p + length B" if a: "p \<in> PT" "D \<le> q" "q < D + length B"
  proof -
    have lt: "p < D" "D \<le> length xs" "length xs \<le> p + length B"
      using PT [OF a(1)] by simp_all
    have "(p + length B) mod length B = q mod length B"
      using p by simp
    note mw' = mod_window [OF this] mod_window [OF this [symmetric]]
    show ?thesis
    proof (cases "p + length B \<le> q")
      case True
      then show ?thesis
        using mw'(1) a lt by linarith
    next
      case False
      then show ?thesis
        using mw(1) a lt by linarith
    qed
  qed
qed

lemma cells_fill:
  assumes ok: "cells_ok B xs D PP PT" and p: "p \<in> PP" and c: "sequence c = seqno B p"
  shows "cells_ok (B[p mod length B := c]) xs D PP PT"
proof -
  have N: "0 < length B" "2 \<le> length B"
    using ok by (auto simp: cells_ok_def)
  have pr: "D \<le> p" "p < length xs" "length xs \<le> D + length B" "D \<le> length xs"
    using ok p by (auto simp: cells_ok_def)
  have A: "q = p" if "q mod length B = p mod length B" "D \<le> q" "q < D + length B" for q
    using no_collision(1) [OF ok that(1)] that pr by simp
  have T: "q mod length B \<noteq> p mod length B" if "q \<in> PT" for q
    using no_collision(2) [OF ok, of q p] that pr by auto
  have s: "seqno (B[p mod length B := c]) q = seqno B q" for q
    using c by (auto simp: seqno_upd(1) [OF N(1)]) (simp add: seqno_def)
  have d1: "datum (B[p mod length B := c]) q = datum B q" if "D \<le> q" "q < length xs" "q \<notin> PP" for q
    using that A [of q] p pr by (auto simp: seqno_upd(2) [OF N(1)])
  have d2: "datum (B[p mod length B := c]) q = datum B q" if "q \<in> PT" for q
    using T [OF that] by (simp add: seqno_upd(2) [OF N(1)])
  show ?thesis
    using ok p unfolding cells_ok_def by (auto simp: s d1 d2)
qed

lemma cells_publish:
  assumes ok: "cells_ok B xs D PP PT" and p: "p \<in> PP" "datum B p = xs ! p"
    and c: "sequence c = p + 1" "cell_data c = datum B p"
  shows "cells_ok (B[p mod length B := c]) xs D (PP - {p}) PT"
proof -
  have N: "0 < length B" "2 \<le> length B"
    using ok by (auto simp: cells_ok_def)
  have pr: "D \<le> p" "p < length xs" "length xs \<le> D + length B" "D \<le> length xs"
    using ok p by (auto simp: cells_ok_def)
  have A: "q = p" if "q mod length B = p mod length B" "D \<le> q" "q < D + length B" for q
    using no_collision(1) [OF ok that(1)] that pr by simp
  have T: "q mod length B \<noteq> p mod length B" if "q \<in> PT" for q
    using no_collision(2) [OF ok, of q p] that pr by auto
  have d: "datum (B[p mod length B := c]) q = datum B q" for q
    using c(2) by (auto simp: seqno_upd(2) [OF N(1)]) (simp add: datum_def)
  have s: "seqno (B[p mod length B := c]) q = (if q = p then p + 1 else seqno B q)" if "D \<le> q \<and> q < D + length B \<or> q \<in> PT" for q
    using that A [of q] T [of q] c(1) by (auto simp: seqno_upd(1) [OF N(1)])
  have w: "q < D + length B" if "q < length xs" for q
    using that pr by simp
  have PP: "D \<le> q \<and> q < D + length B" if "q \<in> PP" for q
    using ok that pr by (auto simp: cells_ok_def)
  have nPT: "p \<notin> PT"
    using T by auto
  have "seqno (B[p mod length B := c]) q = q" if "q \<in> PP - {p}" for q
    using s [of q] PP [of q] that ok by (auto simp: cells_ok_def)
  moreover have "seqno (B[p mod length B := c]) q = q + 1 \<and> datum (B[p mod length B := c]) q = xs ! q"
    if "D \<le> q" "q < length xs" "q \<notin> PP - {p}" for q
    using s [of q] w [of q] that ok p(2) by (auto simp: cells_ok_def d)
  moreover have "seqno (B[p mod length B := c]) q = q + 1" if "q \<in> PT" for q
    using s [of q] that ok nPT by (auto simp: cells_ok_def)
  moreover have "seqno (B[p mod length B := c]) q = q"
    if "length xs \<le> q" "q < D + length B" "length B \<le> q \<longrightarrow> q - length B \<notin> PT" for q
    using s [of q] that ok pr by (auto simp: cells_ok_def)
  ultimately show ?thesis
    using ok unfolding cells_ok_def by (simp add: d)
qed

lemma cells_free:
  assumes ok: "cells_ok B xs D PP PT" and p: "p \<in> PT" and c: "sequence c = p + length B"
  shows "cells_ok (B[p mod length B := c]) xs D PP (PT - {p})"
proof -
  have N: "0 < length B" "2 \<le> length B"
    using ok by (auto simp: cells_ok_def)
  have pr: "p < D" "length xs \<le> p + length B" "length xs \<le> D + length B" "D \<le> length xs"
    using ok p by (auto simp: cells_ok_def)
  have A: "q mod length B \<noteq> p mod length B" if "D \<le> q" "q < length xs" for q
    using no_collision(2) [OF ok, of p q] that p by auto
  have T: "q = p" if "q \<in> PT" "q mod length B = p mod length B" for q
    using no_collision(3) [OF ok that(2) that(1) p] .
  have F: "q = p + length B" if "q mod length B = p mod length B" "D \<le> q" "q < D + length B" for q
    using no_collision(4) [OF ok that(1) [symmetric] p] that by simp
  let ?B = "B[p mod length B := c]"
  have s: "seqno ?B q = seqno B q" "datum ?B q = datum B q" if "D \<le> q \<and> q < length xs \<or> q \<in> PT - {p}" for q
    using that A [of q] T [of q] by (auto simp: seqno_upd [OF N(1)])
  have PP: "D \<le> q \<and> q < length xs" if "q \<in> PP" for q
    using ok that by (auto simp: cells_ok_def)
  have "seqno ?B q = q" if "length xs \<le> q" "q < D + length B" "length B \<le> q \<longrightarrow> q - length B \<notin> PT - {p}" for q
  proof (cases "q mod length B = p mod length B")
    case True
    then show ?thesis
      using F [of q] that pr c by (auto simp: seqno_upd [OF N(1)])
  next
    case False
    then have "length B \<le> q \<longrightarrow> q - length B \<notin> PT"
      using that(3) by (metis DiffI le_mod_geq singletonD)
    then show ?thesis
      using False ok that(1,2) by (simp add: cells_ok_def seqno_upd [OF N(1)])
  qed
  then show ?thesis
    using ok s PP unfolding cells_ok_def by auto
qed

section \<open>The invariant of the queue\<close>

definition local_ok :: "'a cell_t list \<Rightarrow> 'a list \<Rightarrow> nat \<Rightarrow> nat set \<Rightarrow> nat set \<Rightarrow> 'a qpc \<Rightarrow> bool" where
  "local_ok B xs D PP PT pc =
     (case pc of
        PushTop v pos \<Rightarrow> pos \<le> length xs
      | PushCas v pos \<Rightarrow> pos \<le> length xs \<and>
          (pos = length xs \<longrightarrow> pos < D + length B \<and> (length B \<le> pos \<longrightarrow> pos - length B \<notin> PT))
      | PushFill v p \<Rightarrow> xs ! p = v
      | PushPublish v p \<Rightarrow> xs ! p = v \<and> datum B p = v
      | TakeTop pos \<Rightarrow> pos \<le> D
      | TakeCas pos \<Rightarrow> pos \<le> D \<and> (pos = D \<longrightarrow> D < length xs \<and> D \<notin> PP)
      | TakeFree q v \<Rightarrow> v = xs ! q
      | TakeDone q v \<Rightarrow> q < D \<and> v = xs ! q
      | _ \<Rightarrow> True)"

definition distinct_tickets :: "('a qpc \<Rightarrow> nat option) \<Rightarrow> (nat \<Rightarrow> 'a qpc) \<Rightarrow> bool" where
  "distinct_tickets f c \<longleftrightarrow> (\<forall>t u p. f (c t) = Some p \<longrightarrow> f (c u) = Some p \<longrightarrow> t = u)"

abbreviation PPs :: "'a mpmc_bounded_queue \<Rightarrow> nat set" where
  "PPs s \<equiv> tickets ptick (pcs s)"

abbreviation PTs :: "'a mpmc_bounded_queue \<Rightarrow> nat set" where
  "PTs s \<equiv> tickets ttick (pcs s)"

definition queue_inv :: "'a mpmc_bounded_queue \<Rightarrow> bool" where
  "queue_inv s \<longleftrightarrow>
     (\<exists>k. length (buffer s) = 2 ^ k) \<and> buffer_mask s = length (buffer s) - 1 \<and>
     enqueue_pos s = length (pushed s) \<and> dequeue_pos s = claimed s \<and>
     cells_ok (buffer s) (pushed s) (claimed s) (PPs s) (PTs s) \<and>
     (\<forall>t. local_ok (buffer s) (pushed s) (claimed s) (PPs s) (PTs s) (pcs s t)) \<and>
     distinct_tickets ptick (pcs s) \<and> distinct_tickets ttick (pcs s)"

lemma tickets_upd:
  assumes "distinct_tickets f c"
  shows "tickets f (c(t := pc)) =
    (case f pc of None \<Rightarrow> {} | Some p \<Rightarrow> {p}) \<union> (tickets f c - (case f (c t) of None \<Rightarrow> {} | Some p \<Rightarrow> {p}))"
proof (rule set_eqI)
  fix x
  have "(\<exists>u. f ((c(t := pc)) u) = Some x) \<longleftrightarrow> f pc = Some x \<or> (\<exists>u. u \<noteq> t \<and> f (c u) = Some x)"
    by (metis fun_upd_other fun_upd_same)
  moreover have "(\<exists>u. u \<noteq> t \<and> f (c u) = Some x) \<longleftrightarrow> (\<exists>u. f (c u) = Some x) \<and> f (c t) \<noteq> Some x"
    using assms unfolding distinct_tickets_def by metis
  ultimately show "x \<in> tickets f (c(t := pc)) \<longleftrightarrow>
      x \<in> (case f pc of None \<Rightarrow> {} | Some p \<Rightarrow> {p}) \<union> (tickets f c - (case f (c t) of None \<Rightarrow> {} | Some p \<Rightarrow> {p}))"
    by (auto simp: tickets_def split: option.splits)
qed

lemma distinct_tickets_upd:
  assumes "distinct_tickets f c" "\<And>p. f pc = Some p \<Longrightarrow> f (c t) = Some p \<or> p \<notin> tickets f c"
  shows "distinct_tickets f (c(t := pc))"
  using assms unfolding distinct_tickets_def tickets_def by (auto split: if_splits)

lemma cell_index_eq: "queue_inv s \<Longrightarrow> cell_index s p = p mod length (buffer s)"
  unfolding queue_inv_def cell_index_def
  by (metis and_nat_def mask_eq_exp_minus_1 mask_nat_def take_bit_eq_mask take_bit_eq_mod)

text \<open>The tickets after thread \<open>t\<close> went to \<open>pc\<close>.\<close>

definition moved :: "('a qpc \<Rightarrow> nat option) \<Rightarrow> 'a mpmc_bounded_queue \<Rightarrow> nat \<Rightarrow> 'a qpc \<Rightarrow> nat set" where
  "moved f s t pc = (case f pc of None \<Rightarrow> {} | Some p \<Rightarrow> {p}) \<union>
     (tickets f (pcs s) - (case f (pcs s t) of None \<Rightarrow> {} | Some p \<Rightarrow> {p}))"

lemma queue_inv_step:
  assumes inv: "queue_inv s"
    and s': "length (buffer s') = length (buffer s)" "buffer_mask s' = buffer_mask s" "pcs s' = (pcs s)(t := pc)"
      "enqueue_pos s' = length (pushed s')" "dequeue_pos s' = claimed s'"
    and P: "moved ptick s t pc = PP'" and T: "moved ttick s t pc = PT'"
    and cells: "cells_ok (buffer s') (pushed s') (claimed s') PP' PT'"
    and loc: "local_ok (buffer s') (pushed s') (claimed s') PP' PT' pc"
    and oth: "\<And>u. u \<noteq> t \<Longrightarrow> local_ok (buffer s) (pushed s) (claimed s) (PPs s) (PTs s) (pcs s u) \<Longrightarrow>
                local_ok (buffer s') (pushed s') (claimed s') PP' PT' (pcs s u)"
    and fresh: "\<And>p. ptick pc = Some p \<Longrightarrow> ptick (pcs s t) = Some p \<or> p \<notin> PPs s"
      "\<And>p. ttick pc = Some p \<Longrightarrow> ttick (pcs s t) = Some p \<or> p \<notin> PTs s"
  shows "queue_inv s'"
proof -
  have d: "distinct_tickets ptick (pcs s)" "distinct_tickets ttick (pcs s)"
    using inv by (simp_all add: queue_inv_def)
  have PP: "PPs s' = PP'" and PT: "PTs s' = PT'"
    using tickets_upd [OF d(1), of t pc] tickets_upd [OF d(2), of t pc] P T by (simp_all add: s'(3) moved_def)
  have "local_ok (buffer s') (pushed s') (claimed s') PP' PT' (pcs s' u)" for u
    using loc oth [of u] inv by (cases "u = t") (simp_all add: s'(3) queue_inv_def)
  moreover have "distinct_tickets ptick (pcs s')" "distinct_tickets ttick (pcs s')"
    using distinct_tickets_upd [OF d(1), of pc t] distinct_tickets_upd [OF d(2), of pc t] fresh by (simp_all add: s'(3))
  ultimately show ?thesis
    using inv cells s'(1,2,4,5) unfolding queue_inv_def PP PT by simp
qed

lemma in_tickets: "f (c t) = Some p \<Longrightarrow> p \<in> tickets f c"
  by (auto simp: tickets_def)

lemma inv_goto:
  assumes inv: "queue_inv s" and pc: "ptick pc = ptick (pcs s t)" "ttick pc = ttick (pcs s t)"
    and loc: "local_ok (buffer s) (pushed s) (claimed s) (PPs s) (PTs s) pc"
  shows "queue_inv (goto t pc s)"
proof -
  have m: "moved ptick s t pc = PPs s" "moved ttick s t pc = PTs s"
    using pc in_tickets [of ptick "pcs s" t] in_tickets [of ttick "pcs s" t] by (auto simp: moved_def split: option.split)
  show ?thesis
    using inv loc pc by (intro queue_inv_step [OF inv _ _ _ _ _ m, of "goto t pc s"]) (auto simp: goto_def queue_inv_def)
qed

text \<open>What the invariant says where a ticket can be claimed.\<close>

lemma claim_push_ok:
  assumes "cells_ok B xs D PP PT" "seqno B (length xs) = length xs"
  shows "length xs < D + length B \<and> (length B \<le> length xs \<longrightarrow> length xs - length B \<notin> PT)"
proof -
  have N: "2 \<le> length B" "length xs \<le> D + length B"
    using assms(1) by (auto simp: cells_ok_def)
  have "length xs \<noteq> D + length B"
  proof
    assume e: "length xs = D + length B"
    then have "D < length xs" "seqno B D = length xs"
      using N assms(2) by (auto simp: seqno_def)
    then show False
      using assms(1) N e unfolding cells_ok_def by (cases "D \<in> PP") auto
  qed
  moreover have "length xs - length B \<notin> PT" if "length B \<le> length xs"
  proof
    assume "length xs - length B \<in> PT"
    then have "seqno B (length xs - length B) = length xs - length B + 1"
      using assms(1) by (auto simp: cells_ok_def)
    moreover have "seqno B (length xs - length B) = seqno B (length xs)"
      using that by (simp add: seqno_def le_mod_geq)
    ultimately show False
      using assms(2) N that by simp
  qed
  ultimately show ?thesis
    using N by simp
qed

lemma claim_take_ok:
  assumes "cells_ok B xs D PP PT" "seqno B D = D + 1"
  shows "D < length xs \<and> D \<notin> PP"
proof -
  have N: "2 \<le> length B" "D \<le> length xs"
    using assms(1) by (auto simp: cells_ok_def)
  have "D \<noteq> length xs"
  proof
    assume e: "D = length xs"
    show False
    proof (cases "length B \<le> D \<and> D - length B \<in> PT")
      case True
      then have "seqno B (D - length B) = D - length B + 1"
        using assms(1) by (auto simp: cells_ok_def)
      moreover have "seqno B (D - length B) = seqno B D"
        using True by (simp add: seqno_def le_mod_geq)
      ultimately show False
        using assms(2) N True by linarith
    next
      case False
      then show False
        using assms N e by (auto simp: cells_ok_def)
    qed
  qed
  then show ?thesis
    using assms N by (auto simp: cells_ok_def)
qed

lemma dif64_small: "a < 2 ^ 63 \<Longrightarrow> b < 2 ^ 63 \<Longrightarrow> dif64 a b = int a - int b"
  by (simp add: dif64_def)

lemma seqno_cell: "queue_inv s \<Longrightarrow> sequence (buffer s ! cell_index s p) = seqno (buffer s) p"
  by (simp add: cell_index_eq seqno_def)

lemma seqno_bound:
  assumes inv: "queue_inv s" and b: "length (pushed s) + length (buffer s) + 1 < 2 ^ 63"
  shows "seqno (buffer s) p < 2 ^ 63"
proof -
  let ?B = "buffer s" and ?D = "claimed s" and ?E = "length (pushed s)"
  have ok: "cells_ok ?B (pushed s) ?D (PPs s) (PTs s)"
    using inv by (simp add: queue_inv_def)
  then have N: "0 < length ?B" "?D \<le> ?E"
    by (auto simp: cells_ok_def)
  define q where "q = ?D + (p + length ?B * ?D - ?D) mod length ?B"
  have "?D \<le> p + length ?B * ?D"
    using N(1) by (cases "length ?B") auto
  then have "q mod length ?B = (p + length ?B * ?D) mod length ?B"
    unfolding q_def by (metis le_add_diff_inverse mod_add_right_eq)
  then have "q mod length ?B = p mod length ?B"
    by simp
  then have e: "seqno ?B p = seqno ?B q"
    by (simp add: seqno_def)
  have q: "?D \<le> q" "q < ?D + length ?B"
    using N(1) by (simp_all add: q_def)
  show ?thesis
  proof (cases "q < ?E")
    case True
    then show ?thesis
      using ok q b unfolding e cells_ok_def by (cases "q \<in> PPs s") auto
  next
    case False
    show ?thesis
    proof (cases "length ?B \<le> q \<and> q - length ?B \<in> PTs s")
      case True
      then have "seqno ?B (q - length ?B) = q - length ?B + 1"
        using ok by (auto simp: cells_ok_def)
      moreover have "seqno ?B (q - length ?B) = seqno ?B q"
        using True by (simp add: seqno_def le_mod_geq)
      ultimately show ?thesis
        using q N b unfolding e by simp
    next
      case F: False
      then have "seqno ?B q = q"
        using ok q False by (auto simp: cells_ok_def)
      then show ?thesis
        using q N b unfolding e by simp
    qed
  qed
qed

lemma queue_inv_parts:
  assumes "queue_inv s"
  shows "cells_ok (buffer s) (pushed s) (claimed s) (PPs s) (PTs s)"
    "local_ok (buffer s) (pushed s) (claimed s) (PPs s) (PTs s) (pcs s t)"
    "enqueue_pos s = length (pushed s)" "dequeue_pos s = claimed s" "buffer_mask s = length (buffer s) - 1"
    "2 \<le> length (buffer s)" "claimed s \<le> length (pushed s)" "length (pushed s) \<le> claimed s + length (buffer s)"
    "\<And>p. p \<in> PPs s \<Longrightarrow> claimed s \<le> p \<and> p < length (pushed s)"
    "\<And>q. q \<in> PTs s \<Longrightarrow> q < claimed s"
    "distinct_tickets ptick (pcs s)" "distinct_tickets ttick (pcs s)"
  using assms by (simp_all add: queue_inv_def cells_ok_def)

lemma push_top_inv:
  assumes inv: "queue_inv s" and b: "length (pushed s) + length (buffer s) + 1 < 2 ^ 63" and pc: "pcs s t = PushTop v pos"
  shows "queue_inv (push_top t v pos s)"
proof -
  note q = queue_inv_parts [OF inv]
  have le: "pos \<le> length (pushed s)"
    using q(2) [of t] pc by (simp add: local_ok_def)
  have dif: "dif64 (sequence (buffer s ! cell_index s pos)) pos = int (seqno (buffer s) pos) - int pos"
    using seqno_bound [OF inv b] seqno_cell [OF inv] le b by (simp add: dif64_small)
  have "local_ok (buffer s) (pushed s) (claimed s) (PPs s) (PTs s) (PushCas v pos)" if "seqno (buffer s) pos = pos"
    using claim_push_ok [OF q(1)] that le by (auto simp: local_ok_def)
  then show ?thesis
    using inv le pc unfolding push_top_def dif Let_def by (auto intro!: inv_goto simp: local_ok_def)
qed

lemma take_top_inv:
  assumes inv: "queue_inv s" and b: "length (pushed s) + length (buffer s) + 1 < 2 ^ 63" and pc: "pcs s t = TakeTop pos"
  shows "queue_inv (take_top t pos s)"
proof -
  note q = queue_inv_parts [OF inv]
  have le: "pos \<le> claimed s"
    using q(2) [of t] pc by (simp add: local_ok_def)
  have dif: "dif64 (sequence (buffer s ! cell_index s pos)) (add64 pos 1) = int (seqno (buffer s) pos) - int (pos + 1)"
    using seqno_bound [OF inv b] seqno_cell [OF inv] le b q(7) by (simp add: dif64_small add64_small)
  have "local_ok (buffer s) (pushed s) (claimed s) (PPs s) (PTs s) (TakeCas pos)" if "seqno (buffer s) pos = pos + 1"
    using claim_take_ok [OF q(1)] that le by (auto simp: local_ok_def)
  then show ?thesis
    using inv le pc unfolding take_top_def dif Let_def by (auto intro!: inv_goto simp: local_ok_def)
qed

lemma push_cas_inv:
  assumes inv: "queue_inv s" and b: "length (pushed s) + length (buffer s) + 1 < 2 ^ 63" and pc: "pcs s t = PushCas v pos"
  shows "queue_inv (push_cas weak t v pos s)"
proof (cases "enqueue_pos s = pos \<and> \<not> weak")
  case True
  note q = queue_inv_parts [OF inv]
  let ?E = "length (pushed s)"
  let ?s = "goto t (PushFill v pos) (s\<lparr>enqueue_pos := add64 pos 1, pushed := pushed s @ [v]\<rparr>)"
  have pos: "pos = ?E" "?E < claimed s + length (buffer s)"
    "length (buffer s) \<le> ?E \<longrightarrow> ?E - length (buffer s) \<notin> PTs s"
    using q(2) [of t] pc True q(3) by (auto simp: local_ok_def)
  have E: "?E \<notin> PPs s"
    using q(9) by blast
  have m: "moved ptick s t (PushFill v pos) = insert ?E (PPs s)" "moved ttick s t (PushFill v pos) = PTs s"
    using pc pos(1) by (simp_all add: moved_def)
  have lt: "p < ?E" if "p \<in> PTs s" for p
    using q(7) q(10) [OF that] by simp
  have oth: "local_ok (buffer s) (pushed s @ [v]) (claimed s) (insert ?E (PPs s)) (PTs s) (pcs s u)"
    if "local_ok (buffer s) (pushed s) (claimed s) (PPs s) (PTs s) (pcs s u)" for u
    using that q(7) q(9) lt in_tickets [of ptick "pcs s" u] in_tickets [of ttick "pcs s" u]
    by (cases "pcs s u") (auto simp: local_ok_def nth_append)
  have "queue_inv ?s"
    using cells_claim_push [OF q(1) pos(2,3), of v] oth pos(1) q E b pc
    by (intro queue_inv_step [OF inv _ _ _ _ _ m, of ?s]) (auto simp: goto_def local_ok_def add64_small nth_append)
  then show ?thesis
    using True by (simp add: push_cas_def)
next
  case False
  then show ?thesis
    using inv pc queue_inv_parts(3) [OF inv] unfolding push_cas_def by (auto intro!: inv_goto simp: local_ok_def)
qed

lemma take_cas_inv:
  assumes inv: "queue_inv s" and b: "length (pushed s) + length (buffer s) + 1 < 2 ^ 63" and pc: "pcs s t = TakeCas pos"
  shows "queue_inv (take_cas weak t pos s)"
proof (cases "dequeue_pos s = pos \<and> \<not> weak")
  case True
  note q = queue_inv_parts [OF inv]
  let ?s = "goto t (TakeRead pos) (s\<lparr>dequeue_pos := add64 pos 1, claimed := claimed s + 1\<rparr>)"
  have pos: "pos = claimed s" "claimed s < length (pushed s)" "claimed s \<notin> PPs s"
    using q(2) [of t] pc True q(4) by (auto simp: local_ok_def)
  have D: "claimed s \<notin> PTs s"
    using q(10) by blast
  have m: "moved ptick s t (TakeRead pos) = PPs s" "moved ttick s t (TakeRead pos) = insert (claimed s) (PTs s)"
    using pc pos(1) by (simp_all add: moved_def)
  have oth: "local_ok (buffer s) (pushed s) (claimed s + 1) (PPs s) (insert (claimed s) (PTs s)) (pcs s u)"
    if "local_ok (buffer s) (pushed s) (claimed s) (PPs s) (PTs s) (pcs s u)" for u
    using that q(8) by (cases "pcs s u") (auto simp: local_ok_def)
  have "queue_inv ?s"
    using cells_claim_take [OF q(1) pos(2,3)] oth pos(1,2) q D b pc
    by (intro queue_inv_step [OF inv _ _ _ _ _ m, of ?s]) (auto simp: goto_def local_ok_def add64_small)
  then show ?thesis
    using True by (simp add: take_cas_def)
next
  case False
  then show ?thesis
    using inv pc queue_inv_parts(4) [OF inv] unfolding take_cas_def by (auto intro!: inv_goto simp: local_ok_def)
qed

lemma cell_apart:
  assumes "queue_inv s" "p \<in> PPs s" "p' \<in> PPs s" "p mod length (buffer s) = p' mod length (buffer s)"
  shows "p = p'"
  using no_collision(1) [OF queue_inv_parts(1) [OF assms(1)] assms(4)] assms(2,3)
    queue_inv_parts(8) [OF assms(1)] queue_inv_parts(9) [OF assms(1)] by force

lemma datum_upd_same: "0 < length B \<Longrightarrow> cell_data c = datum B p \<Longrightarrow> datum (B[p mod length B := c]) q = datum B q"
  by (auto simp: seqno_upd(2)) (simp add: datum_def)

lemma fill_inv:
  assumes inv: "queue_inv s" and pc: "pcs s t = PushFill v pos"
  shows "queue_inv (goto t (PushPublish v pos) (upd_cell pos (\<lambda>c. c\<lparr>cell_data := v\<rparr>) s))"
proof -
  note q = queue_inv_parts [OF inv]
  let ?s = "goto t (PushPublish v pos) (upd_cell pos (\<lambda>c. c\<lparr>cell_data := v\<rparr>) s)"
  let ?c = "(buffer s ! (pos mod length (buffer s)))\<lparr>cell_data := v\<rparr>"
  let ?B = "(buffer s)[pos mod length (buffer s) := ?c]"
  have B: "buffer ?s = ?B"
    by (simp add: goto_def upd_cell_def cell_index_eq [OF inv])
  have N: "0 < length (buffer s)"
    using q(6) by linarith
  have P: "pos \<in> PPs s"
    using pc in_tickets [of ptick "pcs s" t] by simp
  have m: "moved ptick s t (PushPublish v pos) = PPs s" "moved ttick s t (PushPublish v pos) = PTs s"
    using pc P by (auto simp: moved_def)
  have oth: "local_ok ?B (pushed s) (claimed s) (PPs s) (PTs s) (pcs s u)"
    if u: "u \<noteq> t" "local_ok (buffer s) (pushed s) (claimed s) (PPs s) (PTs s) (pcs s u)" for u
  proof -
    have "datum ?B p = datum (buffer s) p" if "pcs s u = PushPublish w p" for w p
    proof -
      have "p \<in> PPs s" "p \<noteq> pos"
        using that pc u(1) q(11) in_tickets [of ptick "pcs s" u] unfolding distinct_tickets_def by fastforce+
      then show ?thesis
        using cell_apart [OF inv _ P] by (auto simp: seqno_upd(2) [OF N])
    qed
    then show ?thesis
      using u(2) by (cases "pcs s u") (auto simp: local_ok_def)
  qed
  have "cells_ok ?B (pushed s) (claimed s) (PPs s) (PTs s)"
    by (rule cells_fill [OF q(1) P]) (simp add: seqno_def)
  moreover have "xs = xs \<and> datum ?B pos = v" for xs :: "'a list"
    by (simp add: seqno_upd(2) [OF N])
  moreover have "pushed s ! pos = v"
    using q(2) [of t] pc by (simp add: local_ok_def)
  ultimately show ?thesis
    using oth q pc unfolding B [symmetric]
    by (intro queue_inv_step [OF inv _ _ _ _ _ m, of ?s]) (auto simp: goto_def upd_cell_def local_ok_def)
qed

lemma publish_inv:
  assumes inv: "queue_inv s" and b: "length (pushed s) + length (buffer s) + 1 < 2 ^ 63" and pc: "pcs s t = PushPublish v pos"
  shows "queue_inv (goto t (PushDone pos) (upd_cell pos (\<lambda>c. c\<lparr>sequence := add64 pos 1\<rparr>) s))"
proof -
  note q = queue_inv_parts [OF inv]
  let ?s = "goto t (PushDone pos) (upd_cell pos (\<lambda>c. c\<lparr>sequence := add64 pos 1\<rparr>) s)"
  let ?c = "(buffer s ! (pos mod length (buffer s)))\<lparr>sequence := pos + 1\<rparr>"
  let ?B = "(buffer s)[pos mod length (buffer s) := ?c]"
  have P: "pos \<in> PPs s"
    using pc in_tickets [of ptick "pcs s" t] by simp
  then have "add64 pos 1 = pos + 1"
    using q(9) [OF P] b by (simp add: add64_small)
  then have B: "buffer ?s = ?B"
    by (simp add: goto_def upd_cell_def cell_index_eq [OF inv])
  have N: "0 < length (buffer s)"
    using q(6) by linarith
  have m: "moved ptick s t (PushDone pos) = PPs s - {pos}" "moved ttick s t (PushDone pos) = PTs s"
    using pc by (simp_all add: moved_def)
  have d: "datum ?B p = datum (buffer s) p" for p
    by (intro datum_upd_same N) (simp add: datum_def)
  have oth: "local_ok ?B (pushed s) (claimed s) (PPs s - {pos}) (PTs s) (pcs s u)"
    if "local_ok (buffer s) (pushed s) (claimed s) (PPs s) (PTs s) (pcs s u)" for u
    using that by (cases "pcs s u") (auto simp: local_ok_def d [simplified])
  have "datum (buffer s) pos = pushed s ! pos"
    using q(2) [of t] pc by (simp add: local_ok_def)
  from cells_publish [OF q(1) P this, of ?c] have "cells_ok ?B (pushed s) (claimed s) (PPs s - {pos}) (PTs s)"
    by (simp add: datum_def)
  then show ?thesis
    using oth q pc unfolding B [symmetric]
    by (intro queue_inv_step [OF inv _ _ _ _ _ m, of ?s]) (auto simp: goto_def upd_cell_def local_ok_def)
qed

lemma free_inv:
  assumes inv: "queue_inv s" and b: "length (pushed s) + length (buffer s) + 1 < 2 ^ 63" and pc: "pcs s t = TakeFree pos v"
  shows "queue_inv (goto t (TakeDone pos v) (upd_cell pos (\<lambda>c. c\<lparr>sequence := add64 (add64 pos (buffer_mask s)) 1\<rparr>) s))"
proof -
  note q = queue_inv_parts [OF inv]
  let ?s = "goto t (TakeDone pos v) (upd_cell pos (\<lambda>c. c\<lparr>sequence := add64 (add64 pos (buffer_mask s)) 1\<rparr>) s)"
  let ?c = "(buffer s ! (pos mod length (buffer s)))\<lparr>sequence := pos + length (buffer s)\<rparr>"
  let ?B = "(buffer s)[pos mod length (buffer s) := ?c]"
  have T: "pos \<in> PTs s"
    using pc in_tickets [of ttick "pcs s" t] by simp
  have lt: "pos < claimed s"
    by (rule q(10) [OF T])
  have "add64 (add64 pos (buffer_mask s)) 1 = pos + length (buffer s)"
    using lt q(5,6,7) b by (simp add: add64_small)
  then have B: "buffer ?s = ?B"
    by (simp add: goto_def upd_cell_def cell_index_eq [OF inv])
  have N: "0 < length (buffer s)"
    using q(6) by linarith
  have m: "moved ptick s t (TakeDone pos v) = PPs s" "moved ttick s t (TakeDone pos v) = PTs s - {pos}"
    using pc by (simp_all add: moved_def)
  have d: "datum ?B p = datum (buffer s) p" for p
    by (intro datum_upd_same N) (simp add: datum_def)
  have oth: "local_ok ?B (pushed s) (claimed s) (PPs s) (PTs s - {pos}) (pcs s u)"
    if "local_ok (buffer s) (pushed s) (claimed s) (PPs s) (PTs s) (pcs s u)" for u
    using that by (cases "pcs s u") (auto simp: local_ok_def d)
  have "cells_ok ?B (pushed s) (claimed s) (PPs s) (PTs s - {pos})"
    by (rule cells_free [OF q(1) T]) simp
  moreover have "v = pushed s ! pos"
    using q(2) [of t] pc by (simp add: local_ok_def)
  ultimately show ?thesis
    using oth q pc lt unfolding B [symmetric]
    by (intro queue_inv_step [OF inv _ _ _ _ _ m, of ?s]) (auto simp: goto_def upd_cell_def local_ok_def)
qed

lemma queue_step_inv:
  assumes inv: "queue_inv s" and b: "length (pushed s) + length (buffer s) + 1 < 2 ^ 63"
  shows "queue_inv (queue_step call weak t s)"
proof -
  have start: "queue_inv (case call of Some v \<Rightarrow> goto t (PushTop v (enqueue_pos s)) s | None \<Rightarrow> goto t (TakeTop (dequeue_pos s)) s)"
    if "ptick (pcs s t) = None" "ttick (pcs s t) = None"
    using inv that queue_inv_parts(3,4) [OF inv]
    by (cases call) (auto intro!: inv_goto simp: local_ok_def)
  have read: "queue_inv (goto t (TakeFree pos (cell_data (buffer s ! cell_index s pos))) s)" if pc: "pcs s t = TakeRead pos" for pos
  proof -
    have "pos \<in> PTs s"
      using pc in_tickets [of ttick "pcs s" t] by simp
    then have "datum (buffer s) pos = pushed s ! pos"
      using queue_inv_parts(1) [OF inv] by (auto simp: cells_ok_def)
    then show ?thesis
      using inv pc by (intro inv_goto) (auto simp: local_ok_def datum_def cell_index_eq [OF inv])
  qed
  show ?thesis
    using inv start read push_top_inv [OF inv b, of t] push_cas_inv [OF inv b, of t] fill_inv [OF inv, of t]
      publish_inv [OF inv b, of t] take_top_inv [OF inv b, of t] take_cas_inv [OF inv b, of t] free_inv [OF inv b, of t]
      queue_inv_parts(3,4) [OF inv]
    unfolding queue_step_def by (cases "pcs s t") (auto intro!: inv_goto simp: local_ok_def)
qed

lemma queue_step_grows:
  "length (buffer (queue_step call weak t s)) = length (buffer s)"
  "\<exists>ys. pushed (queue_step call weak t s) = pushed s @ ys"
  by (auto simp: queue_step_def push_top_def push_cas_def take_top_def take_cas_def goto_def upd_cell_def Let_def
      split: qpc.split option.split)

lemma power_of_two: "0 < n \<Longrightarrow> n AND (n - 1) = (0 :: nat) \<Longrightarrow> \<exists>k. n = 2 ^ k"
proof (induction n rule: less_induct)
  case (less n)
  show ?case
  proof (cases "even n")
    case True
    then obtain m where m: "n = 2 * m" "0 < m"
      using less.prems(1) by auto
    then have "(n - 1) div 2 = m - 1"
      by simp
    then have "m AND (m - 1) = 0"
      using less.prems(2) and_rec [of n "n - 1"] m(1) by simp
    then obtain k where "m = 2 ^ k"
      using less.IH [of m] m by auto
    then show ?thesis
      using m(1) by (intro exI [of _ "Suc k"]) simp
  next
    case False
    then obtain m where m: "n = 2 * m + 1"
      using oddE by blast
    then have "m = 0"
      using less.prems(2) and_rec [of n "n - 1"] by simp
    then show ?thesis
      using m by (intro exI [of _ 0]) simp
  qed
qed

lemma queue_init_inv:
  assumes "mpmc_bounded_queue junk n = Inr s" "n < 2 ^ 63"
  shows "queue_inv s \<and> length (buffer s) = n"
proof -
  have n: "2 \<le> n" "n AND (n - 1) = 0" and s: "s = \<lparr>buffer = map (\<lambda>i. \<lparr>sequence = i, cell_data = junk\<rparr>) [0..<n],
      buffer_mask = n - 1, enqueue_pos = 0, dequeue_pos = 0, pcs = (\<lambda>_. Idle), pushed = [], claimed = 0\<rparr>"
    using assms(1) by (auto simp: mpmc_bounded_queue_def split: if_splits)
  have "\<exists>k. n = 2 ^ k"
    using power_of_two [of n] n by simp
  moreover have "cells_ok (buffer s) [] 0 {} {}"
    using n(1) by (auto simp: s cells_ok_def seqno_def)
  ultimately show ?thesis
    by (simp add: queue_inv_def s tickets_def distinct_tickets_def local_ok_def)
qed

lemma reach_inv:
  assumes "reach s0 s" "queue_inv s0" "length (pushed s) + length (buffer s0) + 1 < 2 ^ 63"
  shows "queue_inv s \<and> length (buffer s) = length (buffer s0)"
  using assms
proof (induction rule: reach.induct)
  case (reach_step s call weak t)
  obtain ys where "pushed (queue_step call weak t s) = pushed s @ ys"
    using queue_step_grows(2) by blast
  then have b: "length (pushed s) + length (buffer s0) + 1 < 2 ^ 63"
    using reach_step.prems(2) by simp
  then show ?case
    using reach_step queue_step_inv [of s] by (auto simp: queue_step_grows(1))
qed simp

text \<open>
  C2. First in, first out, for any number of threads and any interleaving of their steps: the take that
  claimed position \<open>q\<close> returns the value of the push that claimed position \<open>q\<close>, and no more takes than
  pushes have claimed a position. The bound says that fewer than about \<open>2 ^ 63\<close> values were pushed.
\<close>

theorem mpmc_fifo:
  assumes "mpmc_bounded_queue junk n = Inr s0" "reach s0 s" "length (pushed s) + n + 1 < 2 ^ 63"
  shows "claimed s \<le> length (pushed s) \<and> length (pushed s) \<le> claimed s + n \<and>
         (\<forall>t q v. pcs s t = TakeDone q v \<longrightarrow> q < claimed s \<and> v = pushed s ! q)"
proof -
  have "queue_inv s0" "length (buffer s0) = n"
    using queue_init_inv [OF assms(1)] assms(3) by simp_all
  then have inv: "queue_inv s" "length (buffer s) = n"
    using reach_inv [OF assms(2)] assms(3) by simp_all
  have "q < claimed s \<and> v = pushed s ! q" if "pcs s t = TakeDone q v" for t q v
    using queue_inv_parts(2) [OF inv(1), of t] that by (simp add: local_ok_def)
  then show ?thesis
    using queue_inv_parts(7,8) [OF inv(1)] inv(2) by simp
qed

text \<open>Two threads: thread 0 pushes 7, thread 1 takes.\<close>

fun run :: "(nat option \<times> nat) list \<Rightarrow> nat mpmc_bounded_queue \<Rightarrow> nat mpmc_bounded_queue" where
  "run [] s = s"
| "run ((call, t) # cs) s = run cs (queue_step call False t s)"

definition demo_queue :: "nat mpmc_bounded_queue" where
  "demo_queue = projr (mpmc_bounded_queue 0 2)"

definition demo_run :: "nat mpmc_bounded_queue" where
  "demo_run = run [(Some 7, 0), (None, 1), (None, 0), (None, 0), (None, 0), (None, 1), (None, 0),
                   (None, 1), (None, 1), (None, 1), (None, 1), (None, 1)] demo_queue"

lemma reach_run: "reach s0 s \<Longrightarrow> reach s0 (run cs s)"
  by (induction cs s rule: run.induct) (auto intro: reach.intros)

lemma demo_queue_eq: "mpmc_bounded_queue 0 2 = Inr demo_queue"
  by (simp add: demo_queue_def mpmc_bounded_queue_def)

lemmas step_eval = queue_step_def push_top_def push_cas_def take_top_def take_cas_def goto_def upd_cell_def
  cell_index_def dif64_def add64_def

lemma demo_run_eq: "pcs demo_run 1 = TakeDone 0 7" "pushed demo_run = [7]"
  by (simp_all add: demo_run_def demo_queue_def mpmc_bounded_queue_def step_eval upt_rec numeral_2_eq_2)

theorem mpmc_fifo_witness: "pcs demo_run 1 = TakeDone 0 7 \<and> 7 = pushed demo_run ! 0"
proof -
  have "reach demo_queue demo_run"
    unfolding demo_run_def by (rule reach_run) (rule reach_refl)
  from mpmc_fifo [OF demo_queue_eq this] show ?thesis
    using demo_run_eq by simp
qed

end
