(* ===== verification/Syscall_Format.thy ===== *)
theory Syscall_Format
  imports Slub
begin

text \<open>
  System call arguments on their way out of the enclave and back
  (\<open>include/syscall_format.h\<close>, \<open>libOS/syscall_format.cpp\<close>).

  A pointer argument is copied to a block of untrusted memory, the kernel works on the block, and the
  arguments listed by \<open>needWriteBack\<close> are copied back. Memory is a map from addresses to bytes; an
  access outside its domain is a wild access. \<open>long\<close> arguments are 64-bit signed values. The allocator
  of the blocks is a parameter of the copying functions; the last section passes the slab allocator.
  The sizes of C library structures whose members the code never looks at are the parameter \<open>csizeof\<close>,
  indexed by the pointer type.
\<close>

section \<open>Argument types\<close>

definition NON_PTR :: nat where
  "NON_PTR = 0"

definition CHAR_PTR :: nat where
  "CHAR_PTR = 1"

definition EVENT_PTR :: nat where
  "EVENT_PTR = 2"

definition SOCKADDR_PTR :: nat where
  "SOCKADDR_PTR = 3"

definition INT_PTR :: nat where
  "INT_PTR = 4"

definition IOVEC_PTR :: nat where
  "IOVEC_PTR = 5"

definition IOC_PTR :: nat where
  "IOC_PTR = 6"

definition SOKADDR_PTR :: nat where
  "SOKADDR_PTR = 7"

definition MSGHDR_PTR :: nat where
  "MSGHDR_PTR = 8"

definition SIGSET_PTR :: nat where
  "SIGSET_PTR = 9"

definition TIMESPEC_PTR :: nat where
  "TIMESPEC_PTR = 10"

definition OLD_UTSNAME_PTR :: nat where
  "OLD_UTSNAME_PTR = 11"

definition STAT_PTR :: nat where
  "STAT_PTR = 12"

definition TIMEVAL_PTR :: nat where
  "TIMEVAL_PTR = 13"

definition TIMEZONE_PTR :: nat where
  "TIMEZONE_PTR = 14"

definition ADDR_PTR :: nat where
  "ADDR_PTR = 15"

definition FD_PAIR_PTR :: nat where
  "FD_PAIR_PTR = 16"

definition RUSAGE_PTR :: nat where
  "RUSAGE_PTR = 17"

definition RLIMIT_PTR :: nat where
  "RLIMIT_PTR = 18"

section \<open>System call numbers\<close>

definition SYS_BRK :: nat where
  "SYS_BRK = 12"

definition SYS_GETEGID :: nat where
  "SYS_GETEGID = 108"

definition SYS_PIPE2 :: nat where
  "SYS_PIPE2 = 293"

definition SYS_PIPE :: nat where
  "SYS_PIPE = 22"

definition SYS_READ :: nat where
  "SYS_READ = 0"

definition SYS_WRITE :: nat where
  "SYS_WRITE = 1"

definition SYS_OPEN :: nat where
  "SYS_OPEN = 2"

definition SYS_CLOSE :: nat where
  "SYS_CLOSE = 3"

definition SYS_FSTAT :: nat where
  "SYS_FSTAT = 5"

definition SYS_MPROTECT :: nat where
  "SYS_MPROTECT = 10"

definition SYS_IOCTL :: nat where
  "SYS_IOCTL = 16"

definition SYS_WRITEV :: nat where
  "SYS_WRITEV = 20"

definition SYS_ACCESS :: nat where
  "SYS_ACCESS = 21"

definition SYS_DUP :: nat where
  "SYS_DUP = 32"

definition SYS_GETPID :: nat where
  "SYS_GETPID = 39"

definition SYS_SOCKET :: nat where
  "SYS_SOCKET = 41"

definition SYS_CONNECT :: nat where
  "SYS_CONNECT = 42"

definition SYS_ACCEPT :: nat where
  "SYS_ACCEPT = 43"

definition SYS_SENDTO :: nat where
  "SYS_SENDTO = 44"

definition SYS_RECVFROM :: nat where
  "SYS_RECVFROM = 45"

definition SYS_SENDMSG :: nat where
  "SYS_SENDMSG = 46"

definition SYS_RECVMSG :: nat where
  "SYS_RECVMSG = 47"

definition SYS_BIND :: nat where
  "SYS_BIND = 49"

definition SYS_LISTEN :: nat where
  "SYS_LISTEN = 50"

definition SYS_GETSOCKNAME :: nat where
  "SYS_GETSOCKNAME = 51"

definition SYS_GETPEERNAME :: nat where
  "SYS_GETPEERNAME = 52"

definition SYS_SETSOCKOPT :: nat where
  "SYS_SETSOCKOPT = 54"

definition SYS_EXIT :: nat where
  "SYS_EXIT = 60"

definition SYS_UNAME :: nat where
  "SYS_UNAME = 63"

definition SYS_FCNTL :: nat where
  "SYS_FCNTL = 72"

definition SYS_GETTIMEOFDAY :: nat where
  "SYS_GETTIMEOFDAY = 96"

definition SYS_GETRLIMIT :: nat where
  "SYS_GETRLIMIT = 97"

definition SYS_GETRUSAGE :: nat where
  "SYS_GETRUSAGE = 98"

definition SYS_GETGID :: nat where
  "SYS_GETGID = 104"

definition SYS_SETRLIMIT :: nat where
  "SYS_SETRLIMIT = 160"

definition SYS_EPOLL_CREATE :: nat where
  "SYS_EPOLL_CREATE = 213"

definition SYS_CLOCK_GETTIME :: nat where
  "SYS_CLOCK_GETTIME = 228"

definition SYS_EPOLL_CTL :: nat where
  "SYS_EPOLL_CTL = 233"

definition SYS_EPOLL_WAIT :: nat where
  "SYS_EPOLL_WAIT = 232"

definition SYS_OPENAT :: nat where
  "SYS_OPENAT = 257"

definition SYS_EPOLL_PWAIT :: nat where
  "SYS_EPOLL_PWAIT = 281"

definition SYS_ACCEPT4 :: nat where
  "SYS_ACCEPT4 = 288"

definition SYS_EPOLL_CREATE1 :: nat where
  "SYS_EPOLL_CREATE1 = 291"

definition SYS_GETUID :: nat where
  "SYS_GETUID = 102"

definition SYS_GETEUID :: nat where
  "SYS_GETEUID = 107"

lemmas ptr_defs =
  NON_PTR_def CHAR_PTR_def EVENT_PTR_def SOCKADDR_PTR_def INT_PTR_def IOVEC_PTR_def IOC_PTR_def SOKADDR_PTR_def
  MSGHDR_PTR_def SIGSET_PTR_def TIMESPEC_PTR_def OLD_UTSNAME_PTR_def STAT_PTR_def TIMEVAL_PTR_def
  TIMEZONE_PTR_def ADDR_PTR_def FD_PAIR_PTR_def RUSAGE_PTR_def RLIMIT_PTR_def

lemmas sys_defs =
  
  SYS_BRK_def SYS_GETEGID_def SYS_PIPE2_def SYS_PIPE_def
  SYS_READ_def SYS_WRITE_def SYS_OPEN_def SYS_CLOSE_def SYS_FSTAT_def SYS_MPROTECT_def SYS_IOCTL_def
  SYS_WRITEV_def SYS_ACCESS_def SYS_DUP_def SYS_GETPID_def SYS_SOCKET_def SYS_CONNECT_def SYS_ACCEPT_def
  SYS_SENDTO_def SYS_RECVFROM_def SYS_SENDMSG_def SYS_RECVMSG_def SYS_BIND_def SYS_LISTEN_def
  SYS_GETSOCKNAME_def SYS_GETPEERNAME_def SYS_SETSOCKOPT_def SYS_EXIT_def SYS_UNAME_def SYS_FCNTL_def
  SYS_GETTIMEOFDAY_def SYS_GETRLIMIT_def SYS_GETRUSAGE_def SYS_GETGID_def SYS_SETRLIMIT_def
  SYS_EPOLL_CREATE_def SYS_CLOCK_GETTIME_def SYS_EPOLL_CTL_def SYS_EPOLL_WAIT_def SYS_OPENAT_def
  SYS_EPOLL_PWAIT_def SYS_ACCEPT4_def SYS_EPOLL_CREATE1_def SYS_GETUID_def SYS_GETEUID_def

section \<open>The tables\<close>

definition syscall_table :: "(nat \<times> nat list) list" where
  "syscall_table =
     [(SYS_GETGID, []),
      (SYS_GETUID, []),
      (SYS_GETEUID, []),
      (SYS_GETEGID, []),
      (SYS_GETPID, []),
      (SYS_CLOSE, [NON_PTR]),
      (SYS_BRK, [ADDR_PTR]),
      (SYS_EPOLL_CREATE, [NON_PTR]),
      (SYS_DUP, [NON_PTR]),
      (SYS_EPOLL_CREATE1, [NON_PTR]),
      (SYS_EXIT, [NON_PTR]),
      (SYS_UNAME, [OLD_UTSNAME_PTR]),
      (SYS_DUP, [NON_PTR]),
      (SYS_PIPE, [FD_PAIR_PTR]),
      (SYS_GETRUSAGE, [NON_PTR, RUSAGE_PTR]),
      (SYS_GETTIMEOFDAY, [TIMEVAL_PTR, TIMEZONE_PTR]),
      (SYS_LISTEN, [NON_PTR, NON_PTR]),
      (SYS_CLOCK_GETTIME, [NON_PTR, TIMESPEC_PTR]),
      (SYS_ACCESS, [CHAR_PTR, NON_PTR]),
      (SYS_FSTAT, [NON_PTR, STAT_PTR]),
      (SYS_PIPE2, [FD_PAIR_PTR, NON_PTR]),
      (SYS_GETRLIMIT, [NON_PTR, RLIMIT_PTR]),
      (SYS_SETRLIMIT, [NON_PTR, RLIMIT_PTR]),
      (SYS_ACCEPT, [NON_PTR, SOKADDR_PTR, INT_PTR]),
      (SYS_BIND, [NON_PTR, SOKADDR_PTR, NON_PTR]),
      (SYS_CONNECT, [NON_PTR, SOKADDR_PTR, NON_PTR]),
      (SYS_GETSOCKNAME, [NON_PTR, SOCKADDR_PTR, INT_PTR]),
      (SYS_GETPEERNAME, [NON_PTR, SOCKADDR_PTR, INT_PTR]),
      (SYS_IOCTL, [NON_PTR, NON_PTR, NON_PTR]),
      (SYS_MPROTECT, [NON_PTR, NON_PTR, NON_PTR]),
      (SYS_FCNTL, [NON_PTR, NON_PTR, NON_PTR]),
      (SYS_OPEN, [CHAR_PTR, NON_PTR, NON_PTR]),
      (SYS_READ, [NON_PTR, CHAR_PTR, NON_PTR]),
      (SYS_SOCKET, [NON_PTR, NON_PTR, NON_PTR]),
      (SYS_WRITE, [NON_PTR, CHAR_PTR, NON_PTR]),
      (SYS_WRITEV, [NON_PTR, IOVEC_PTR, NON_PTR]),
      (SYS_SENDMSG, [NON_PTR, MSGHDR_PTR, NON_PTR]),
      (SYS_RECVMSG, [NON_PTR, MSGHDR_PTR, NON_PTR]),
      (SYS_OPENAT, [NON_PTR, CHAR_PTR, NON_PTR, NON_PTR]),
      (SYS_ACCEPT4, [NON_PTR, SOKADDR_PTR, INT_PTR, NON_PTR]),
      (SYS_EPOLL_CTL, [NON_PTR, NON_PTR, NON_PTR, EVENT_PTR]),
      (SYS_EPOLL_WAIT, [NON_PTR, EVENT_PTR, NON_PTR, NON_PTR]),
      (SYS_SETSOCKOPT, [NON_PTR, NON_PTR, NON_PTR, CHAR_PTR, NON_PTR]),
      (SYS_SENDTO, [NON_PTR, CHAR_PTR, NON_PTR, NON_PTR, SOKADDR_PTR, NON_PTR]),
      (SYS_RECVFROM, [NON_PTR, CHAR_PTR, NON_PTR, NON_PTR, SOKADDR_PTR, INT_PTR]),
      (SYS_EPOLL_PWAIT, [NON_PTR, EVENT_PTR, NON_PTR, NON_PTR, SIGSET_PTR, NON_PTR])]"

definition type_table :: "(nat \<Rightarrow> nat) \<Rightarrow> nat \<rightharpoonup> nat" where
  "type_table csizeof =
     map_of [(CHAR_PTR, 256),
             (EVENT_PTR, csizeof EVENT_PTR),
             (INT_PTR, 4),
             (ADDR_PTR, 8),
             (IOVEC_PTR, 16),
             (IOC_PTR, csizeof IOC_PTR),
             (SOKADDR_PTR, csizeof SOKADDR_PTR),
             (MSGHDR_PTR, 56),
             (SIGSET_PTR, csizeof SIGSET_PTR),
             (TIMESPEC_PTR, csizeof TIMESPEC_PTR),
             (OLD_UTSNAME_PTR, csizeof OLD_UTSNAME_PTR),
             (STAT_PTR, csizeof STAT_PTR),
             (TIMEVAL_PTR, csizeof TIMEVAL_PTR),
             (TIMEZONE_PTR, csizeof TIMEZONE_PTR),
             (FD_PAIR_PTR, 8),
             (RUSAGE_PTR, csizeof RUSAGE_PTR),
             (RLIMIT_PTR, csizeof RLIMIT_PTR)]"

record syscall_tables =
  st_table :: "(nat \<times> nat list) list"
  ty_table :: "nat \<rightharpoonup> nat"

definition initSyscallTable :: "(nat \<Rightarrow> nat) \<Rightarrow> syscall_tables option \<Rightarrow> syscall_tables option result" where
  "initSyscallTable csizeof tables =
     (if tables \<noteq> None then Inl Ud2
      else Inr (Some \<lparr>st_table = syscall_table, ty_table = type_table csizeof\<rparr>))"

section \<open>Requests\<close>

record format_t =
  syscall_num :: nat
  epoll_ty :: int
  args_num :: nat
  types :: "nat list"
  sizes :: "nat list"

record syscall_arg_t =
  arg :: int
  data :: nat

definition syscall_arg_t :: syscall_arg_t where
  "syscall_arg_t = \<lparr>arg = 0, data = 0\<rparr>"

record SyscallRequest =
  sys_ret :: int
  fm_list :: format_t
  args :: "syscall_arg_t list"

definition setEPOLL :: "nat \<Rightarrow> format_t \<Rightarrow> format_t" where
  "setEPOLL num fm =
     (let fm = fm\<lparr>epoll_ty := 0\<rparr> in
      if num = SYS_EPOLL_CREATE \<or> num = SYS_EPOLL_CREATE1 then fm\<lparr>epoll_ty := 1\<rparr>
      else if num = SYS_EPOLL_CTL then fm\<lparr>epoll_ty := 2\<rparr>
      else if num = SYS_EPOLL_WAIT \<or> num = SYS_EPOLL_PWAIT then fm\<lparr>epoll_ty := 3\<rparr>
      else fm)"

text \<open>\<open>fm\<close> starts out as the contents of the stack; \<open>emplace\<close> keeps the first entry of a number.\<close>

fun set_types :: "nat \<Rightarrow> nat list \<Rightarrow> format_t \<Rightarrow> format_t" where
  "set_types i [] fm = fm"
| "set_types i (t # ts) fm = set_types (i + 1) ts (fm\<lparr>types := (types fm)[i := t], sizes := (sizes fm)[i := 0]\<rparr>)"

definition interpretSyscall :: "syscall_tables \<Rightarrow> format_t \<Rightarrow> format_t \<Rightarrow> nat \<Rightarrow> bool \<times> format_t" where
  "interpretSyscall tables stack fm_l index =
     (case map_of (st_table tables) index of
        None \<Rightarrow> (False, fm_l)
      | Some ts \<Rightarrow>
          let fm = (setEPOLL index stack)\<lparr>syscall_num := index, args_num := length ts\<rparr>
          in (True, set_types 0 ts fm))"

definition needWriteBack :: "nat \<Rightarrow> nat \<Rightarrow> bool" where
  "needWriteBack num index \<longleftrightarrow>
     (num = SYS_READ \<and> index = 1)
     \<or> (num = SYS_EPOLL_WAIT \<and> index = 1)
     \<or> (num = SYS_EPOLL_PWAIT \<and> index = 1)
     \<or> (num = SYS_GETSOCKNAME \<and> index = 1)
     \<or> (num = SYS_GETSOCKNAME \<and> index = 2)
     \<or> (num = SYS_ACCEPT \<and> index = 1)
     \<or> (num = SYS_ACCEPT \<and> index = 2)
     \<or> (num = SYS_RECVFROM \<and> index = 4)
     \<or> (num = SYS_RECVFROM \<and> index = 5)
     \<or> (num = SYS_RECVMSG \<and> index = 1)
     \<or> num = SYS_PIPE
     \<or> (num = SYS_PIPE2 \<and> index = 0)
     \<or> (num = SYS_GETPEERNAME \<and> index = 1)
     \<or> (num = SYS_CLOCK_GETTIME \<and> index = 1)
     \<or> (num = SYS_GETPEERNAME \<and> index = 2)
     \<or> (num = SYS_GETRLIMIT \<and> index = 1)"

section \<open>Memory\<close>

record 'h memory =
  bytes :: "nat \<rightharpoonup> u8"
  heap :: 'h

definition mapped :: "nat \<Rightarrow> nat \<Rightarrow> 'h memory \<Rightarrow> bool" where
  "mapped a n m \<longleftrightarrow> list_all (\<lambda>i. bytes m (a + i) \<noteq> None) [0..<n]"

definition memcpy :: "nat \<Rightarrow> nat \<Rightarrow> nat \<Rightarrow> 'h memory \<Rightarrow> 'h memory result" where
  "memcpy dst src n m =
     (if mapped dst n m \<and> mapped src n m
      then Inr (m\<lparr>bytes := (\<lambda>a. if dst \<le> a \<and> a < dst + n then bytes m (src + (a - dst)) else bytes m a)\<rparr>)
      else Inl Wild)"

fun word_at :: "nat \<Rightarrow> nat \<Rightarrow> (nat \<rightharpoonup> u8) \<Rightarrow> nat" where
  "word_at 0 a B = 0"
| "word_at (Suc n) a B = unat (the (B a)) + 256 * word_at n (a + 1) B"

fun put_word :: "nat \<Rightarrow> nat \<Rightarrow> nat \<Rightarrow> (nat \<rightharpoonup> u8) \<Rightarrow> (nat \<rightharpoonup> u8)" where
  "put_word 0 a v B = B"
| "put_word (Suc n) a v B = put_word n (a + 1) (v div 256) (B(a \<mapsto> word_of_nat v))"

definition load :: "nat \<Rightarrow> nat \<Rightarrow> 'h memory \<Rightarrow> nat result" where
  "load n a m = (if mapped a n m then Inr (word_at n a (bytes m)) else Inl Wild)"

definition store :: "nat \<Rightarrow> nat \<Rightarrow> nat \<Rightarrow> 'h memory \<Rightarrow> 'h memory result" where
  "store n a v m = (if mapped a n m then Inr (m\<lparr>bytes := put_word n a v (bytes m)\<rparr>) else Inl Wild)"

section \<open>Sizes\<close>

definition u32_of_int :: "int \<Rightarrow> nat" where
  "u32_of_int i = nat (i mod 2 ^ 32)"

text \<open>The size of a pointer argument times the element count in the next argument, in \<open>unsigned int\<close>.\<close>

definition counted_size :: "syscall_tables \<Rightarrow> SyscallRequest \<Rightarrow> nat \<Rightarrow> nat" where
  "counted_size tables req i =
     (case ty_table tables (types (fm_list req) ! i) of
        None \<Rightarrow> 0
      | Some s \<Rightarrow> u32_of_int (int s * s32 (arg (args req ! (i + 1)))))"

definition plain_size :: "syscall_tables \<Rightarrow> SyscallRequest \<Rightarrow> nat \<Rightarrow> nat" where
  "plain_size tables req i =
     (case ty_table tables (types (fm_list req) ! i) of None \<Rightarrow> 0 | Some s \<Rightarrow> s)"

text \<open>The length behind the pointer in the next argument.\<close>

definition length_behind :: "SyscallRequest \<Rightarrow> nat \<Rightarrow> 'h memory \<Rightarrow> nat result" where
  "length_behind req i m = load 4 (u64_of_int (arg (args req ! (i + 1)))) m"

definition getSize :: "syscall_tables \<Rightarrow> SyscallRequest \<Rightarrow> nat \<Rightarrow> 'h memory \<Rightarrow> nat result" where
  "getSize tables req i m =
     (let n = syscall_num (fm_list req); next = u32_of_int (arg (args req ! (i + 1))) in
      if n \<in> {SYS_READ, SYS_WRITE, SYS_BIND, SYS_SETSOCKOPT, SYS_SENDTO, SYS_CONNECT} then Inr next
      else if n = SYS_RECVFROM then
        (if i = 1 then Inr next else if i = 4 then length_behind req i m else Inr 4)
      else if n \<in> {SYS_ACCEPT, SYS_GETSOCKNAME, SYS_GETPEERNAME} then
        (if i = 1 then length_behind req i m else Inr 4)
      else if n = SYS_EPOLL_PWAIT then
        (if i = 4 then Inr next else Inr (counted_size tables req i))
      else if n \<in> {SYS_EPOLL_WAIT, SYS_WRITEV} then Inr (counted_size tables req i)
      else Inr (plain_size tables req i))"

section \<open>Copying out\<close>

type_synonym 'h allocate = "nat \<Rightarrow> 'h \<Rightarrow> (nat \<times> 'h) result"
type_synonym 'h release = "nat \<Rightarrow> 'h \<Rightarrow> 'h result"

definition take_block :: "'h allocate \<Rightarrow> nat \<Rightarrow> 'h memory \<Rightarrow> (nat \<times> 'h memory) result" where
  "take_block alloc n m = rbind (alloc n (heap m)) (\<lambda>(p, h). Inr (p, m\<lparr>heap := h\<rparr>))"

text \<open>
  \<open>memberCopy\<close>: the member at offset \<open>tar\<close> points to as many bytes as the member at offset \<open>len\<close>, of
  \<open>w\<close> bytes, says, times \<open>fac\<close>; the product is an \<open>int\<close>.
\<close>

definition memberCopy ::
  "'h allocate \<Rightarrow> nat \<Rightarrow> nat \<Rightarrow> nat \<Rightarrow> nat \<Rightarrow> nat \<Rightarrow> nat \<Rightarrow> 'h memory \<Rightarrow> 'h memory result" where
  "memberCopy alloc src des tar len w fac m =
     rbind (load w (src + len) m) (\<lambda>l.
     let sz = u64_of_int (s32 (int l * int fac)) in
     rbind (take_block alloc sz m) (\<lambda>(p, m1).
     rbind (store 8 (des + tar) p m1) (\<lambda>m2.
     rbind (load 8 (des + tar) m2) (\<lambda>d.
     rbind (load 8 (src + tar) m2) (\<lambda>s. memcpy d s sz m2)))))"

text \<open>\<open>iovec\<close>: the base at offset 0, the length at offset 8, 16 bytes.\<close>

fun copy_iovecs :: "'h allocate \<Rightarrow> nat \<Rightarrow> nat \<Rightarrow> nat \<Rightarrow> 'h memory \<Rightarrow> 'h memory result" where
  "copy_iovecs alloc 0 src des m = Inr m"
| "copy_iovecs alloc (Suc n) src des m =
     rbind (memberCopy alloc src des 0 8 8 1 m) (\<lambda>m1. copy_iovecs alloc n (src + 16) (des + 16) m1)"

text \<open>
  \<open>msghdr\<close>: name at 0 with a 4-byte length at 8, the iovecs at 16 with their count at 24, control
  data at 32 with its length at 40.
\<close>

definition copy_msghdr :: "'h allocate \<Rightarrow> nat \<Rightarrow> nat \<Rightarrow> 'h memory \<Rightarrow> 'h memory result" where
  "copy_msghdr alloc src des m =
     rbind (memberCopy alloc src des 0 8 4 1 m) (\<lambda>m1.
     rbind (memberCopy alloc src des 16 24 8 16 m1) (\<lambda>m2.
     rbind (memberCopy alloc src des 32 40 8 1 m2) (\<lambda>m3.
     rbind (load 8 (src + 16) m3) (\<lambda>src_iov.
     rbind (load 8 (des + 16) m3) (\<lambda>des_iov.
     rbind (load 8 (src + 24) m3) (\<lambda>n. copy_iovecs alloc n src_iov des_iov m3))))))"

definition deepCopy :: "'h allocate \<Rightarrow> SyscallRequest \<Rightarrow> nat \<Rightarrow> 'h memory \<Rightarrow> 'h memory result" where
  "deepCopy alloc req index m =
     (let n = syscall_num (fm_list req);
          src = u64_of_int (arg (args req ! index)); des = data (args req ! index)
      in if n = SYS_WRITEV then copy_iovecs alloc (nat (arg (args req ! (index + 1)))) src des m
         else if n = SYS_RECVMSG \<or> n = SYS_SENDMSG then copy_msghdr alloc src des m
         else Inr m)"

definition upd_arg :: "nat \<Rightarrow> (syscall_arg_t \<Rightarrow> syscall_arg_t) \<Rightarrow> SyscallRequest \<Rightarrow> SyscallRequest" where
  "upd_arg i f req = req\<lparr>args := (args req)[i := f (args req ! i)]\<rparr>"

definition fillArg ::
  "'h allocate \<Rightarrow> syscall_tables \<Rightarrow> nat \<Rightarrow> SyscallRequest \<times> 'h memory \<Rightarrow> (SyscallRequest \<times> 'h memory) result" where
  "fillArg alloc tables i = (\<lambda>(req, m).
     if types (fm_list req) ! i = NON_PTR then Inr (req, m)
     else
       rbind (getSize tables req i m) (\<lambda>arg_size.
       let req1 = req\<lparr>fm_list := (fm_list req)\<lparr>sizes := (sizes (fm_list req))[i := arg_size]\<rparr>\<rparr> in
       rbind (take_block alloc arg_size m) (\<lambda>(p, m1).
       let req2 = upd_arg i (\<lambda>a. a\<lparr>data := p\<rparr>) req1 in
       rbind (if arg (args req2 ! i) \<noteq> 0 then memcpy p (u64_of_int (arg (args req2 ! i))) arg_size m1 else Inr m1) (\<lambda>m2.
       rbind (deepCopy alloc req2 i m2) (\<lambda>m3.
         Inr (upd_arg i (\<lambda>a. a\<lparr>arg := int (data a)\<rparr>) req2, m3))))))"

fun each_arg :: "(nat \<Rightarrow> 's \<Rightarrow> 's result) \<Rightarrow> nat list \<Rightarrow> 's \<Rightarrow> 's result" where
  "each_arg f [] s = Inr s"
| "each_arg f (i # is) s = rbind (f i s) (each_arg f is)"

text \<open>The test \<open>arg_size < 0\<close> of an unsigned value is never true, so the function always returns true.\<close>

definition fillArgs ::
  "'h allocate \<Rightarrow> syscall_tables \<Rightarrow> SyscallRequest \<Rightarrow> 'h memory \<Rightarrow> (bool \<times> SyscallRequest \<times> 'h memory) result" where
  "fillArgs alloc tables req m =
     rbind (each_arg (fillArg alloc tables) [0..<args_num (fm_list req)] (req, m)) (\<lambda>(req', m'). Inr (True, req', m'))"

section \<open>Copying back\<close>

definition memberWriteBack :: "nat \<Rightarrow> nat \<Rightarrow> nat \<Rightarrow> int \<Rightarrow> 'h memory \<Rightarrow> 'h memory result" where
  "memberWriteBack src des tar len m =
     rbind (load 8 (des + tar) m) (\<lambda>d.
     rbind (load 8 (src + tar) m) (\<lambda>s. memcpy d s (u64_of_int len) m))"

fun writeBack_iovecs :: "nat \<Rightarrow> nat \<Rightarrow> nat \<Rightarrow> 'h memory \<Rightarrow> 'h memory result" where
  "writeBack_iovecs 0 src des m = Inr m"
| "writeBack_iovecs (Suc n) src des m =
     rbind (load 8 (des + 8) m) (\<lambda>l.
     rbind (memberWriteBack src des 0 (s32 (int l)) m) (\<lambda>m1.
     rbind (load 8 (src + 8) m1) (\<lambda>sl.
     rbind (store 8 (des + 8) sl m1) (\<lambda>m2. writeBack_iovecs n (src + 16) (des + 16) m2))))"

definition writeBack_msghdr :: "nat \<Rightarrow> nat \<Rightarrow> 'h memory \<Rightarrow> 'h memory result" where
  "writeBack_msghdr src des m =
     rbind (load 4 (des + 8) m) (\<lambda>nl.
     rbind (memberWriteBack src des 0 (s32 (int nl)) m) (\<lambda>m1.
     rbind (load 8 (des + 40) m1) (\<lambda>cl.
     rbind (memberWriteBack src des 32 (s32 (int cl)) m1) (\<lambda>m2.
     rbind (load 8 (src + 16) m2) (\<lambda>src_t.
     rbind (load 8 (des + 16) m2) (\<lambda>des_t.
     rbind (load 8 (src + 24) m2) (\<lambda>n. writeBack_iovecs n src_t des_t m2)))))))"

definition writeBack ::
  "SyscallRequest \<Rightarrow> nat \<Rightarrow> int list \<times> 'h memory \<Rightarrow> (int list \<times> 'h memory) result" where
  "writeBack req index = (\<lambda>(enclave_args, m).
     if types (fm_list req) ! index = NON_PTR then Inr (enclave_args[index := arg (args req ! index)], m)
     else
       let src = u64_of_int (arg (args req ! index)); des = u64_of_int (enclave_args ! index) in
       rbind (if syscall_num (fm_list req) = SYS_RECVMSG then writeBack_msghdr src des m
              else memcpy des src (sizes (fm_list req) ! index) m) (\<lambda>m1. Inr (enclave_args, m1)))"

definition fillEnclave :: "SyscallRequest \<Rightarrow> int list \<Rightarrow> 'h memory \<Rightarrow> (int list \<times> 'h memory) result" where
  "fillEnclave req enclave_args m =
     each_arg (\<lambda>i s. if needWriteBack (syscall_num (fm_list req)) i then writeBack req i s else Inr s)
       [0..<args_num (fm_list req)] (enclave_args, m)"

section \<open>Giving the blocks back\<close>

definition give_block :: "'h release \<Rightarrow> nat \<Rightarrow> 'h memory \<Rightarrow> 'h memory result" where
  "give_block release p m = rbind (release p (heap m)) (\<lambda>h. Inr (m\<lparr>heap := h\<rparr>))"

definition memberClean :: "'h release \<Rightarrow> nat \<Rightarrow> nat \<Rightarrow> 'h memory \<Rightarrow> 'h memory result" where
  "memberClean release src tar m = rbind (load 8 (src + tar) m) (\<lambda>p. give_block release p m)"

fun clean_iovecs :: "'h release \<Rightarrow> nat \<Rightarrow> nat \<Rightarrow> 'h memory \<Rightarrow> 'h memory result" where
  "clean_iovecs release 0 src m = Inr m"
| "clean_iovecs release (Suc n) src m =
     rbind (memberClean release src 0 m) (\<lambda>m1. clean_iovecs release n (src + 16) m1)"

definition clean_msghdr :: "'h release \<Rightarrow> nat \<Rightarrow> 'h memory \<Rightarrow> 'h memory result" where
  "clean_msghdr release src m =
     rbind (memberClean release src 0 m) (\<lambda>m1.
     rbind (memberClean release src 32 m1) (\<lambda>m2.
     rbind (load 8 (src + 16) m2) (\<lambda>src_iov.
     rbind (load 8 (src + 24) m2) (\<lambda>n.
     rbind (clean_iovecs release n src_iov m2) (\<lambda>m3. memberClean release src 16 m3)))))"

definition deepClean :: "'h release \<Rightarrow> SyscallRequest \<Rightarrow> nat \<Rightarrow> 'h memory \<Rightarrow> 'h memory result" where
  "deepClean release req index m =
     (if types (fm_list req) ! index = NON_PTR then Inr m
      else
        let n = syscall_num (fm_list req); src = u64_of_int (arg (args req ! index)) in
        if n = SYS_WRITEV then clean_iovecs release (nat (arg (args req ! (index + 1)))) src m
        else if n = SYS_RECVMSG \<or> n = SYS_SENDMSG then clean_msghdr release src m
        else Inr m)"

definition destroy_SyscallRequest :: "'h release \<Rightarrow> SyscallRequest \<Rightarrow> 'h memory \<Rightarrow> 'h memory result" where
  "destroy_SyscallRequest release req m =
     each_arg (\<lambda>i m. if data (args req ! i) \<noteq> 0
                      then rbind (deepClean release req i m) (\<lambda>m1. give_block release (data (args req ! i)) m1)
                      else Inr m) [0..<6] m"

section \<open>With the slab allocator\<close>

type_synonym slub_heap = "slub_cache_obj list \<times> libos_heap slub"

definition slub_alloc :: "nat \<Rightarrow> nat \<Rightarrow> nat \<Rightarrow> slub_heap allocate" where
  "slub_alloc MA_SIZE newAddr cpu len = (\<lambda>(buckets, st).
     rbind (unsafe_slub_malloc MA_SIZE newAddr cpu len buckets st) (\<lambda>(p, buckets', st'). Inr (p, (buckets', st'))))"

definition slub_release :: "slub_heap release" where
  "slub_release p = (\<lambda>(buckets, st). rbind (unsafe_slub_free p st) (\<lambda>st'. Inr (buckets, st')))"

section \<open>Properties\<close>

lemma set_types_spec:
  assumes "i + length ts \<le> length (types fm)" "i + length ts \<le> length (sizes fm)"
  shows "types (set_types i ts fm) = take i (types fm) @ ts @ drop (i + length ts) (types fm) \<and>
         sizes (set_types i ts fm) = take i (sizes fm) @ replicate (length ts) 0 @ drop (i + length ts) (sizes fm) \<and>
         syscall_num (set_types i ts fm) = syscall_num fm \<and> args_num (set_types i ts fm) = args_num fm \<and>
         epoll_ty (set_types i ts fm) = epoll_ty fm"
  using assms
proof (induction ts arbitrary: i fm)
  case (Cons t ts)
  let ?fm = "fm\<lparr>types := (types fm)[i := t], sizes := (sizes fm)[i := 0]\<rparr>"
  have "take (Suc i) (xs[i := x]) = take i xs @ [x]" if "i < length xs" for x :: nat and xs
    using that by (simp add: take_Suc_conv_app_nth)
  then show ?case
    using Cons.IH [of "i + 1" ?fm] Cons.prems by simp
qed simp

lemma syscall_table_wf: "list_all (\<lambda>(n, ts). length ts \<le> 6 \<and> list_all (\<lambda>t. t < 19) ts) syscall_table"
  by (simp add: syscall_table_def ptr_defs)

lemma map_of_wf:
  assumes "map_of syscall_table index = Some ts"
  shows "length ts \<le> 6 \<and> list_all (\<lambda>t. t < 19) ts"
  using map_of_SomeD [OF assms] syscall_table_wf by (auto simp: list_all_iff)

lemma setEPOLL_simps [simp]: "types (setEPOLL n fm) = types fm" "sizes (setEPOLL n fm) = sizes fm"
  by (simp_all add: setEPOLL_def Let_def)

text \<open>
  C28. The format of a system call is well-formed, whatever the stack held before: at most six arguments,
  each with a known pointer type taken from the table and size 0, in arrays of six entries. A number
  that the table does not know leaves the caller's format as it was.
\<close>

theorem interpretSyscall_wf:
  assumes "initSyscallTable csizeof None = Inr (Some tables)" "length (types stack) = 6" "length (sizes stack) = 6"
  shows "case interpretSyscall tables stack fm_l index of
           (ok, fm) \<Rightarrow>
             if ok then syscall_num fm = index \<and> args_num fm \<le> 6 \<and> length (types fm) = 6 \<and> length (sizes fm) = 6 \<and>
               map_of syscall_table index = Some (take (args_num fm) (types fm)) \<and>
               (\<forall>i<args_num fm. types fm ! i < 19 \<and> sizes fm ! i = 0)
             else fm = fm_l \<and> index \<notin> fst ` set syscall_table"
proof (cases "map_of syscall_table index")
  case None
  have "interpretSyscall tables stack fm_l index = (False, fm_l)"
    using assms(1) None by (auto simp: interpretSyscall_def initSyscallTable_def)
  moreover have "index \<notin> fst ` set syscall_table"
    using None by (simp add: map_of_eq_None_iff)
  ultimately show ?thesis
    by simp
next
  case (Some ts)
  let ?fm = "(setEPOLL index stack)\<lparr>syscall_num := index, args_num := length ts\<rparr>"
  have wf: "length ts \<le> 6" "list_all (\<lambda>t. t < 19) ts"
    using map_of_wf [OF Some] by simp_all
  have "interpretSyscall tables stack fm_l index = (True, set_types 0 ts ?fm)"
    using assms(1) Some by (auto simp: interpretSyscall_def initSyscallTable_def Let_def)
  then show ?thesis
    using set_types_spec [of 0 ts ?fm] wf assms(2,3) Some by (auto simp: list_all_length nth_append)
qed

definition demo_stack :: format_t where
  "demo_stack = \<lparr>syscall_num = 77, epoll_ty = 5, args_num = 99, types = replicate 6 42, sizes = replicate 6 42\<rparr>"

definition demo_tables :: syscall_tables where
  "demo_tables = \<lparr>st_table = syscall_table, ty_table = type_table (\<lambda>_. 16)\<rparr>"

theorem interpretSyscall_wf_witness:
  "fst (interpretSyscall demo_tables demo_stack demo_stack SYS_READ) \<and>
   args_num (snd (interpretSyscall demo_tables demo_stack demo_stack SYS_READ)) \<le> 6"
proof -
  have "fst (interpretSyscall demo_tables demo_stack demo_stack SYS_READ)"
    by (simp add: interpretSyscall_def demo_tables_def syscall_table_def sys_defs Let_def)
  then show ?thesis
    using interpretSyscall_wf [where csizeof = "\<lambda>_. 16" and tables = demo_tables and stack = demo_stack and fm_l = demo_stack and index = SYS_READ]
    by (auto simp: initSyscallTable_def demo_tables_def demo_stack_def split: prod.splits)
qed

section \<open>Copies\<close>

lemma mapped_iff: "mapped a n m \<longleftrightarrow> (\<forall>i<n. bytes m (a + i) \<noteq> None)"
  by (auto simp: mapped_def list_all_iff)

lemma memcpy_ok:
  assumes "mapped dst n m" "mapped src n m"
  shows "\<exists>m'. memcpy dst src n m = Inr m' \<and> heap m' = heap m \<and>
           (\<forall>i<n. bytes m' (dst + i) = bytes m (src + i)) \<and>
           (\<forall>a. \<not> (dst \<le> a \<and> a < dst + n) \<longrightarrow> bytes m' a = bytes m a)"
  using assms by (auto simp: memcpy_def)

lemma memcpy_frame: "memcpy dst src n m = Inr m' \<Longrightarrow> \<not> (dst \<le> a \<and> a < dst + n) \<Longrightarrow> bytes m' a = bytes m a"
  by (auto simp: memcpy_def split: if_splits)

text \<open>The allocator hands out \<open>n\<close> mapped bytes that do not overlap the \<open>n\<close> bytes at \<open>buf\<close>.\<close>

definition gives_block :: "'h allocate \<Rightarrow> nat \<Rightarrow> nat \<Rightarrow> 'h memory \<Rightarrow> nat \<Rightarrow> bool" where
  "gives_block alloc n buf m p \<longleftrightarrow>
     (\<exists>h. alloc n (heap m) = Inr (p, h)) \<and> mapped p n m \<and> 0 < p \<and> p < 2 ^ 63 \<and> (p + n \<le> buf \<or> buf + n \<le> p)"

text \<open>A \<open>read\<close> of \<open>n\<close> bytes into \<open>buf\<close>, before its arguments are copied.\<close>

definition read_request :: "int \<Rightarrow> nat \<Rightarrow> nat \<Rightarrow> SyscallRequest \<Rightarrow> bool" where
  "read_request fd buf n req \<longleftrightarrow>
     syscall_num (fm_list req) = SYS_READ \<and> args_num (fm_list req) = 3 \<and>
     take 3 (types (fm_list req)) = [NON_PTR, CHAR_PTR, NON_PTR] \<and> length (sizes (fm_list req)) = 6 \<and>
     length (args req) = 6 \<and> arg (args req ! 0) = fd \<and> arg (args req ! 1) = int buf \<and> arg (args req ! 2) = int n \<and>
     0 < buf \<and> buf < 2 ^ 63 \<and> n < 2 ^ 31"

lemma read_types:
  assumes "take 3 xs = [a, b, c]"
  shows "xs ! 0 = a" "xs ! Suc 0 = b" "xs ! 2 = c"
  using assms nth_take [of 0 3 xs] nth_take [of 1 3 xs] nth_take [of 2 3 xs] by simp_all

lemma three: "[0..<3] = [0, Suc 0, 2]"
  by (simp add: upt_rec)

lemma fillArgs_read:
  assumes r: "read_request fd buf n req" and b: "mapped buf n m" "gives_block alloc n buf m p"
  shows "\<exists>req' m'. fillArgs alloc tables req m = Inr (True, req', m') \<and>
           types (fm_list req') = types (fm_list req) \<and> syscall_num (fm_list req') = SYS_READ \<and>
           args_num (fm_list req') = 3 \<and> sizes (fm_list req') ! 1 = n \<and> arg (args req' ! 1) = int p \<and>
           (\<forall>i<n. bytes m' (p + i) = bytes m (buf + i)) \<and> (\<forall>a. \<not> (p \<le> a \<and> a < p + n) \<longrightarrow> bytes m' a = bytes m a)"
proof -
  have t: "types (fm_list req) ! 0 = NON_PTR" "types (fm_list req) ! Suc 0 = CHAR_PTR" "types (fm_list req) ! 2 = NON_PTR"
    using r read_types [of "types (fm_list req)"] unfolding read_request_def by metis+
  note r' = r [unfolded read_request_def]
  obtain h where a: "alloc n (heap m) = Inr (p, h)" "mapped p n m"
    using b(2) unfolding gives_block_def by blast
  have "mapped p n (m\<lparr>heap := h\<rparr>)" "mapped buf n (m\<lparr>heap := h\<rparr>)"
    using a(2) b(1) by (simp_all add: mapped_iff)
  from memcpy_ok [OF this] obtain m2 where m2: "memcpy p buf n (m\<lparr>heap := h\<rparr>) = Inr m2"
    "\<forall>i<n. bytes m2 (p + i) = bytes m (buf + i)" "\<forall>a. \<not> (p \<le> a \<and> a < p + n) \<longrightarrow> bytes m2 a = bytes m a"
    by auto
  have s: "getSize tables req (Suc 0) m = Inr n"
    using r' by (simp add: getSize_def sys_defs u32_of_int_def numeral_2_eq_2 [symmetric])
  have d: "deepCopy alloc q i m2 = Inr m2" if "syscall_num (fm_list q) = SYS_READ" for q i
    using that by (simp add: deepCopy_def sys_defs)
  show ?thesis
    using r' t s a(1) m2 d
    by (simp add: fillArgs_def three fillArg_def NON_PTR_def CHAR_PTR_def take_block_def upd_arg_def u64_of_int_small Let_def)
qed

text \<open>
  C27. A \<open>read\<close> through the swapper gives the enclave what the kernel wrote. Copying the arguments out puts
  a copy of the caller's buffer into the untrusted block and changes nothing else; whatever the kernel
  then writes into the block, copying back puts the bytes of the block into the caller's buffer and
  changes nothing else.
\<close>

theorem read_roundtrip:
  fixes m :: "'h memory"
  assumes "read_request fd buf n req" "mapped buf n m" "gives_block alloc n buf m p"
  shows "\<exists>req' m'. fillArgs alloc tables req m = Inr (True, req', m') \<and>
           (\<forall>i<n. bytes m' (p + i) = bytes m (buf + i)) \<and> (\<forall>a. \<not> (p \<le> a \<and> a < p + n) \<longrightarrow> bytes m' a = bytes m a) \<and>
           (\<forall>k :: 'h memory. dom (bytes k) = dom (bytes m') \<longrightarrow>
             (\<exists>m''. fillEnclave req' [fd, int buf, int n] k = Inr ([fd, int buf, int n], m'') \<and>
                (\<forall>i<n. bytes m'' (buf + i) = bytes k (p + i)) \<and>
                (\<forall>a. \<not> (buf \<le> a \<and> a < buf + n) \<longrightarrow> bytes m'' a = bytes k a)))"
proof -
  obtain req' m' where f: "fillArgs alloc tables req m = Inr (True, req', m')"
    "types (fm_list req') = types (fm_list req)" "syscall_num (fm_list req') = SYS_READ"
    "args_num (fm_list req') = 3" "sizes (fm_list req') ! 1 = n" "arg (args req' ! 1) = int p"
    and c: "\<forall>i<n. bytes m' (p + i) = bytes m (buf + i)" "\<forall>a. \<not> (p \<le> a \<and> a < p + n) \<longrightarrow> bytes m' a = bytes m a"
    using fillArgs_read [OF assms, of tables] by blast
  have ps: "buf < 2 ^ 63" "p < 2 ^ 63"
    using assms(1,3) by (simp_all add: read_request_def gives_block_def)
  have t: "types (fm_list req') ! Suc 0 = CHAR_PTR"
    using assms(1) read_types(2) [of "types (fm_list req)"] f(2) by (simp add: read_request_def)
  have wback: "\<exists>m''. fillEnclave req' [fd, int buf, int n] k = Inr ([fd, int buf, int n], m'') \<and>
      (\<forall>i<n. bytes m'' (buf + i) = bytes k (p + i)) \<and> (\<forall>a. \<not> (buf \<le> a \<and> a < buf + n) \<longrightarrow> bytes m'' a = bytes k a)"
    if d: "dom (bytes k) = dom (bytes m')" for k :: "'h memory"
  proof -
    have "bytes m' (p + i) \<noteq> None \<and> bytes m' (buf + i) \<noteq> None" if "i < n" for i
    proof -
      have "\<not> (p \<le> buf + i \<and> buf + i < p + n)"
        using that assms(3) unfolding gives_block_def by linarith
      then show ?thesis
        using that c assms(2) by (simp add: mapped_iff)
    qed
    then have "mapped buf n k" "mapped p n k"
      using d unfolding mapped_iff by (metis domIff)+
    from memcpy_ok [OF this] obtain m'' where m'': "memcpy buf p n k = Inr m''"
      "\<forall>i<n. bytes m'' (buf + i) = bytes k (p + i)" "\<forall>a. \<not> (buf \<le> a \<and> a < buf + n) \<longrightarrow> bytes m'' a = bytes k a"
      by blast
    have "writeBack req' (Suc 0) ([fd, int buf, int n], k) = Inr ([fd, int buf, int n], m'')"
      using m''(1) f(3-6) t ps by (simp add: writeBack_def NON_PTR_def CHAR_PTR_def SYS_READ_def SYS_RECVMSG_def u64_of_int_small)
    then have "fillEnclave req' [fd, int buf, int n] k = Inr ([fd, int buf, int n], m'')"
      using f(3,4) by (simp add: fillEnclave_def three needWriteBack_def sys_defs)
    then show ?thesis
      using m''(2,3) by blast
  qed
  show ?thesis
    by (rule exI [of _ req'], rule exI [of _ m'], intro conjI f(1) c) (use wback in blast)
qed

definition demo_read :: SyscallRequest where
  "demo_read =
     \<lparr>sys_ret = 0,
      fm_list = \<lparr>syscall_num = SYS_READ, epoll_ty = 0, args_num = 3,
                 types = [NON_PTR, CHAR_PTR, NON_PTR, 0, 0, 0], sizes = [0, 0, 0, 0, 0, 0]\<rparr>,
      args = [\<lparr>arg = 3, data = 0\<rparr>, \<lparr>arg = 4096, data = 0\<rparr>, \<lparr>arg = 2, data = 0\<rparr>,
              syscall_arg_t, syscall_arg_t, syscall_arg_t]\<rparr>"

definition demo_memory :: "nat memory" where
  "demo_memory = \<lparr>bytes = (\<lambda>a. Some 7), heap = 8192\<rparr>"

theorem read_roundtrip_witness:
  "\<exists>req' m'. fillArgs (\<lambda>n h. Inr (h, h + n)) demo_tables demo_read demo_memory = Inr (True, req', m') \<and>
     bytes m' 8193 = Some 7"
proof -
  have "read_request 3 4096 2 demo_read"
    by (simp add: read_request_def demo_read_def)
  moreover have "mapped 4096 2 demo_memory" "gives_block (\<lambda>n h. Inr (h, h + n)) 2 4096 demo_memory 8192"
    by (simp_all add: mapped_iff gives_block_def demo_memory_def)
  ultimately obtain req' m' where "fillArgs (\<lambda>n h. Inr (h, h + n)) demo_tables demo_read demo_memory = Inr (True, req', m')"
    "\<forall>i<2. bytes m' (8192 + i) = bytes demo_memory (4096 + i)"
    using read_roundtrip [of 3 4096 2 demo_read demo_memory "\<lambda>n h. Inr (h, h + n)" 8192 demo_tables] by blast
  then show ?thesis
    by (auto simp: demo_memory_def dest: spec [of _ 1])
qed

text \<open>
  C38. Copying back a \<open>recvfrom\<close> writes at most the caller's address and address length (arguments 4 and
  5). The data the kernel received into the block of argument 1 never reaches the caller.
\<close>

theorem recvfrom_data_lost:
  assumes "syscall_num (fm_list req) = SYS_RECVFROM" "args_num (fm_list req) = 6"
    "types (fm_list req) ! 4 \<noteq> NON_PTR" "types (fm_list req) ! 5 \<noteq> NON_PTR"
    "fillEnclave req ea m = Inr (ea', m')"
  shows "\<forall>a. (\<forall>i\<in>{4, 5}. a < u64_of_int (ea ! i) \<or> u64_of_int (ea ! i) + sizes (fm_list req) ! i \<le> a) \<longrightarrow>
           bytes m' a = bytes m a"
proof (intro allI impI)
  fix a
  assume a: "\<forall>i\<in>{4, 5}. a < u64_of_int (ea ! i) \<or> u64_of_int (ea ! i) + sizes (fm_list req) ! i \<le> a"
  have six: "[0..<6] = [0, Suc 0, 2, 3, 4, 5]"
    by (simp add: upt_rec)
  have wb: "writeBack req i (ea, k) = rbind (memcpy (u64_of_int (ea ! i)) (u64_of_int (arg (args req ! i))) (sizes (fm_list req) ! i) k)
      (\<lambda>k1. Inr (ea, k1))" if "types (fm_list req) ! i \<noteq> NON_PTR" for i and k :: "'a memory"
    using that assms(1) by (simp add: writeBack_def sys_defs)
  obtain m1 where "memcpy (u64_of_int (ea ! 4)) (u64_of_int (arg (args req ! 4))) (sizes (fm_list req) ! 4) m = Inr m1"
    "memcpy (u64_of_int (ea ! 5)) (u64_of_int (arg (args req ! 5))) (sizes (fm_list req) ! 5) m1 = Inr m'"
    using assms wb [of 4 m] wb [of 5]
    by (auto simp: fillEnclave_def six needWriteBack_def sys_defs rbind_eq_Inr)
  then show "bytes m' a = bytes m a"
    using a memcpy_frame [of _ _ _ m m1 a] memcpy_frame [of _ _ _ m1 m' a] by fastforce
qed

definition demo_recv :: SyscallRequest where
  "demo_recv =
     \<lparr>sys_ret = 1,
      fm_list = \<lparr>syscall_num = SYS_RECVFROM, epoll_ty = 0, args_num = 6,
                 types = [NON_PTR, CHAR_PTR, NON_PTR, NON_PTR, SOKADDR_PTR, INT_PTR], sizes = [0, 1, 0, 0, 0, 0]\<rparr>,
      args = [\<lparr>arg = 3, data = 0\<rparr>, \<lparr>arg = 8192, data = 8192\<rparr>, \<lparr>arg = 1, data = 0\<rparr>, \<lparr>arg = 0, data = 0\<rparr>,
              \<lparr>arg = 8200, data = 8200\<rparr>, \<lparr>arg = 8208, data = 8208\<rparr>]\<rparr>"

definition received :: "nat memory" where
  "received = \<lparr>bytes = (\<lambda>a. Some 0)(8192 := Some 42), heap = 0\<rparr>"

theorem recvfrom_data_lost_witness:
  "\<exists>ea' m'. fillEnclave demo_recv [3, 4096, 1, 0, 16, 32] received = Inr (ea', m') \<and> bytes m' 4096 = Some 0"
proof -
  have six: "[0..<6] = [0, Suc 0, 2, 3, 4, 5]"
    by (simp add: upt_rec)
  obtain ea' m' where f: "fillEnclave demo_recv [3, 4096, 1, 0, 16, 32] received = Inr (ea', m')"
    by (simp add: fillEnclave_def demo_recv_def six needWriteBack_def sys_defs writeBack_def ptr_defs memcpy_def mapped_def Let_def)
  have "bytes m' 4096 = bytes received 4096"
    using recvfrom_data_lost [OF _ _ _ _ f] by (simp add: demo_recv_def ptr_defs u64_of_int_def)
  then show ?thesis
    using f by (simp add: received_def)
qed

end
