(* ===== verification/Request.thy ===== *)
theory Request
  imports Syscall_Format Locks
begin

text \<open>
  The requests that the enclave sends to the swapper (\<open>include/request.h\<close>), the dispatcher that hands
  them to their handlers, and the per-thread request objects (\<open>libOS/singleton.h\<close>).

  A request is its common part and a body with the fields of its subclass; the type tag of the code is
  the field \<open>requestType\<close>. The polling loops look at a flag that another thread writes, so they take
  the sequence of values they see.
\<close>

section \<open>Requests\<close>

datatype SchedulerRequestType = NewThread | SchedReady | DecThread

datatype request_body =
    DebugBody nat                       \<comment> \<open>\<open>printBuf\<close>\<close>
  | SyscallBody SyscallRequest
  | SchedulerBody SchedulerRequestType
  | SwapBody nat                        \<comment> \<open>\<open>addr\<close>\<close>
  | SleepBody nat                       \<comment> \<open>\<open>ns\<close>\<close>

record request =
  ack :: bool
  returnVal :: int
  req_done :: bool
  owner :: nat
  requestType :: int
  body :: request_body

fun typeTag :: "request_body \<Rightarrow> int" where
  "typeTag (DebugBody b) = 0"
| "typeTag (SyscallBody r) = 1"
| "typeTag (SchedulerBody t) = 2"
| "typeTag (SwapBody a) = 3"
| "typeTag (SleepBody n) = 4"

text \<open>The constructors of the subclasses, which set the type after the common part.\<close>

definition RequestBase :: "request_body \<Rightarrow> request" where
  "RequestBase b = \<lparr>ack = False, returnVal = 0, req_done = False, owner = 0, requestType = typeTag b, body = b\<rparr>"

definition DebugRequest :: "nat \<Rightarrow> request" where
  "DebugRequest printBuf = RequestBase (DebugBody printBuf)"

definition SwapRequest :: "nat \<Rightarrow> request" where
  "SwapRequest addr = RequestBase (SwapBody addr)"

definition SleepRequest :: "nat \<Rightarrow> request" where
  "SleepRequest ns = RequestBase (SleepBody ns)"

definition new_SyscallRequest :: "int \<Rightarrow> format_t \<Rightarrow> request" where
  "new_SyscallRequest ret fm =
     RequestBase (SyscallBody \<lparr>sys_ret = ret, fm_list = fm, args = replicate 6 Syscall_Format.syscall_arg_t\<rparr>)"

definition SchedulerRequest :: "SchedulerRequestType \<Rightarrow> request" where
  "SchedulerRequest t = RequestBase (SchedulerBody t)"

definition setAck :: "request \<Rightarrow> request" where
  "setAck r = r\<lparr>ack := True\<rparr>"

definition setDone :: "request \<Rightarrow> request" where
  "setDone r = r\<lparr>req_done := True\<rparr>"

text \<open>\<open>seen i\<close> is what the \<open>i\<close>-th load of the flag returns.\<close>

definition waitOnAck :: "(nat \<Rightarrow> bool) \<Rightarrow> nat \<Rightarrow> bool" where
  "waitOnAck seen cycles = list_ex seen [0..<cycles]"

definition waitOnDone :: "(nat \<Rightarrow> bool) \<Rightarrow> nat \<Rightarrow> bool" where
  "waitOnDone seen cycles = list_ex seen [0..<cycles]"

partial_function (option) blockOnDone :: "(nat \<Rightarrow> bool) \<Rightarrow> nat \<Rightarrow> nat option" where
  "blockOnDone seen i = (if seen i then Some i else blockOnDone seen (i + 1))"

section \<open>The dispatcher\<close>

type_synonym 's handler = "request \<Rightarrow> 's \<Rightarrow> (request \<times> 's) result"

definition tryCast :: "int \<Rightarrow> request \<Rightarrow> request option" where
  "tryCast tag r = (if requestType r = tag then Some r else None)"

definition addHandler :: "int \<Rightarrow> 's handler \<Rightarrow> (int \<rightharpoonup> 's handler) \<Rightarrow> (int \<rightharpoonup> 's handler)" where
  "addHandler tag handler handlers =
     handlers(tag \<mapsto> \<lambda>r s. case tryCast tag r of None \<Rightarrow> Inl Abort | Some r' \<Rightarrow> handler r' s)"

definition dispatch :: "(int \<rightharpoonup> 's handler) \<Rightarrow> request \<Rightarrow> 's \<Rightarrow> (request \<times> 's) result" where
  "dispatch handlers r s =
     (case handlers (requestType r) of
        None \<Rightarrow> Inl Ud2
      | Some h \<Rightarrow> h (setAck r) s)"

section \<open>One request object per thread\<close>

text \<open>
  \<open>umap\<close> maps thread ids to request objects, which are stored by address. A thread of the scheduler
  gets its object back, constructed anew; before the scheduler runs, every request is a new object.
  \<open>alloc\<close> stands for \<open>unsafeMalloc(sizeof(ReqT))\<close>.
\<close>

record 'h request_pool =
  umap :: "(int \<rightharpoonup> nat) option"
  objects :: "nat \<rightharpoonup> request"
  pool_heap :: 'h

definition getRequest ::
  "('h \<Rightarrow> (nat \<times> 'h) result) \<Rightarrow> int option \<Rightarrow> request \<Rightarrow> 'h request_pool \<Rightarrow> (nat \<times> 'h request_pool) result" where
  "getRequest alloc current_id init p =
     (case current_id of
        None \<Rightarrow>
          rbind (alloc (pool_heap p)) (\<lambda>(a, h). Inr (a, p\<lparr>objects := (objects p)(a \<mapsto> init), pool_heap := h\<rparr>))
      | Some i \<Rightarrow>
          let m = (case umap p of None \<Rightarrow> Map.empty | Some m \<Rightarrow> m) in
          (case m i of
             None \<Rightarrow>
               rbind (alloc (pool_heap p)) (\<lambda>(a, h).
                 Inr (a, p\<lparr>umap := Some (m(i \<mapsto> a)), objects := (objects p)(a \<mapsto> init), pool_heap := h\<rparr>))
           | Some a \<Rightarrow> Inr (a, p\<lparr>umap := Some m, objects := (objects p)(a \<mapsto> init)\<rparr>)))"

lemma dispatch_acks:
  assumes "dispatch handlers r s = Inr (r', s')"
  shows "\<exists>h. handlers (requestType r) = Some h \<and> h (setAck r) s = Inr (r', s')"
  using assms by (auto simp: dispatch_def split: option.splits)

lemma dispatch_addHandler:
  "dispatch (addHandler tag h hs) r s =
     (if requestType r = tag then h (setAck r) s else dispatch hs r s)"
  by (simp add: dispatch_def addHandler_def tryCast_def setAck_def)

end
