(* ===== verification/Enclave_Thread.thy ===== *)
theory Enclave_Thread
  imports Request
begin

text \<open>
  The loader's side of the enclave threads: the structures shared with the libOS
  (\<open>include/control_struct.h\<close>, \<open>include/libOS_tls.h\<close>), the threads that enter the enclave
  (\<open>loader/enclave_thread.cpp\<close>) and their pool (\<open>loader/enclave_threadpool.cpp\<close>).

  A pool holds its threads by the address of their TCS. What the operating system and the processor do
  (entering the enclave, waiting on a condition variable, reading the clock) is a parameter.
\<close>

section \<open>Shared structures\<close>

definition CONTROL_STRUCT_MAGIC :: nat where
  "CONTROL_STRUCT_MAGIC = 0xbeefbeef"

record main_args_t =
  argc :: int
  argv :: nat
  envc :: int
  envp :: nat
  auxv :: nat
  heapBase :: nat
  heapLength :: nat
  unsafeHeapBase :: nat
  unsafeHeapLength :: nat
  tlsBase :: nat
  tlsSize :: nat

record libOS_control_struct =
  mainArgs :: main_args_t
  magic :: nat
  cs_isMain :: bool
  cs_requestQueue :: nat
  cs_panic :: nat
  cs_timeStamp :: nat

text \<open>\<open>inInterrupt\<close> points to a flag of its own, kept in the pool.\<close>

record libOS_shared_tls =
  next_exit :: nat
  loader_stack :: nat
  enclave_stack :: nat
  reentry :: nat
  enclave_return_val :: nat
  controlStruct_ptr :: nat
  interrupt_stack :: nat
  loadBias :: nat
  threadID :: nat
  interrupt_exit :: nat
  interrupt_outside_stack :: nat
  tls_preempt_stack :: nat
  inInterrupt_ptr :: nat
  numTotalThread_ptr :: nat
  tls_isMain :: nat
  pjiffies :: nat
  request_obj :: nat
  buffer_index :: int
  tls_buffer :: "char list"
  dbg_pbuffer_index :: nat
  dbg_buffer :: nat
  numActiveThread_ptr :: nat
  tls_numKernelThreads :: int

record enclave_tls =
  enclave_base :: nat
  enclave_size :: nat
  tcs_offset :: nat
  initial_stack_offset :: nat
  libOS_data :: nat
  tls_ssa :: nat
  tls_stack :: nat
  preempt_rip :: nat

section \<open>Threads and the pool\<close>

record enclave_thread =
  tcs :: nat
  sharedTLS :: libOS_shared_tls
  controlStruct :: libOS_control_struct

record threadpool =
  pool_numTotalThread :: int
  pool_numActiveThread :: int
  pendingWakeUp :: bool
  pool_threads :: "nat list"
  mainThread :: "nat option"
  thread_map :: "nat \<rightharpoonup> enclave_thread"
  sig_flag_map :: "nat \<Rightarrow> int"
  int_flags :: "nat \<Rightarrow> bool"
  threadCounter :: nat
  aexCounter :: int
  last_interrupt :: int
  started :: "nat list"

text \<open>
  \<open>env\<close> are the addresses that the constructor stores: the return points of the assembly code, the
  control structure, the block for the interrupt stack and the debug buffer.
\<close>

record thread_env =
  back_addr :: nat
  interrupt_back_addr :: nat
  control_addr :: nat
  flag_addr :: nat
  istack_block :: nat
  dbg_buffer_addr :: nat
  dbg_index_addr :: nat

definition set_flag :: "nat \<Rightarrow> int \<Rightarrow> threadpool \<Rightarrow> threadpool" where
  "set_flag t flag p = p\<lparr>sig_flag_map := (sig_flag_map p)(t := flag)\<rparr>"

definition get_flag :: "nat \<Rightarrow> threadpool \<Rightarrow> int \<times> threadpool" where
  "get_flag t p = (sig_flag_map p t, p\<lparr>sig_flag_map := (sig_flag_map p)(t := 0)\<rparr>)"

definition new_EnclaveThread ::
  "thread_env \<Rightarrow> libOS_shared_tls \<Rightarrow> libOS_control_struct \<Rightarrow> nat \<Rightarrow> nat \<Rightarrow> threadpool \<Rightarrow> enclave_thread \<times> threadpool" where
  "new_EnclaveThread env junk_tls junk_cs stack t p =
     (let tls = junk_tls\<lparr>tls_isMain := 0, reentry := 0, next_exit := back_addr env, interrupt_exit := interrupt_back_addr env,
                         enclave_stack := stack, controlStruct_ptr := control_addr env, threadID := threadCounter p,
                         inInterrupt_ptr := flag_addr env, interrupt_stack := add64 (istack_block env) (4096 - 16),
                         dbg_buffer := dbg_buffer_addr env, dbg_pbuffer_index := dbg_index_addr env, request_obj := 0,
                         buffer_index := 0, tls_numKernelThreads := 0\<rparr>;
          cs = junk_cs\<lparr>cs_isMain := False, magic := CONTROL_STRUCT_MAGIC\<rparr>
      in (\<lparr>tcs = t, sharedTLS = tls, controlStruct = cs\<rparr>,
          set_flag t 0 (p\<lparr>threadCounter := threadCounter p + 1, int_flags := (int_flags p)(t := True)\<rparr>)))"

definition EnclaveMainThread :: "enclave_thread \<Rightarrow> enclave_thread" where
  "EnclaveMainThread th =
     th\<lparr>controlStruct := (controlStruct th)\<lparr>cs_isMain := True\<rparr>, sharedTLS := (sharedTLS th)\<lparr>tls_isMain := 1\<rparr>\<rparr>"

definition update_args :: "(main_args_t \<Rightarrow> main_args_t) \<Rightarrow> enclave_thread \<Rightarrow> enclave_thread" where
  "update_args f th = th\<lparr>controlStruct := (controlStruct th)\<lparr>mainArgs := f (mainArgs (controlStruct th))\<rparr>\<rparr>"

definition setSwapper :: "nat \<Rightarrow> nat \<Rightarrow> nat \<Rightarrow> enclave_thread \<Rightarrow> enclave_thread" where
  "setSwapper queue panic timeStamp th =
     th\<lparr>controlStruct := (controlStruct th)\<lparr>cs_requestQueue := queue, cs_panic := panic, cs_timeStamp := timeStamp\<rparr>\<rparr>"

definition setArgs :: "int \<Rightarrow> nat \<Rightarrow> enclave_thread \<Rightarrow> enclave_thread" where
  "setArgs c v = update_args (\<lambda>a. a\<lparr>argc := c, argv := v\<rparr>)"

text \<open>The count starts at 1: an empty environment has its null pointer at 0, and the loop reads past it.\<close>

partial_function (option) count_envs :: "(nat \<rightharpoonup> nat) \<Rightarrow> nat \<Rightarrow> nat result option" where
  "count_envs strings i =
     (case strings i of None \<Rightarrow> Some (Inl Wild) | Some s \<Rightarrow> if s = 0 then Some (Inr i) else count_envs strings (i + 1))"

definition setEnvs :: "nat \<Rightarrow> (nat \<rightharpoonup> nat) \<Rightarrow> enclave_thread \<Rightarrow> enclave_thread result option" where
  "setEnvs e strings th =
     lbind (count_envs strings 1) (\<lambda>i. Some (Inr (update_args (\<lambda>a. a\<lparr>envp := e, envc := s32 (int i)\<rparr>) th)))"

definition setAux :: "nat \<Rightarrow> enclave_thread \<Rightarrow> enclave_thread" where
  "setAux v = update_args (\<lambda>a. a\<lparr>auxv := v\<rparr>)"

definition setHeap :: "nat \<Rightarrow> nat \<Rightarrow> enclave_thread \<Rightarrow> enclave_thread" where
  "setHeap base len = update_args (\<lambda>a. a\<lparr>heapBase := base, heapLength := len\<rparr>)"

definition setUnsafeHeap :: "nat \<Rightarrow> nat \<Rightarrow> enclave_thread \<Rightarrow> enclave_thread" where
  "setUnsafeHeap base len = update_args (\<lambda>a. a\<lparr>unsafeHeapBase := base, unsafeHeapLength := len\<rparr>)"

definition setUserTLS :: "nat \<Rightarrow> nat \<Rightarrow> enclave_thread \<Rightarrow> enclave_thread" where
  "setUserTLS base len = update_args (\<lambda>a. a\<lparr>tlsBase := base, tlsSize := len\<rparr>)"

definition setBias :: "nat \<Rightarrow> enclave_thread \<Rightarrow> enclave_thread" where
  "setBias len th = th\<lparr>sharedTLS := (sharedTLS th)\<lparr>loadBias := len\<rparr>\<rparr>"

definition setJiffies :: "nat \<Rightarrow> enclave_thread \<Rightarrow> enclave_thread" where
  "setJiffies ptr th = th\<lparr>sharedTLS := (sharedTLS th)\<lparr>pjiffies := ptr\<rparr>\<rparr>"

section \<open>Interrupts\<close>

text \<open>\<open>thread_map[tcs]\<close> of an unknown TCS is a null pointer.\<close>

definition set_interrupt :: "nat \<Rightarrow> threadpool \<Rightarrow> (bool \<times> threadpool) result" where
  "set_interrupt t p =
     (if thread_map p t = None then Inl Wild else Inr (int_flags p t, p\<lparr>int_flags := (int_flags p)(t := True)\<rparr>))"

definition clear_interrupt :: "nat \<Rightarrow> threadpool \<Rightarrow> (bool \<times> threadpool) result" where
  "clear_interrupt t p =
     (if thread_map p t = None then Inl Wild else Inr (int_flags p t, p\<lparr>int_flags := (int_flags p)(t := False)\<rparr>))"

text \<open>
  What the assembly code does after an asynchronous exit: 0 to resume the enclave, 1 to dump the saved
  state, 2 to run the preemption handler. \<open>now\<close> is the clock in nanoseconds.
\<close>

definition do_aex :: "int \<Rightarrow> nat \<Rightarrow> threadpool \<Rightarrow> (nat \<times> threadpool) result" where
  "do_aex now t p =
     (let (dumpFlag, p1) = get_flag t p in
      rbind (set_interrupt t p1) (\<lambda>(intFlag, p2).
      let p3 = p2\<lparr>aexCounter := aexCounter p2 + 1\<rparr> in
      if dumpFlag \<noteq> 0
      then (if \<not> intFlag then rbind (clear_interrupt t p3) (\<lambda>(_, p4). Inr (1, p4)) else Inr (1, p3))
      else if \<not> intFlag
      then (if now - last_interrupt p3 < 1000000 then rbind (clear_interrupt t p3) (\<lambda>(_, p4). Inr (0, p4))
            else Inr (2, p3\<lparr>last_interrupt := now\<rparr>))
      else Inr (0, p3)))"

section \<open>Idle threads\<close>

text \<open>
  \<open>wait\<close> is \<open>cv.wait\<close>: from the pool when the thread begins to wait to the pool when it has the mutex
  again, and \<open>None\<close> when it never does.
\<close>

partial_function (option) idle_loop :: "(threadpool \<Rightarrow> threadpool option) \<Rightarrow> threadpool \<Rightarrow> threadpool option" where
  "idle_loop wait p =
     (if pool_numActiveThread p > pool_numTotalThread p
      then (case wait (p\<lparr>pool_numActiveThread := pool_numActiveThread p - 1\<rparr>) of
              None \<Rightarrow> None
            | Some p1 \<Rightarrow>
                let p2 = p1\<lparr>pool_numActiveThread := pool_numActiveThread p1 + 1\<rparr> in
                if pool_numActiveThread p2 = 1 then Some p2 else idle_loop wait p2)
      else Some p)"

definition idleBlock :: "(threadpool \<Rightarrow> threadpool option) \<Rightarrow> threadpool \<Rightarrow> threadpool option" where
  "idleBlock wait p =
     (if pendingWakeUp p then Some (p\<lparr>pendingWakeUp := False\<rparr>)
      else case idle_loop wait p of None \<Rightarrow> None | Some p1 \<Rightarrow> Some (p1\<lparr>pendingWakeUp := False\<rparr>))"

text \<open>The flag says that a waiting thread is notified.\<close>

definition newThreadNotify :: "threadpool \<Rightarrow> bool \<times> threadpool" where
  "newThreadNotify p = (pool_numActiveThread p < int (length (pool_threads p)), p\<lparr>pendingWakeUp := True\<rparr>)"

section \<open>Starting\<close>

fun start_workers :: "nat list \<Rightarrow> threadpool \<Rightarrow> threadpool" where
  "start_workers [] p = p"
| "start_workers (t # ts) p =
     (if mainThread p = Some t then start_workers ts p
      else start_workers ts (p\<lparr>started := started p @ [t], pool_numActiveThread := pool_numActiveThread p + 1\<rparr>))"

definition schedReady :: "threadpool \<Rightarrow> threadpool" where
  "schedReady p = start_workers (pool_threads p) p"

text \<open>\<open>q\<close>, \<open>pn\<close> and \<open>ts\<close> are members of the swapper, \<open>totp\<close> and \<open>actp\<close> the counters of the pool.\<close>

definition addThreadCommon :: "nat \<Rightarrow> nat \<Rightarrow> nat \<Rightarrow> nat \<Rightarrow> nat \<Rightarrow> enclave_thread \<Rightarrow> threadpool \<Rightarrow> threadpool" where
  "addThreadCommon totp actp q pn ts th p =
     (let th1 = th\<lparr>sharedTLS := (sharedTLS th)\<lparr>numTotalThread_ptr := totp, numActiveThread_ptr := actp\<rparr>\<rparr>;
          th2 = setSwapper q pn ts th1
      in p\<lparr>pool_threads := pool_threads p @ [tcs th2], thread_map := (thread_map p)(tcs th2 \<mapsto> th2)\<rparr>)"

definition addMainThread :: "nat \<Rightarrow> nat \<Rightarrow> nat \<Rightarrow> nat \<Rightarrow> nat \<Rightarrow> enclave_thread \<Rightarrow> threadpool \<Rightarrow> threadpool" where
  "addMainThread totp actp q pn ts th p =
     (addThreadCommon totp actp q pn ts th p)\<lparr>mainThread := Some (tcs th)\<rparr>"

definition addWorkerThread :: "nat \<Rightarrow> nat \<Rightarrow> nat \<Rightarrow> nat \<Rightarrow> nat \<Rightarrow> enclave_thread \<Rightarrow> threadpool \<Rightarrow> threadpool" where
  "addWorkerThread = addThreadCommon"

text \<open>\<open>n\<close> is the size of the map; \<open>map_size\<close> counts it from the threads that were added.\<close>

definition map_size :: "threadpool \<Rightarrow> nat" where
  "map_size p = length (remdups (pool_threads p))"

definition launch :: "threadpool \<Rightarrow> threadpool result" where
  "launch p =
     (let set_kernel = (\<lambda>th. th\<lparr>sharedTLS := (sharedTLS th)\<lparr>tls_numKernelThreads := int (map_size p)\<rparr>\<rparr>);
          p1 = p\<lparr>thread_map := (\<lambda>t. map_option set_kernel (thread_map p t))\<rparr>
      in case mainThread p1 of
           None \<Rightarrow> Inl Exit_Minus1
         | Some t \<Rightarrow> Inr (p1\<lparr>started := started p1 @ [t], pool_numActiveThread := pool_numActiveThread p1 + 1\<rparr>))"

text \<open>
  \<open>EnclaveThread::run\<close>. \<open>eenter\<close> runs the enclave on a TCS until it exits. An exit with 0x1000 is an
  idle thread, which blocks and enters again.
\<close>

partial_function (option) run ::
  "(nat \<Rightarrow> threadpool \<Rightarrow> threadpool result option) \<Rightarrow> (threadpool \<Rightarrow> threadpool option) \<Rightarrow> nat \<Rightarrow> threadpool \<Rightarrow>
   threadpool result option" where
  "run eenter wait t p =
     (case eenter t p of
        None \<Rightarrow> None
      | Some r \<Rightarrow>
          (case r of
             Inl e \<Rightarrow> Some (Inl e)
           | Inr p1 \<Rightarrow>
               (case thread_map p1 t of
                  None \<Rightarrow> Some (Inl Wild)
                | Some th \<Rightarrow>
                    let th1 = th\<lparr>controlStruct := (controlStruct th)\<lparr>cs_isMain := False\<rparr>\<rparr>;
                        p2 = p1\<lparr>thread_map := (thread_map p1)(t \<mapsto> th1)\<rparr>
                    in if enclave_return_val (sharedTLS th1) \<noteq> 0x1000 then Some (Inr p2)
                       else (case idleBlock wait p2 of None \<Rightarrow> None | Some p3 \<Rightarrow> run eenter wait t p3))))"

section \<open>Properties\<close>

text \<open>
  After an asynchronous exit of a known thread, the preemption handler is chosen exactly when no
  dump is asked for, the thread had its interrupts enabled and at least a millisecond has passed since the
  last one; in that case, and in no other, the call disables the interrupts of the thread. Every other
  answer leaves the flag of the thread as it was; the flags of other threads never change, the request for
  a dump is taken, and the exit is counted.
\<close>

lemma do_aex_correct:
  assumes "thread_map p t \<noteq> None"
  shows "\<exists>r p'. do_aex now t p = Inr (r, p') \<and>
    r = (if sig_flag_map p t \<noteq> 0 then 1 else if \<not> int_flags p t \<and> 1000000 \<le> now - last_interrupt p then 2 else 0) \<and>
    int_flags p' = (if r = 2 then (int_flags p)(t := True) else int_flags p) \<and>
    last_interrupt p' = (if r = 2 then now else last_interrupt p) \<and>
    sig_flag_map p' = (sig_flag_map p)(t := 0) \<and> aexCounter p' = aexCounter p + 1 \<and> thread_map p' = thread_map p"
  using assms
  by (auto simp: do_aex_def get_flag_def set_interrupt_def clear_interrupt_def Let_def fun_eq_iff)

definition demo_pool :: threadpool where
  "demo_pool =
     \<lparr>pool_numTotalThread = 0, pool_numActiveThread = 1, pendingWakeUp = False, pool_threads = [4096], mainThread = Some 4096,
      thread_map = [4096 \<mapsto> undefined], sig_flag_map = (\<lambda>_. 0), int_flags = (\<lambda>_. False), threadCounter = 1, aexCounter = 0,
      last_interrupt = 0, started = [4096]\<rparr>"

lemma do_aex_correct_example:
  "\<exists>p'. do_aex 2000000 4096 demo_pool = Inr (2, p') \<and> int_flags p' 4096"
  using do_aex_correct [of demo_pool 4096 2000000] by (auto simp: demo_pool_def)

text \<open>A notification that comes before a thread blocks is not lost.\<close>

lemma notify_then_idle: "idleBlock wait (snd (newThreadNotify p)) = Some (p\<lparr>pendingWakeUp := False\<rparr>)"
  by (simp add: newThreadNotify_def idleBlock_def)

lemma launch_kernel_threads:
  assumes "launch p = Inr p'" "thread_map p t = Some th"
  shows "\<exists>th'. thread_map p' t = Some th' \<and> tls_numKernelThreads (sharedTLS th') = int (map_size p) \<and> tcs th' = tcs th"
  using assms by (auto simp: launch_def Let_def split: option.splits)

end
