(* ===== verification/Swapper.thy ===== *)
theory Swapper
  imports Enclave_Thread
begin

text \<open>
  The untrusted server (\<open>swapper/\<close>, \<open>include/swapper.h\<close>): workers that take requests from the queue and
  dispatch them to the handlers of system calls, page swaps, sleeps, scheduler and debug messages.

  Requests are stored by address; \<open>cur_req\<close> is the one being dispatched. The operating system is the
  parameter \<open>os\<close>, over a state \<open>'k\<close> of its own. A wake-up of an enclave thread is
  \<open>newThreadNotify\<close> of the pool, which the pool registers with \<open>setWakeUp\<close>. The loop of a worker never
  ends: \<open>worker_step\<close> is one round of it and \<open>runWorker\<close> a number of rounds.
\<close>

section \<open>State\<close>

text \<open>\<open>os_syscall\<close> gives the result and \<open>errno\<close>; \<open>os_clock\<close> the seconds and nanoseconds of the monotonic clock.\<close>

record 'k os =
  os_syscall :: "nat \<Rightarrow> int list \<Rightarrow> 'k \<Rightarrow> int \<times> int \<times> 'k"
  os_clock :: "'k \<Rightarrow> (nat \<times> nat) \<times> 'k"
  os_open_isgx :: "'k \<Rightarrow> int \<times> 'k"
  os_swap_page :: "int \<Rightarrow> nat \<Rightarrow> 'k \<Rightarrow> 'k"

record 'k swapper =
  sw_queue :: "nat list"
  sw_requests :: "nat \<rightharpoonup> request"
  cur_req :: nat
  sleepMap :: "(nat \<times> nat) list"
  timeSpec :: "nat \<times> nat"
  epollCount :: int
  ep_pool :: "nat list"
  isgx_fd :: int
  sw_pool :: threadpool
  kernel :: 'k

definition wakeUpThread :: "'k swapper \<Rightarrow> 'k swapper" where
  "wakeUpThread s = s\<lparr>sw_pool := snd (newThreadNotify (sw_pool s))\<rparr>"

definition clock_ns :: "nat \<times> nat \<Rightarrow> nat" where
  "clock_ns ts = add64 (mul64 (fst ts) 1000000000) (snd ts)"

section \<open>Sleeping\<close>

text \<open>\<open>std::multimap::insert\<close>: after the entries with the same key.\<close>

fun multimap_insert :: "nat \<Rightarrow> nat \<Rightarrow> (nat \<times> nat) list \<Rightarrow> (nat \<times> nat) list" where
  "multimap_insert k v [] = [(k, v)]"
| "multimap_insert k v ((k', v') # m) = (if k < k' then (k, v) # (k', v') # m else (k', v') # multimap_insert k v m)"

fun wake_sleepers :: "nat \<Rightarrow> (nat \<times> nat) list \<Rightarrow> 'k swapper \<Rightarrow> 'k swapper result" where
  "wake_sleepers ns [] s = Inr (s\<lparr>sleepMap := []\<rparr>)"
| "wake_sleepers ns ((t, a) # m) s =
     (if t < ns
      then (case sw_requests s a of
              None \<Rightarrow> Inl Wild
            | Some r \<Rightarrow> wake_sleepers ns m (wakeUpThread (s\<lparr>sw_requests := (sw_requests s)(a \<mapsto> setDone r)\<rparr>)))
      else Inr (s\<lparr>sleepMap := (t, a) # m\<rparr>))"

definition checkSleep :: "'k os \<Rightarrow> 'k swapper \<Rightarrow> 'k swapper result" where
  "checkSleep os s =
     (let ns = clock_ns (timeSpec s);
          (ts, k) = os_clock os (kernel s)
      in wake_sleepers ns (sleepMap s) (s\<lparr>timeSpec := ts, kernel := k\<rparr>))"

definition sleepRequestHandler :: "'k swapper handler" where
  "sleepRequestHandler r s =
     (case body r of
        SleepBody ns \<Rightarrow>
          let target = add64 ns (clock_ns (timeSpec s))
          in Inr (r, s\<lparr>sleepMap := multimap_insert target (cur_req s) (sleepMap s)\<rparr>)
      | _ \<Rightarrow> Inl Abort)"

section \<open>System calls\<close>

text \<open>The call itself; a failure becomes the negative error number.\<close>

definition do_syscall :: "'k os \<Rightarrow> SyscallRequest \<Rightarrow> 'k \<Rightarrow> SyscallRequest \<times> 'k" where
  "do_syscall os q k =
     (let (ret, err, k1) = os_syscall os (syscall_num (fm_list q)) (map arg (args q)) k
      in (q\<lparr>sys_ret := (if ret = - 1 then - err else ret)\<rparr>, k1))"

definition epollRequestHandler :: "'k os \<Rightarrow> nat \<Rightarrow> 'k swapper \<Rightarrow> 'k swapper result" where
  "epollRequestHandler os a s =
     (case sw_requests s a of
        None \<Rightarrow> Inl Wild
      | Some r \<Rightarrow>
          (case body r of
             SyscallBody q \<Rightarrow>
               let (q1, k) = do_syscall os q (kernel s);
                   s1 = s\<lparr>sw_requests := (sw_requests s)(a \<mapsto> setDone (r\<lparr>body := SyscallBody q1\<rparr>)),
                          epollCount := epollCount s - 1, ep_pool := remove1 a (ep_pool s), kernel := k\<rparr>
               in Inr (wakeUpThread s1)
           | _ \<Rightarrow> Inl Abort))"

definition syscallRequestHandler :: "'k os \<Rightarrow> 'k swapper handler" where
  "syscallRequestHandler os r s =
     (case body r of
        SyscallBody q \<Rightarrow>
          if syscall_num (fm_list q) = SYS_EPOLL_WAIT \<or> syscall_num (fm_list q) = SYS_EPOLL_PWAIT
          then
            let s1 = s\<lparr>epollCount := epollCount s + 1\<rparr> in
            if epollCount s1 \<le> 10 then Inr (r, s1\<lparr>ep_pool := ep_pool s1 @ [cur_req s1]\<rparr>) else Inl Abort
          else
            let (q1, k) = do_syscall os q (kernel s)
            in Inr (setDone (r\<lparr>body := SyscallBody q1\<rparr>), wakeUpThread (s\<lparr>kernel := k\<rparr>))
      | _ \<Rightarrow> Inl Abort)"

section \<open>Swaps, scheduler and debug messages\<close>

definition deviceHandle :: "'k os \<Rightarrow> 'k swapper \<Rightarrow> (int \<times> 'k swapper) result" where
  "deviceHandle os s =
     (if isgx_fd s \<ge> 0 then Inr (isgx_fd s, s)
      else
        let (fd, k) = os_open_isgx os (kernel s)
        in if fd < 0 then Inl Exit_Minus1 else Inr (fd, s\<lparr>isgx_fd := fd, kernel := k\<rparr>))"

definition swapRequestHandler :: "'k os \<Rightarrow> 'k swapper handler" where
  "swapRequestHandler os r s =
     (case body r of
        SwapBody addr \<Rightarrow>
          rbind (deviceHandle os s) (\<lambda>(fd, s1).
            Inr (setDone r, wakeUpThread (s1\<lparr>kernel := os_swap_page os fd addr (kernel s1)\<rparr>)))
      | _ \<Rightarrow> Inl Abort)"

definition schedulerRequestHandler :: "'k swapper handler" where
  "schedulerRequestHandler r s =
     (case body r of
        SchedulerBody t \<Rightarrow>
          Inr (setDone r,
               if t = NewThread then wakeUpThread s
               else if t = SchedReady then s\<lparr>sw_pool := schedReady (sw_pool s)\<rparr> else s)
      | _ \<Rightarrow> Inl Abort)"

definition debugRequestHandler :: "'k swapper handler" where
  "debugRequestHandler r s = Inr (setDone r, s)"

section \<open>Workers\<close>

definition worker_handlers :: "'k os \<Rightarrow> (int \<rightharpoonup> 'k swapper handler)" where
  "worker_handlers os =
     addHandler 4 sleepRequestHandler
       (addHandler 2 schedulerRequestHandler
         (addHandler 3 (swapRequestHandler os)
           (addHandler 1 (syscallRequestHandler os) (addHandler 0 debugRequestHandler Map.empty))))"

definition worker_step :: "'k os \<Rightarrow> 'k swapper \<Rightarrow> 'k swapper result" where
  "worker_step os s =
     rbind (checkSleep os s) (\<lambda>s1.
       case sw_queue s1 of
         [] \<Rightarrow> Inr s1
       | a # q \<Rightarrow>
           (case sw_requests s1 a of
              None \<Rightarrow> Inl Wild
            | Some r \<Rightarrow>
                rbind (dispatch (worker_handlers os) r (s1\<lparr>sw_queue := q, cur_req := a\<rparr>)) (\<lambda>(r', s2).
                  Inr (s2\<lparr>sw_requests := (sw_requests s2)(a \<mapsto> r')\<rparr>))))"

fun runWorker :: "nat \<Rightarrow> 'k os \<Rightarrow> 'k swapper \<Rightarrow> 'k swapper result" where
  "runWorker 0 os s = Inr s"
| "runWorker (Suc n) os s = rbind (worker_step os s) (runWorker n os)"

text \<open>One round of the debugger thread, which prints the ring buffer of the enclave: position, buffer and output.\<close>

definition DBBUF_SIZE :: nat where
  "DBBUF_SIZE = 40960"

definition debuggerThread_step :: "nat \<times> nat list \<times> nat list \<Rightarrow> nat \<times> nat list \<times> nat list" where
  "debuggerThread_step x =
     (let (p, buf, out) = x in
      if buf ! p \<noteq> 0 then ((p + 1) mod DBBUF_SIZE, buf[p := 0], out @ [buf ! p]) else (p, buf, out))"

section \<open>Sleeping requests\<close>

lemma multimap_insert_set [simp]: "set (multimap_insert k v m) = insert (k, v) (set m)"
  by (induction k v m rule: multimap_insert.induct) auto

lemma multimap_insert_sorted: "sorted (map fst m) \<Longrightarrow> sorted (map fst (multimap_insert k v m))"
  by (induction k v m rule: multimap_insert.induct) (auto simp: less_imp_le)

definition finish :: "nat set \<Rightarrow> (nat \<rightharpoonup> request) \<Rightarrow> (nat \<rightharpoonup> request)" where
  "finish A R = (\<lambda>a. if a \<in> A then map_option setDone (R a) else R a)"

lemma wakeUpThread_fields [simp]:
  "sw_queue (wakeUpThread s) = sw_queue s" "sw_requests (wakeUpThread s) = sw_requests s" "cur_req (wakeUpThread s) = cur_req s"
  "sleepMap (wakeUpThread s) = sleepMap s" "timeSpec (wakeUpThread s) = timeSpec s" "epollCount (wakeUpThread s) = epollCount s"
  "ep_pool (wakeUpThread s) = ep_pool s" "isgx_fd (wakeUpThread s) = isgx_fd s" "kernel (wakeUpThread s) = kernel s"
  by (simp_all add: wakeUpThread_def)

lemma setDone_twice [simp]: "setDone (setDone r) = setDone r"
  by (simp add: setDone_def)

lemma wake_sleepers_correct:
  assumes "sorted (map fst m)" "\<forall>(t, a)\<in>set m. sw_requests s a \<noteq> None"
  shows "\<exists>s'. wake_sleepers ns m s = Inr s' \<and> sleepMap s' = filter (\<lambda>(t, a). \<not> t < ns) m \<and>
    sw_requests s' = finish (snd ` set (filter (\<lambda>(t, a). t < ns) m)) (sw_requests s) \<and> sw_queue s' = sw_queue s \<and>
    timeSpec s' = timeSpec s \<and> kernel s' = kernel s \<and> epollCount s' = epollCount s \<and> ep_pool s' = ep_pool s \<and> isgx_fd s' = isgx_fd s"
  using assms
proof (induction m arbitrary: s)
  case Nil then show ?case by (simp add: finish_def)
next
  case (Cons e m)
  obtain t a where e: "e = (t, a)" by (cases e)
  show ?case
  proof (cases "t < ns")
    case False
    then have "filter (\<lambda>(t, a). t < ns) (e # m) = []" "filter (\<lambda>(t, a). \<not> t < ns) (e # m) = e # m"
      using Cons.prems(1) e by (auto simp: filter_empty_conv filter_id_conv)
    then show ?thesis using False e by (simp add: finish_def)
  next
    case True
    obtain r where r: "sw_requests s a = Some r" using Cons.prems(2) e by auto
    let ?s = "wakeUpThread (s\<lparr>sw_requests := (sw_requests s)(a \<mapsto> setDone r)\<rparr>)"
    have "finish A ((sw_requests s)(a \<mapsto> setDone r)) = finish (insert a A) (sw_requests s)" for A
      using r by (auto simp: finish_def)
    moreover have "\<forall>(t, a)\<in>set m. sw_requests ?s a \<noteq> None" using Cons.prems(2) by auto
    ultimately show ?thesis using Cons.IH [of ?s] Cons.prems(1) True e r by (simp add: fun_upd_def)
  qed
qed

text \<open>
  C29. A check of the sleeping requests finishes exactly those whose target lies before the reading of
  the clock that the previous check made, and keeps the others in their order. The reading that this check
  makes counts only for the next one.
\<close>

theorem checkSleep_correct:
  assumes "sorted (map fst (sleepMap s))" "\<forall>(t, a)\<in>set (sleepMap s). sw_requests s a \<noteq> None"
  shows "\<exists>s'. checkSleep os s = Inr s' \<and> timeSpec s' = fst (os_clock os (kernel s)) \<and>
    sleepMap s' = filter (\<lambda>(t, a). clock_ns (timeSpec s) \<le> t) (sleepMap s) \<and> sorted (map fst (sleepMap s')) \<and>
    sw_requests s' = finish {a. \<exists>t. (t, a) \<in> set (sleepMap s) \<and> t < clock_ns (timeSpec s)} (sw_requests s) \<and>
    sw_queue s' = sw_queue s"
proof -
  obtain ts k where c: "os_clock os (kernel s) = (ts, k)" by fastforce
  let ?s = "s\<lparr>timeSpec := ts, kernel := k\<rparr>" and ?ns = "clock_ns (timeSpec s)"
  obtain s' where s': "wake_sleepers ?ns (sleepMap s) ?s = Inr s'" "sleepMap s' = filter (\<lambda>(t, a). \<not> t < ?ns) (sleepMap s)"
      "sw_requests s' = finish (snd ` set (filter (\<lambda>(t, a). t < ?ns) (sleepMap s))) (sw_requests s)" "timeSpec s' = ts"
      "sw_queue s' = sw_queue s"
    using wake_sleepers_correct [of "sleepMap s" ?s ?ns] assms by auto
  have "snd ` set (filter (\<lambda>(t, a). t < ?ns) (sleepMap s)) = {a. \<exists>t. (t, a) \<in> set (sleepMap s) \<and> t < ?ns}" by force
  moreover have "sorted (map fst (sleepMap s'))" using assms(1) unfolding s'(2) by (rule sorted_filter)
  ultimately show ?thesis using s' c by (simp add: checkSleep_def not_less)
qed

section \<open>Serving requests\<close>

definition is_epoll :: "SyscallRequest \<Rightarrow> bool" where
  "is_epoll q \<longleftrightarrow> syscall_num (fm_list q) = SYS_EPOLL_WAIT \<or> syscall_num (fm_list q) = SYS_EPOLL_PWAIT"

text \<open>What a worker makes of a request, by its class.\<close>

definition served :: "'k os \<Rightarrow> 'k swapper \<Rightarrow> nat \<Rightarrow> request \<Rightarrow> request \<Rightarrow> 'k swapper \<Rightarrow> bool" where
  "served os s a r r' s' \<longleftrightarrow>
     (case body r of
        SleepBody ns \<Rightarrow> \<not> req_done r' \<and> (add64 ns (clock_ns (timeSpec s')), a) \<in> set (sleepMap s')
      | SyscallBody q \<Rightarrow>
          if is_epoll q then \<not> req_done r' \<and> a \<in> set (ep_pool s')
          else req_done r' \<and> body r' = SyscallBody (fst (do_syscall os q (kernel s)))
      | _ \<Rightarrow> req_done r' \<and> body r' = body r)"

lemma dispatch_served:
  assumes "requestType r = typeTag (body r)" "\<not> req_done r"
    and "\<And>q. body r = SyscallBody q \<Longrightarrow> is_epoll q \<Longrightarrow> epollCount s < 10"
    and "isgx_fd s \<ge> 0 \<or> fst (os_open_isgx os (kernel s)) \<ge> 0"
  shows "\<exists>r' s'. dispatch (worker_handlers os) r s = Inr (r', s') \<and> ack r' \<and> served os s (cur_req s) r r' s' \<and>
    sw_queue s' = sw_queue s \<and> sw_requests s' = sw_requests s"
proof (cases "body r")
  case (DebugBody b)
  then show ?thesis using assms
    by (simp add: worker_handlers_def dispatch_addHandler debugRequestHandler_def setDone_def setAck_def served_def)
next
  case (SyscallBody q)
  then show ?thesis using assms(1-3)
    by (auto simp: worker_handlers_def dispatch_addHandler syscallRequestHandler_def setDone_def setAck_def served_def
        is_epoll_def Let_def split: prod.splits)
next
  case (SchedulerBody t)
  then show ?thesis using assms(1,2)
    by (cases t) (simp_all add: worker_handlers_def dispatch_addHandler schedulerRequestHandler_def setDone_def setAck_def served_def)
next
  case (SwapBody d)
  then show ?thesis using assms(1,2,4)
    by (auto simp: worker_handlers_def dispatch_addHandler swapRequestHandler_def deviceHandle_def setDone_def setAck_def
        served_def Let_def split: prod.splits)
next
  case (SleepBody n)
  then show ?thesis using assms(1,2)
    by (simp add: worker_handlers_def dispatch_addHandler sleepRequestHandler_def setAck_def served_def Let_def)
qed

text \<open>
  C19. One round of a worker on a queue with a request in front: the request leaves the queue and is
  acknowledged. A debug, scheduler or swap request and every system call but \<open>epoll_wait\<close> is done; the
  result of the system call is the one of the operating system, with a failure as its negative error
  number. A sleep goes to the sleeping requests, with the time that it ends; an \<open>epoll_wait\<close> goes to
  the thread pool, which has room for ten.
\<close>

theorem worker_serves:
  assumes "sorted (map fst (sleepMap s))" "\<forall>(t, a)\<in>set (sleepMap s). sw_requests s a \<noteq> None \<and> a \<noteq> b"
    and "sw_queue s = b # q" "sw_requests s b = Some r" "requestType r = typeTag (body r)" "\<not> req_done r"
    and "\<And>x. body r = SyscallBody x \<Longrightarrow> is_epoll x \<Longrightarrow> epollCount s < 10" "isgx_fd s \<ge> 0"
  shows "\<exists>s' r'. worker_step os s = Inr s' \<and> sw_queue s' = q \<and> sw_requests s' b = Some r' \<and> ack r' \<and>
    served os (s\<lparr>kernel := snd (os_clock os (kernel s))\<rparr>) b r r' s'"
proof -
  obtain ts k where c: "os_clock os (kernel s) = (ts, k)" by fastforce
  let ?s = "s\<lparr>timeSpec := ts, kernel := k\<rparr>" and ?ns = "clock_ns (timeSpec s)"
  have "\<forall>(t, a)\<in>set (sleepMap s). sw_requests ?s a \<noteq> None" using assms(2) by auto
  then obtain s1 where s1: "wake_sleepers ?ns (sleepMap s) ?s = Inr s1"
      "sw_requests s1 = finish (snd ` set (filter (\<lambda>(t, a). t < ?ns) (sleepMap s))) (sw_requests s)" "sw_queue s1 = b # q"
      "kernel s1 = k" "epollCount s1 = epollCount s" "isgx_fd s1 = isgx_fd s"
    using wake_sleepers_correct [OF assms(1), of ?s ?ns] assms(3) by auto
  have r1: "sw_requests s1 b = Some r" using assms(2,4) unfolding s1(2) finish_def by auto
  let ?s2 = "s1\<lparr>sw_queue := q, cur_req := b\<rparr>"
  obtain r' s3 where d: "dispatch (worker_handlers os) r ?s2 = Inr (r', s3)" "ack r'" "served os ?s2 b r r' s3" "sw_queue s3 = q"
    using dispatch_served [of r ?s2 os] assms(5-8) s1 by auto
  have "served os (s\<lparr>kernel := k\<rparr>) b r r' (s3\<lparr>sw_requests := (sw_requests s3)(b \<mapsto> r')\<rparr>)"
    using d(3) s1(4) by (simp add: served_def split: request_body.splits)
  moreover have "worker_step os s = Inr (s3\<lparr>sw_requests := (sw_requests s3)(b \<mapsto> r')\<rparr>)"
    using c s1(1,3) r1 d(1) by (simp add: worker_step_def checkSleep_def)
  ultimately show ?thesis using c d(2,4) by simp
qed

text \<open>A system whose calls fail with error 11, and a server with one request and one sleeper.\<close>

definition demo_os :: "nat os" where
  "demo_os = \<lparr>os_syscall = (\<lambda>n xs k. (- 1, 11, k)), os_clock = (\<lambda>k. ((1, k), k + 1)), os_open_isgx = (\<lambda>k. (3, k)),
     os_swap_page = (\<lambda>fd a k. k)\<rparr>"

definition demo_call :: SyscallRequest where
  "demo_call = \<lparr>sys_ret = 0, fm_list = \<lparr>syscall_num = 0, epoll_ty = 0, args_num = 0, types = [], sizes = []\<rparr>, args = []\<rparr>"

definition demo_swapper :: "nat swapper" where
  "demo_swapper = \<lparr>sw_queue = [8], sw_requests = [8 \<mapsto> RequestBase (SyscallBody demo_call), 16 \<mapsto> SleepRequest 5], cur_req = 0,
     sleepMap = [(7, 16)], timeSpec = (0, 9), epollCount = 0, ep_pool = [], isgx_fd = 3, sw_pool = demo_pool, kernel = 0\<rparr>"

theorem checkSleep_correct_witness:
  "\<exists>s'. checkSleep demo_os demo_swapper = Inr s' \<and> sleepMap s' = [] \<and> sw_requests s' 16 = Some (setDone (SleepRequest 5))"
  using checkSleep_correct [of demo_swapper demo_os]
  by (auto simp: demo_swapper_def clock_ns_def finish_def add64_def mul64_def)

theorem worker_serves_witness:
  "\<exists>s' r' x. worker_step demo_os demo_swapper = Inr s' \<and> sw_queue s' = [] \<and> sw_requests s' 8 = Some r' \<and> req_done r' \<and>
     body r' = SyscallBody x \<and> sys_ret x = - 11"
  using worker_serves [of demo_swapper 8 "[]" "RequestBase (SyscallBody demo_call)" demo_os]
  by (fastforce simp: demo_swapper_def RequestBase_def served_def is_epoll_def demo_call_def SYS_EPOLL_WAIT_def
      SYS_EPOLL_PWAIT_def do_syscall_def demo_os_def)

end
