(* ===== verification/Sgx_Arch.thy ===== *)
theory Sgx_Arch
  imports Prelude
begin

text \<open>
  The architectural structures of SGX (\<open>include/sgx_arch.h\<close>). Unsigned fields are natural numbers, the
  security flags are words, arrays of bytes are lists.
\<close>

unbundle bit_operations_syntax

section \<open>Flags\<close>

definition SGX_PAGE_SIZE :: nat where
  "SGX_PAGE_SIZE = 0x1000"

definition SGX_FLAGS_DEBUG :: "64 word" where
  "SGX_FLAGS_DEBUG = 2"

definition SGX_FLAGS_MODE64BIT :: "64 word" where
  "SGX_FLAGS_MODE64BIT = 4"

definition SI_FLAG_PT_LOW_BIT :: nat where
  "SI_FLAG_PT_LOW_BIT = 8"

definition SI_FLAG_REG :: "64 word" where
  "SI_FLAG_REG = push_bit SI_FLAG_PT_LOW_BIT 2"

definition THREAD_STACK_NUM :: nat where
  "THREAD_STACK_NUM = 2"

definition ENCLAVE_PAGE_READ :: "64 word" where
  "ENCLAVE_PAGE_READ = 1"

definition ENCLAVE_PAGE_WRITE :: "64 word" where
  "ENCLAVE_PAGE_WRITE = 2"

definition ENCLAVE_PAGE_EXECUTE :: "64 word" where
  "ENCLAVE_PAGE_EXECUTE = 4"

definition ENCLAVE_PAGE_THREAD_CONTROL :: "64 word" where
  "ENCLAVE_PAGE_THREAD_CONTROL = push_bit 8 1"

section \<open>Structures\<close>

record secs_t =
  secs_size :: nat
  secs_base :: nat
  ssaframesize :: nat
  secs_miscselect :: nat
  secs_attributes :: "64 word"
  xfrm :: nat
  secs_mrenclave :: "nat list"
  secs_mrsigner :: "nat list"
  secs_isvprodid :: nat
  secs_isvsvn :: nat

record sec_info_t =
  si_flags :: "64 word"

record tcs_t =
  tcs_state :: nat
  tcs_flags :: nat
  ossa :: nat
  cssa :: nat
  nssa :: nat
  oentry :: nat
  aep :: nat
  ofsbase :: nat
  ogsbase :: nat
  fslimit :: nat
  gslimit :: nat

record exit_info_t =
  exit_vector :: nat
  exit_type :: nat
  exit_valid :: bool

record ssa_gpr_t =
  gpr_ax :: nat
  gpr_cx :: nat
  gpr_dx :: nat
  gpr_bx :: nat
  gpr_sp :: nat
  gpr_bp :: nat
  gpr_si :: nat
  gpr_di :: nat
  gpr_r8 :: nat
  gpr_r9 :: nat
  gpr_r10 :: nat
  gpr_r11 :: nat
  gpr_r12 :: nat
  gpr_r13 :: nat
  gpr_r14 :: nat
  gpr_r15 :: nat
  gpr_flags :: nat
  gpr_ip :: nat
  gpr_sp_u :: nat
  gpr_bp_u :: nat
  gpr_exit_info :: exit_info_t
  gpr_fs :: nat
  gpr_gs :: nat

definition GPRSGX_SIZE :: nat where
  "GPRSGX_SIZE = 184"

record sigstruct =
  header11 :: nat
  header12 :: nat
  vendor :: nat
  date :: nat
  header21 :: nat
  header22 :: nat
  swdefined :: nat
  modulus :: "u8 list"
  exponent :: nat
  signature :: "u8 list"
  miscselect :: nat
  micsmask :: nat
  sig_reserved2 :: nat
  isvfamilyid1 :: nat
  isvfamilyid2 :: nat
  attributes1 :: "64 word"
  attributes2 :: nat
  attributemask1 :: nat
  attributemask2 :: nat
  enclavehash :: "u8 list"
  isvextprodid1 :: nat
  isvextprodid2 :: nat
  isvprodid :: nat
  isvsvn :: nat
  q1 :: "u8 list"
  q2 :: "u8 list"

end
