(* ===== verification/Interrupt.thy ===== *)
theory Interrupt
  imports Sgx_Arch Prelude
begin

text \<open>
  Preemption (\<open>libOS/interrupt.cpp\<close>). When the loader asks for it, \<open>do_interrupt\<close> redirects the saved state of
  the interrupted thread to \<open>injectedFunc\<close>, which saves the registers on a stack of the user thread, calls the
  scheduler through \<open>do_preempt\<close>, and goes back to the interrupted place. The instructions that the assembly
  code uses have their meaning on a small machine: registers, flags, memory as 8-byte cells by address, and the
  base of the thread-local page in \<open>gs\<close>.
\<close>

section \<open>The machine\<close>

datatype reg = RAX | RBX | RCX | RDX | RSI | RDI | RBP | RSP | R8 | R9 | R10 | R11 | R12 | R13 | R14 | R15

text \<open>\<open>cpu_x\<close> is the extended state (x87, SSE, AVX), and \<open>x_area\<close> the save regions by address.\<close>

record cpu_state =
  cpu_regs :: "reg \<Rightarrow> nat"
  cpu_flags :: nat
  cpu_rip :: nat
  cpu_mem :: "nat \<Rightarrow> nat"
  cpu_gs :: nat
  cpu_x :: nat
  x_area :: "nat \<Rightarrow> nat"

datatype instr = Push reg | Pop reg | Mov reg reg | Pushfq | Popfq | Push_gs nat | Pop_gs nat | Load_gs nat reg | Jmp_gs nat
  | Call "cpu_state \<Rightarrow> cpu_state" | Ret

definition push_word :: "nat \<Rightarrow> cpu_state \<Rightarrow> cpu_state" where
  "push_word v s =
     (let sp = sub64 (cpu_regs s RSP) 8 in s\<lparr>cpu_regs := (cpu_regs s)(RSP := sp), cpu_mem := (cpu_mem s)(sp := v)\<rparr>)"

definition pop_word :: "cpu_state \<Rightarrow> nat \<times> cpu_state" where
  "pop_word s =
     (let sp = cpu_regs s RSP in (cpu_mem s sp, s\<lparr>cpu_regs := (cpu_regs s)(RSP := add64 sp 8)\<rparr>))"

text \<open>A callee starts with its return address below the stack pointer and returns with the stack pointer it found.\<close>

fun exec_instr :: "instr \<Rightarrow> cpu_state \<Rightarrow> cpu_state" where
  "exec_instr (Push r) s = push_word (cpu_regs s r) s"
| "exec_instr (Pop r) s = (let (v, s1) = pop_word s in s1\<lparr>cpu_regs := (cpu_regs s1)(r := v)\<rparr>)"
| "exec_instr (Mov a b) s = s\<lparr>cpu_regs := (cpu_regs s)(b := cpu_regs s a)\<rparr>"
| "exec_instr Pushfq s = push_word (cpu_flags s) s"
| "exec_instr Popfq s = (let (v, s1) = pop_word s in s1\<lparr>cpu_flags := v\<rparr>)"
| "exec_instr (Push_gs n) s = push_word (cpu_mem s (cpu_gs s + n)) s"
| "exec_instr (Pop_gs n) s = (let (v, s1) = pop_word s in s1\<lparr>cpu_mem := (cpu_mem s1)(cpu_gs s1 + n := v)\<rparr>)"
| "exec_instr (Load_gs n r) s = s\<lparr>cpu_regs := (cpu_regs s)(r := cpu_mem s (cpu_gs s + n))\<rparr>"
| "exec_instr (Jmp_gs n) s = s\<lparr>cpu_rip := cpu_mem s (cpu_gs s + n)\<rparr>"
| "exec_instr (Call f) s = f s"
| "exec_instr Ret s = (let (v, s1) = pop_word s in s1\<lparr>cpu_rip := v\<rparr>)"

definition set_reg :: "reg \<Rightarrow> nat \<Rightarrow> cpu_state \<Rightarrow> cpu_state" where
  "set_reg r v s = s\<lparr>cpu_regs := (cpu_regs s)(r := v)\<rparr>"

definition exec :: "instr list \<Rightarrow> cpu_state \<Rightarrow> cpu_state" where
  "exec is s = fold exec_instr is s"

section \<open>The code\<close>

text \<open>The assembly code names two fields of \<open>enclave_tls\<close> by their offsets: 48 is \<open>stack\<close>, 56 is \<open>preempt_rip\<close>.\<close>

text \<open>
  \<open>sched\<close> is the scheduler at the level of the machine, up to its return to this thread; it may have run
  other threads, and the thread may go on on another CPU. \<open>region\<close> is the save region of the thread.
\<close>

definition do_preempt :: "nat \<Rightarrow> (cpu_state \<Rightarrow> cpu_state) \<Rightarrow> cpu_state \<Rightarrow> cpu_state" where
  "do_preempt region sched s =
     (let s1 = s\<lparr>x_area := (x_area s)(region := cpu_x s)\<rparr>;
          s2 = sched s1
      in s2\<lparr>cpu_x := x_area s2 region\<rparr>)"

definition injectedFunc :: "(cpu_state \<Rightarrow> cpu_state) \<Rightarrow> instr list" where
  "injectedFunc preempt =
     [Push RBP, Mov RSP RBP, Push RAX, Push RBX, Push RCX, Push RDX, Push RSI, Push RDI, Push R8, Push R9, Push R10, Push R11,
      Push R12, Push R13, Push R14, Push R15, Pushfq, Push_gs 48, Push_gs 56, Call preempt, Pop_gs 56, Pop_gs 48, Popfq,
      Pop R15, Pop R14, Pop R13, Pop R12, Pop R11, Pop R10, Pop R9, Pop R8, Pop RDI, Pop RSI, Pop RDX, Pop RCX, Pop RBX,
      Pop RAX, Pop RBP, Load_gs 48 RSP, Jmp_gs 56]"

text \<open>The addresses of the code that must not be interrupted again.\<close>

record code_symbols =
  no_interrupt_begin :: nat
  no_interrupt_end :: nat
  do_preempt_addr :: nat
  injectedFunc_addr :: nat

definition SSAFRAME_SIZE :: nat where
  "SSAFRAME_SIZE = 4"

definition ssa_gpr_addr :: "nat \<Rightarrow> nat" where
  "ssa_gpr_addr tcs = tcs + 4096 + 4096 * SSAFRAME_SIZE - GPRSGX_SIZE"

definition no_interrupt_zone :: "code_symbols \<Rightarrow> nat \<Rightarrow> bool" where
  "no_interrupt_zone sy ip \<longleftrightarrow>
     no_interrupt_begin sy \<le> ip \<and> ip < no_interrupt_end sy \<or> do_preempt_addr sy \<le> ip \<and> ip \<le> do_preempt_addr sy + 172"

definition do_interrupt :: "code_symbols \<Rightarrow> nat \<Rightarrow> ssa_gpr_t \<Rightarrow> cpu_state \<Rightarrow> ssa_gpr_t \<times> cpu_state" where
  "do_interrupt sy preempt_injection_stack ssa_gpr s =
     (if no_interrupt_zone sy (gpr_ip ssa_gpr) then (ssa_gpr, s)
      else
        (ssa_gpr\<lparr>gpr_ip := injectedFunc_addr sy, gpr_sp := preempt_injection_stack\<rparr>,
         s\<lparr>cpu_mem := (cpu_mem s)(cpu_gs s + 56 := gpr_ip ssa_gpr, cpu_gs s + 48 := gpr_sp ssa_gpr)\<rparr>))"

text \<open>What the processor does on \<open>ERESUME\<close>: it loads the registers from the saved state.\<close>

fun gpr_of :: "ssa_gpr_t \<Rightarrow> reg \<Rightarrow> nat" where
  "gpr_of g RAX = gpr_ax g"
| "gpr_of g RBX = gpr_bx g"
| "gpr_of g RCX = gpr_cx g"
| "gpr_of g RDX = gpr_dx g"
| "gpr_of g RSI = gpr_si g"
| "gpr_of g RDI = gpr_di g"
| "gpr_of g RBP = gpr_bp g"
| "gpr_of g RSP = gpr_sp g"
| "gpr_of g R8 = gpr_r8 g"
| "gpr_of g R9 = gpr_r9 g"
| "gpr_of g R10 = gpr_r10 g"
| "gpr_of g R11 = gpr_r11 g"
| "gpr_of g R12 = gpr_r12 g"
| "gpr_of g R13 = gpr_r13 g"
| "gpr_of g R14 = gpr_r14 g"
| "gpr_of g R15 = gpr_r15 g"

definition eresume :: "ssa_gpr_t \<Rightarrow> cpu_state \<Rightarrow> cpu_state" where
  "eresume g s = s\<lparr>cpu_regs := gpr_of g, cpu_flags := gpr_flags g, cpu_rip := gpr_ip g\<rparr>"

section \<open>Preemption is transparent\<close>

text \<open>The cells of the thread-local page lie outside the stack from \<open>lo\<close> to \<open>hi\<close>.\<close>

definition tls_apart :: "nat \<Rightarrow> nat \<Rightarrow> cpu_state \<Rightarrow> bool" where
  "tls_apart lo hi s \<longleftrightarrow> hi \<le> cpu_gs s \<or> cpu_gs s + 64 \<le> lo"

text \<open>
  What the scheduler promises to the thread it returns to: the stack pointer and the cells above it are as
  before, its save region is untouched, and the thread-local page of the CPU it runs on now is not part of
  its stack.
\<close>

definition sched_returns :: "nat \<Rightarrow> nat \<Rightarrow> (cpu_state \<Rightarrow> cpu_state) \<Rightarrow> bool" where
  "sched_returns hi region sched \<longleftrightarrow>
     (\<forall>s. cpu_regs (sched s) RSP = cpu_regs s RSP \<and> x_area (sched s) region = x_area s region \<and>
          (\<forall>a. cpu_regs s RSP \<le> a \<and> a < hi \<longrightarrow> cpu_mem (sched s) a = cpu_mem s a) \<and>
          tls_apart (cpu_regs s RSP) hi (sched s))"

definition resumed :: "ssa_gpr_t \<Rightarrow> nat \<Rightarrow> cpu_state \<Rightarrow> bool" where
  "resumed g x s \<longleftrightarrow> cpu_regs s = gpr_of g \<and> cpu_flags s = gpr_flags g \<and> cpu_rip s = gpr_ip g \<and> cpu_x s = x"

definition save_code :: "instr list" where
  "save_code = take 19 (injectedFunc id)"

definition restore_code :: "instr list" where
  "restore_code = drop 20 (injectedFunc id)"

lemma injectedFunc_split: "injectedFunc f = save_code @ Call f # restore_code"
  by (simp add: save_code_def restore_code_def injectedFunc_def)

definition saved_regs :: "reg list" where
  "saved_regs = [R15, R14, R13, R12, R11, R10, R9, R8, RDI, RSI, RDX, RCX, RBX, RAX, RBP]"

text \<open>The frame that the first half leaves on the stack, from its lowest cell.\<close>

definition frame :: "(reg \<Rightarrow> nat) \<Rightarrow> nat \<Rightarrow> nat \<Rightarrow> nat \<Rightarrow> nat list" where
  "frame r fl sp ip = ip # sp # fl # map r saved_regs"

lemma stack_arith:
  assumes "b + 144 < 2 ^ 64" "n \<le> 144" "8 \<le> n"
  shows "sub64 (b + n) 8 = b + (n - 8)"
  using assms by (simp add: sub64_small)

lemma all_less_18:
  "(\<forall>i < (18 :: nat). P i) \<longleftrightarrow> P 0 \<and> P 1 \<and> P 2 \<and> P 3 \<and> P 4 \<and> P 5 \<and> P 6 \<and> P 7 \<and> P 8 \<and> P 9 \<and> P 10 \<and> P 11 \<and>
     P 12 \<and> P 13 \<and> P 14 \<and> P 15 \<and> P 16 \<and> P 17"
  by (auto simp: numeral_eq_Suc All_less_Suc)

lemma save_frame:
  assumes "cpu_regs s RSP = b + 144" "b + 144 < 2 ^ 64" "tls_apart b (b + 144) s"
  shows "cpu_regs (exec save_code s) RSP = b" "cpu_x (exec save_code s) = cpu_x s"
    "\<forall>i < 18. cpu_mem (exec save_code s) (b + 8 * i) =
       frame (cpu_regs s) (cpu_flags s) (cpu_mem s (cpu_gs s + 48)) (cpu_mem s (cpu_gs s + 56)) ! i"
proof -
  have e: "sub64 (b + 144) 8 = b + 136" "sub64 (b + 136) 8 = b + 128" "sub64 (b + 128) 8 = b + 120" "sub64 (b + 120) 8 = b + 112"
    "sub64 (b + 112) 8 = b + 104" "sub64 (b + 104) 8 = b + 96" "sub64 (b + 96) 8 = b + 88" "sub64 (b + 88) 8 = b + 80"
    "sub64 (b + 80) 8 = b + 72" "sub64 (b + 72) 8 = b + 64" "sub64 (b + 64) 8 = b + 56" "sub64 (b + 56) 8 = b + 48"
    "sub64 (b + 48) 8 = b + 40" "sub64 (b + 40) 8 = b + 32" "sub64 (b + 32) 8 = b + 24" "sub64 (b + 24) 8 = b + 16"
    "sub64 (b + 16) 8 = b + 8" "sub64 (b + 8) 8 = b"
    using assms(2) by (simp_all add: sub64_small)
  have ne: "cpu_gs s + 48 \<noteq> b + k" "cpu_gs s + 56 \<noteq> b + k" if "k < 144" for k
    using assms(3) that by (auto simp: tls_apart_def)
  have gs: "cpu_gs s \<noteq> b" using assms(3) by (auto simp: tls_apart_def)
  show "cpu_regs (exec save_code s) RSP = b" "cpu_x (exec save_code s) = cpu_x s"
    by (simp_all add: exec_def save_code_def injectedFunc_def push_word_def Let_def assms(1) e)
  show "\<forall>i < 18. cpu_mem (exec save_code s) (b + 8 * i) =
       frame (cpu_regs s) (cpu_flags s) (cpu_mem s (cpu_gs s + 48)) (cpu_mem s (cpu_gs s + 56)) ! i"
    by (simp add: exec_def save_code_def injectedFunc_def push_word_def Let_def assms(1) e frame_def saved_regs_def
      all_less_18 ne gs)
qed

lemma restore_frame:
  assumes "cpu_regs s RSP = b" "b + 144 < 2 ^ 64" "tls_apart b (b + 144) s" "\<forall>i < 18. cpu_mem s (b + 8 * i) = frame r fl sp ip ! i"
  shows "cpu_regs (exec restore_code s) = r(RSP := sp)" "cpu_flags (exec restore_code s) = fl" "cpu_rip (exec restore_code s) = ip"
    "cpu_x (exec restore_code s) = cpu_x s"
proof -
  have e: "add64 b 8 = b + 8" "add64 (b + 8) 8 = b + 16" "add64 (b + 16) 8 = b + 24" "add64 (b + 24) 8 = b + 32"
    "add64 (b + 32) 8 = b + 40" "add64 (b + 40) 8 = b + 48" "add64 (b + 48) 8 = b + 56" "add64 (b + 56) 8 = b + 64"
    "add64 (b + 64) 8 = b + 72" "add64 (b + 72) 8 = b + 80" "add64 (b + 80) 8 = b + 88" "add64 (b + 88) 8 = b + 96"
    "add64 (b + 96) 8 = b + 104" "add64 (b + 104) 8 = b + 112" "add64 (b + 112) 8 = b + 120" "add64 (b + 120) 8 = b + 128"
    "add64 (b + 128) 8 = b + 136" "add64 (b + 136) 8 = b + 144"
    using assms(2) by (simp_all add: add64_small)
  have ne: "b + k \<noteq> cpu_gs s + 48" "b + k \<noteq> cpu_gs s + 56" if "k < 144" for k
    using assms(3) that by (auto simp: tls_apart_def)
  have gs: "b \<noteq> cpu_gs s" "b \<noteq> cpu_gs s + 48" "b \<noteq> cpu_gs s + 56" using assms(3) by (auto simp: tls_apart_def)
  note cells = assms(4) [unfolded all_less_18 frame_def saved_regs_def, simplified]
  note code = exec_def restore_code_def injectedFunc_def pop_word_def Let_def assms(1) e
  show "cpu_flags (exec restore_code s) = fl" "cpu_rip (exec restore_code s) = ip" "cpu_x (exec restore_code s) = cpu_x s"
    by (simp_all add: code cells ne gs)
  show "cpu_regs (exec restore_code s) = r(RSP := sp)"
  proof
    fix q
    show "cpu_regs (exec restore_code s) q = (r(RSP := sp)) q"
      by (cases q) (simp_all add: code cells ne gs)
  qed
qed

lemma gpr_of_redirected: "gpr_of (g\<lparr>gpr_ip := a, gpr_sp := b\<rparr>) = (gpr_of g)(RSP := b)"
proof
  fix q
  show "gpr_of (g\<lparr>gpr_ip := a, gpr_sp := b\<rparr>) q = ((gpr_of g)(RSP := b)) q" by (cases q) simp_all
qed

lemma frame_RSP: "frame (r(RSP := v)) fl sp ip = frame r fl sp ip"
  by (simp add: frame_def saved_regs_def)

lemma gpr_of_RSP: "(gpr_of g)(RSP := gpr_sp g) = gpr_of g"
  by (simp add: fun_upd_idem)

text \<open>From the place where the saved state is redirected: the injected code brings the thread back.\<close>

lemma injected_resumes:
  assumes "144 \<le> stk" "stk < 2 ^ 64" "tls_apart (stk - 144) stk s" "sched_returns stk region sched"
    "cpu_mem s (cpu_gs s + 48) = gpr_sp g" "cpu_mem s (cpu_gs s + 56) = gpr_ip g"
  shows "resumed g (cpu_x s) (exec (injectedFunc (do_preempt region sched)) (eresume (g\<lparr>gpr_ip := a, gpr_sp := stk\<rparr>) s))"
proof -
  define b where "b = stk - 144"
  have stk: "stk = b + 144" "b + 144 < 2 ^ 64" using assms(1,2) by (simp_all add: b_def)
  let ?s2 = "eresume (g\<lparr>gpr_ip := a, gpr_sp := stk\<rparr>) s"
  let ?s3 = "exec save_code ?s2" and ?s4 = "do_preempt region sched (exec save_code ?s2)"
  have r2: "cpu_regs ?s2 = (gpr_of g)(RSP := b + 144)" "cpu_flags ?s2 = gpr_flags g" "cpu_gs ?s2 = cpu_gs s" "cpu_mem ?s2 = cpu_mem s"
    "cpu_x ?s2 = cpu_x s" by (simp_all add: eresume_def gpr_of_redirected stk(1))
  have apart: "tls_apart b (b + 144) ?s2" using assms(3) [folded b_def] r2(3) by (simp add: tls_apart_def stk(1))
  note save = save_frame [OF _ stk(2) apart, unfolded r2 fun_upd_same assms(5,6), OF refl, unfolded frame_RSP]
  note ret = assms(4) [unfolded sched_returns_def, rule_format, of "?s3\<lparr>x_area := (x_area ?s3)(region := cpu_x ?s3)\<rparr>"]
  have s4: "cpu_regs ?s4 RSP = b" "tls_apart b (b + 144) ?s4" "cpu_x ?s4 = cpu_x s"
      "\<forall>i < 18. cpu_mem ?s4 (b + 8 * i) = frame (gpr_of g) (gpr_flags g) (gpr_sp g) (gpr_ip g) ! i"
    using ret save by (simp_all add: do_preempt_def Let_def tls_apart_def stk(1))
  have "exec (injectedFunc (do_preempt region sched)) ?s2 = exec restore_code ?s4"
    by (simp add: injectedFunc_split exec_def)
  then show ?thesis using restore_frame [OF s4(1) stk(2) s4(2) s4(4)] s4(3) by (simp add: resumed_def gpr_of_RSP)
qed

text \<open>In a place that must not be interrupted, the handler goes back without a change; the loader has already marked
  the thread as interrupted, and nothing on this path takes the mark back.\<close>

lemma do_interrupt_zone: "no_interrupt_zone sy (gpr_ip g) \<Longrightarrow> do_interrupt sy stk g s = (g, s)"
  by (simp add: do_interrupt_def)

lemma do_interrupt_redirects:
  assumes "do_interrupt sy stk g s = (g', s1)" "\<not> no_interrupt_zone sy (gpr_ip g)"
  shows "g' = g\<lparr>gpr_ip := injectedFunc_addr sy, gpr_sp := stk\<rparr>" "cpu_gs s1 = cpu_gs s" "cpu_x s1 = cpu_x s" "cpu_regs s1 = cpu_regs s"
    "cpu_mem s1 (cpu_gs s + 48) = gpr_sp g" "cpu_mem s1 (cpu_gs s + 56) = gpr_ip g"
    "a \<noteq> cpu_gs s + 48 \<Longrightarrow> a \<noteq> cpu_gs s + 56 \<Longrightarrow> cpu_mem s1 a = cpu_mem s a"
  using assms by (auto simp: do_interrupt_def)

text \<open>C7. Preemption is transparent to the interrupted code. After \<open>do_interrupt\<close> the thread resumes either where it was
  (in a place that must not be interrupted) or in \<open>injectedFunc\<close>. In the second case, whatever the scheduler does before it
  comes back to the thread, and whichever CPU it comes back on, the injected code ends at the interrupted instruction with
  all sixteen registers, the flags and the extended state as they were when the thread was interrupted.\<close>

theorem preempt_transparent:
  assumes "144 \<le> stk" "stk < 2 ^ 64" "tls_apart (stk - 144) stk s" "sched_returns stk region sched"
    "do_interrupt sy stk g s = (g', s1)"
  shows "cpu_rip (eresume g' s1) = (if no_interrupt_zone sy (gpr_ip g) then gpr_ip g else injectedFunc_addr sy) \<and>
    resumed g (cpu_x s)
      (if no_interrupt_zone sy (gpr_ip g) then eresume g' s1
       else exec (injectedFunc (do_preempt region sched)) (eresume g' s1))"
proof (cases "no_interrupt_zone sy (gpr_ip g)")
  case True
  then show ?thesis using assms(5) by (auto simp: do_interrupt_def eresume_def resumed_def)
next
  case False
  note d = do_interrupt_redirects [OF assms(5) False]
  have "tls_apart (stk - 144) stk s1" using assms(3) d(2) by (simp add: tls_apart_def)
  then show ?thesis using injected_resumes [OF assms(1,2) _ assms(4), of s1 g "injectedFunc_addr sy"] d False
    by (simp add: eresume_def)
qed

definition demo_ssa :: ssa_gpr_t where
  "demo_ssa = \<lparr>gpr_ax = 1, gpr_cx = 2, gpr_dx = 3, gpr_bx = 4, gpr_sp = 0x9000, gpr_bp = 0x9010, gpr_si = 5, gpr_di = 6, gpr_r8 = 7,
     gpr_r9 = 8, gpr_r10 = 9, gpr_r11 = 10, gpr_r12 = 11, gpr_r13 = 12, gpr_r14 = 13, gpr_r15 = 14, gpr_flags = 0x202, gpr_ip = 0x1234,
     gpr_sp_u = 0, gpr_bp_u = 0, gpr_exit_info = \<lparr>exit_vector = 0, exit_type = 0, exit_valid = False\<rparr>, gpr_fs = 0, gpr_gs = 0\<rparr>"

definition demo_cpu :: cpu_state where
  "demo_cpu = \<lparr>cpu_regs = \<lambda>_. 0, cpu_flags = 0, cpu_rip = 0, cpu_mem = \<lambda>_. 0, cpu_gs = 0x8000, cpu_x = 77, x_area = \<lambda>_. 0\<rparr>"

definition demo_symbols :: code_symbols where
  "demo_symbols = \<lparr>no_interrupt_begin = 0x4000, no_interrupt_end = 0x4050, do_preempt_addr = 0x5000, injectedFunc_addr = 0x4000\<rparr>"

text \<open>A scheduler that comes back on another CPU, with other values in every register and all other memory cleared.\<close>

definition demo_sched :: "cpu_state \<Rightarrow> cpu_state" where
  "demo_sched s = s\<lparr>cpu_regs := (\<lambda>q. if q = RSP then cpu_regs s RSP else 99), cpu_flags := 0, cpu_gs := 0xf000, cpu_x := 0,
     cpu_mem := (\<lambda>a. if cpu_regs s RSP \<le> a \<and> a < 0x7000 then cpu_mem s a else 0)\<rparr>"

theorem preempt_transparent_witness:
  "case do_interrupt demo_symbols 0x7000 demo_ssa demo_cpu of
     (g', s1) \<Rightarrow> cpu_rip (eresume g' s1) = 0x4000 \<and>
       resumed demo_ssa 77 (exec (injectedFunc (do_preempt 1 demo_sched)) (eresume g' s1))"
proof -
  have s: "sched_returns 0x7000 1 demo_sched" by (simp add: sched_returns_def demo_sched_def tls_apart_def)
  have z: "\<not> no_interrupt_zone demo_symbols (gpr_ip demo_ssa)" "injectedFunc_addr demo_symbols = 0x4000" "cpu_x demo_cpu = 77"
    by (simp_all add: no_interrupt_zone_def demo_symbols_def demo_ssa_def demo_cpu_def)
  have "tls_apart (0x7000 - 144) 0x7000 demo_cpu" by (simp add: tls_apart_def demo_cpu_def)
  then show ?thesis using preempt_transparent [OF _ _ _ s, of demo_cpu demo_symbols demo_ssa] z by (simp split: prod.split)
qed

end
