(* ===== verification/Signature.thy ===== *)
theory Signature
  imports Sgx_Arch
begin

text \<open>
  The measurement of the enclave and its signature structure (\<open>loader/signature.cpp\<close>). The hash, the RSA
  signature and the protocol buffers are parameters: \<open>sha\<close> maps the bytes given to \<open>SHA256_Update\<close> to
  the digest, \<open>sign\<close> is \<open>signMsg\<close> with the private key, \<open>n\<close> is the modulus of the public key. The big
  numbers of OpenSSL are natural numbers, and its operations on them are a parameter, too.
\<close>

section \<open>Bytes\<close>

fun le_bytes :: "nat \<Rightarrow> nat \<Rightarrow> u8 list" where
  "le_bytes 0 v = []"
| "le_bytes (Suc k) v = word_of_nat v # le_bytes k (v div 256)"

fun le_num :: "u8 list \<Rightarrow> nat" where
  "le_num [] = 0"
| "le_num (b # bs) = unat b + 256 * le_num bs"

text \<open>The operations of OpenSSL's big numbers that the code calls; a division gives quotient and remainder.\<close>

record openssl_bn =
  BN_bin2bn :: "u8 list \<Rightarrow> nat"
  BN_bn2lebinpad :: "nat \<Rightarrow> nat \<Rightarrow> u8 list \<Rightarrow> u8 list"
  BN_num_bytes :: "nat \<Rightarrow> nat"
  BN_mul :: "nat \<Rightarrow> nat \<Rightarrow> nat"
  BN_div :: "nat \<Rightarrow> nat \<Rightarrow> nat \<times> nat"

definition text_bytes :: "nat \<Rightarrow> string \<Rightarrow> u8 list" where
  "text_bytes k s = map (\<lambda>c. word_of_nat (of_char c)) s @ replicate (k - length s) 0"

section \<open>Measurement\<close>

record Ecreate =
  ec_cmd :: "u8 list"
  ec_fst :: nat
  ec_size :: nat

record Eadd =
  ea_cmd :: "u8 list"
  ea_offset :: nat
  ea_flags :: "64 word"

definition Ecreate_bytes :: "Ecreate \<Rightarrow> u8 list" where
  "Ecreate_bytes e = ec_cmd e @ le_bytes 4 (ec_fst e) @ le_bytes 8 (ec_size e) @ replicate 44 0"

definition Eadd_bytes :: "Eadd \<Rightarrow> u8 list" where
  "Eadd_bytes e = ea_cmd e @ le_bytes 8 (ea_offset e) @ le_bytes 8 (unat (ea_flags e)) @ replicate 40 0"

record siggen =
  sha_input :: "u8 list"
  digest :: "u8 list"
  publicKey :: string
  privateKey :: string

definition SigstructGenerator :: "(string \<Rightarrow> string option) \<Rightarrow> u8 list \<Rightarrow> siggen result" where
  "SigstructGenerator file junk =
     (let read = (\<lambda>f. case file f of None \<Rightarrow> [] | Some s \<Rightarrow> s);
          pub = read ''publickey''; pri = read ''privatekey''
      in if pri \<noteq> [] \<and> pub \<noteq> [] then Inr \<lparr>sha_input = [], digest = junk, publicKey = pub, privateKey = pri\<rparr>
         else Inl Abort)"

definition doEcreate :: "nat \<Rightarrow> nat \<Rightarrow> siggen \<Rightarrow> siggen" where
  "doEcreate sz nframes g =
     g\<lparr>sha_input := sha_input g @ Ecreate_bytes \<lparr>ec_cmd = text_bytes 8 ''ECREATE'', ec_fst = nframes, ec_size = sz\<rparr>\<rparr>"

definition doEadd :: "nat \<Rightarrow> sec_info_t \<Rightarrow> siggen \<Rightarrow> siggen" where
  "doEadd offset sec_info g =
     g\<lparr>sha_input := sha_input g @ Eadd_bytes \<lparr>ea_cmd = text_bytes 8 ''EADD'', ea_offset = offset, ea_flags = si_flags sec_info\<rparr>\<rparr>"

definition digestFinal :: "(u8 list \<Rightarrow> u8 list) \<Rightarrow> siggen \<Rightarrow> siggen" where
  "digestFinal sha g = g\<lparr>digest := sha (sha_input g)\<rparr>"

section \<open>Signature structure\<close>

definition MASK_INIT_VALUE :: nat where
  "MASK_INIT_VALUE = 0xffffffffffffffff"

text \<open>Year since 1900, month from 0 and day, as \<open>localtime\<close> gives them.\<close>

definition sign_date :: "nat \<Rightarrow> nat \<Rightarrow> nat \<Rightarrow> nat" where
  "sign_date tm_year tm_mon tm_mday =
     (let year = (1900 + tm_year) mod 2 ^ 16; month = (1 + tm_mon) mod 256; day = tm_mday mod 256
      in (((year * 256 + month) mod 2 ^ 32) * 256 + day) mod 2 ^ 32)"

definition fill_header :: "nat \<Rightarrow> secs_t \<Rightarrow> u8 list \<Rightarrow> sigstruct \<Rightarrow> sigstruct" where
  "fill_header ymd scs m st =
     st\<lparr>header11 := 0x000000e100000006, header12 := 0x0000000000010000, vendor := 0, date := ymd,
        header21 := 0x0000006000000101, header22 := 0x0000000100000060, swdefined := 0,
        miscselect := secs_miscselect scs, micsmask := 0, sig_reserved2 := 0, isvfamilyid1 := 0, isvfamilyid2 := 0,
        attributes1 := secs_attributes scs, attributes2 := xfrm scs,
        attributemask1 := MASK_INIT_VALUE, attributemask2 := MASK_INIT_VALUE, enclavehash := take 32 m,
        isvextprodid1 := 0, isvextprodid2 := 0, isvprodid := secs_isvprodid scs, isvsvn := secs_isvsvn scs\<rparr>"

definition sign_buffer :: "sigstruct \<Rightarrow> u8 list" where
  "sign_buffer st =
     le_bytes 8 (header11 st) @ le_bytes 8 (header12 st) @ le_bytes 4 (vendor st) @ le_bytes 4 (date st) @
     le_bytes 8 (header21 st) @ le_bytes 8 (header22 st) @ le_bytes 4 (swdefined st) @ replicate 84 0 @
     le_bytes 4 (miscselect st) @ le_bytes 4 (micsmask st) @ le_bytes 4 (sig_reserved2 st) @
     le_bytes 8 (isvfamilyid1 st) @ le_bytes 8 (isvfamilyid2 st) @
     le_bytes 8 (unat (attributes1 st)) @ le_bytes 8 (attributes2 st) @
     le_bytes 8 (attributemask1 st) @ le_bytes 8 (attributemask2 st) @ enclavehash st @ replicate 16 0 @
     le_bytes 8 (isvextprodid1 st) @ le_bytes 8 (isvextprodid2 st) @ le_bytes 2 (isvprodid st) @ le_bytes 2 (isvsvn st)"

text \<open>The quotients, as the code computes them.\<close>

definition sig_q1 :: "openssl_bn \<Rightarrow> nat \<Rightarrow> nat \<Rightarrow> nat" where
  "sig_q1 bn s n = fst (BN_div bn (BN_mul bn s s) n)"

definition sig_q2 :: "openssl_bn \<Rightarrow> nat \<Rightarrow> nat \<Rightarrow> nat" where
  "sig_q2 bn s n = fst (BN_div bn (BN_mul bn (snd (BN_div bn (BN_mul bn s s) n)) s) n)"

definition getSigstruct ::
  "openssl_bn \<Rightarrow> (u8 list \<Rightarrow> u8 list) \<Rightarrow> nat \<Rightarrow> nat \<Rightarrow> secs_t \<Rightarrow> u8 list \<Rightarrow> sigstruct \<Rightarrow> siggen \<Rightarrow> sigstruct result" where
  "getSigstruct bn sign n ymd scs junk st g =
     (let st1 = fill_header ymd scs (digest g) st;
          sig_bytes = sign (sign_buffer st1)
      in if length sig_bytes \<noteq> 384 then Inl Abort
         else
           let s = BN_bin2bn bn sig_bytes in
           if BN_num_bytes bn n \<noteq> 384 then Inl Abort
           else if BN_num_bytes bn s \<noteq> 384 then Inl Abort
           else Inr (st1\<lparr>modulus := BN_bn2lebinpad bn n 384 junk, exponent := 3, signature := BN_bn2lebinpad bn s 384 junk,
                         q1 := BN_bn2lebinpad bn (sig_q1 bn s n) 384 junk, q2 := BN_bn2lebinpad bn (sig_q2 bn s n) 384 junk\<rparr>))"

section \<open>Launch token\<close>

text \<open>
  The socket of the launch service: \<open>wr\<close> and \<open>rd\<close> are \<open>write\<close> and \<open>read\<close>, with the number of bytes
  that they report, or a negative number. \<open>rd\<close> also gives the bytes.
\<close>

partial_function (option) send_loop ::
  "(u8 list \<Rightarrow> 'k \<Rightarrow> int \<times> 'k) \<Rightarrow> u8 list \<Rightarrow> 'k \<Rightarrow> 'k result option" where
  "send_loop wr buf k =
     (if buf = [] then Some (Inr k)
      else
        let (nbytes, k1) = wr buf k in
        if nbytes \<le> 0 then Some (Inl Exit_Minus1) else send_loop wr (drop (nat nbytes) buf) k1)"

partial_function (option) recv_loop ::
  "(nat \<Rightarrow> 'k \<Rightarrow> int \<times> u8 list \<times> 'k) \<Rightarrow> nat \<Rightarrow> u8 list \<Rightarrow> 'k \<Rightarrow> (u8 list \<times> 'k) result option" where
  "recv_loop rd recvLen buf k =
     (if length buf < recvLen
      then
        let (nbytes, bs, k1) = rd (recvLen - length buf) k in
        if nbytes < 0 then Some (Inl Exit_Minus1) else recv_loop rd recvLen (buf @ take (nat nbytes) bs) k1
      else Some (Inr (buf, k)))"

text \<open>
  \<open>ser\<close> serialises the request from the hash, the signer and the attributes; \<open>par\<close> parses the answer to
  an error code and a token.
\<close>

definition getToken ::
  "(u8 list \<Rightarrow> 'k \<Rightarrow> int \<times> 'k) \<Rightarrow> (nat \<Rightarrow> 'k \<Rightarrow> int \<times> u8 list \<times> 'k) \<Rightarrow> (u8 list \<Rightarrow> u8 list \<Rightarrow> u8 list \<Rightarrow> u8 list) \<Rightarrow>
   (u8 list \<Rightarrow> nat \<times> u8 list) \<Rightarrow> sigstruct \<Rightarrow> 'k \<Rightarrow> (u8 list \<times> 'k) result option" where
  "getToken wr rd ser par st k =
     (let sendBuf = ser (enclavehash st) (modulus st) (le_bytes 8 (unat (attributes1 st)) @ le_bytes 8 (attributes2 st));
          (m, k1) = wr (le_bytes 4 (length sendBuf)) k
      in if m \<noteq> 4 then Some (Inl Exit_Minus1)
         else
           lbind (send_loop wr sendBuf k1) (\<lambda>k2.
           let (m2, bs, k3) = rd 4 k2 in
           if m2 \<noteq> 4 then Some (Inl Exit_Minus1)
           else
             lbind (recv_loop rd (le_num (take 4 bs)) [] k3) (\<lambda>(recvBuf, k4).
             let (err, token) = par recvBuf in
             if err \<noteq> 0 then Some (Inl Exit_Minus1) else Some (Inr (token, k4)))))"

section \<open>Properties\<close>

text \<open>
  What OpenSSL documents: \<open>BN_bin2bn\<close> reads big-endian bytes, \<open>BN_bn2lebinpad\<close> writes little-endian bytes and fails
  for a number that is too long (the buffer then keeps what it held), \<open>BN_num_bytes\<close> is the number of
  bytes without leading zeros, and the arithmetic is exact.
\<close>

definition bn_documented :: "openssl_bn \<Rightarrow> bool" where
  "bn_documented bn \<longleftrightarrow>
     (\<forall>bs. BN_bin2bn bn bs = le_num (rev bs)) \<and>
     (\<forall>v k buf. v < 256 ^ k \<longrightarrow> BN_bn2lebinpad bn v k buf = le_bytes k v) \<and>
     (\<forall>v k. 256 ^ k \<le> v \<and> v < 256 ^ Suc k \<longrightarrow> BN_num_bytes bn v = Suc k) \<and>
     (\<forall>x y. BN_mul bn x y = x * y) \<and> (\<forall>x y. 0 < y \<longrightarrow> BN_div bn x y = (x div y, x mod y))"

lemma length_le_bytes [simp]: "length (le_bytes k v) = k"
  by (induction k arbitrary: v) auto

lemma le_num_le_bytes: "v < 256 ^ k \<Longrightarrow> le_num (le_bytes k v) = v"
proof (induction k arbitrary: v)
  case 0 then show ?case by simp
next
  case (Suc k)
  then have "v div 256 < 256 ^ k" by (simp add: less_mult_imp_div_less mult.commute)
  then show ?case using Suc.IH by (simp add: unat_of_nat)
qed

lemma pad_small: "bn_documented bn \<Longrightarrow> v < 256 ^ k \<Longrightarrow> BN_bn2lebinpad bn v k buf = le_bytes k v"
  unfolding bn_documented_def by blast

lemma le_num_bound: "le_num bs < 256 ^ length bs"
proof (induction bs)
  case Nil then show ?case by simp
next
  case (Cons b bs)
  have "unat b < 256" using unsigned_less [of b, where ?'a = nat] by simp
  then show ?case using Cons.IH by simp
qed

lemma measurement_lengths:
  "length (sha_input (doEcreate sz f g)) = length (sha_input g) + 64"
  "length (sha_input (doEadd off si g)) = length (sha_input g) + 64"
  by (simp_all add: doEcreate_def doEadd_def Ecreate_bytes_def Eadd_bytes_def text_bytes_def)

lemma sign_buffer_length: "length (enclavehash st) = 32 \<Longrightarrow> length (sign_buffer st) = 256"
  by (simp add: sign_buffer_def)

definition quot1 :: "nat \<Rightarrow> nat \<Rightarrow> nat" where
  "quot1 s n = (s * s) div n"

definition quot2 :: "nat \<Rightarrow> nat \<Rightarrow> nat" where
  "quot2 s n = ((s * s) mod n * s) div n"

lemma sig_quotients_documented:
  assumes "bn_documented bn" "0 < n"
  shows "sig_q1 bn s n = quot1 s n" "sig_q2 bn s n = quot2 s n"
  using assms by (simp_all add: sig_q1_def sig_q2_def quot1_def quot2_def bn_documented_def)

lemma sig_q2_reference:
  assumes "0 < n"
  shows "quot2 s n = (s ^ 3 - quot1 s n * s * n) div n"
proof -
  have "s * s = quot1 s n * n + (s * s) mod n" by (simp add: quot1_def)
  then have "s ^ 3 = (quot1 s n * n + (s * s) mod n) * s" by (simp add: power3_eq_cube)
  then have "s ^ 3 = quot1 s n * s * n + (s * s) mod n * s" by (simp add: algebra_simps)
  then have "s ^ 3 - quot1 s n * s * n = (s * s) mod n * s" by simp
  then show ?thesis by (simp add: quot2_def)
qed

lemma sig_quotients_verify:
  assumes "0 < n"
  shows "s ^ 3 = quot1 s n * s * n + quot2 s n * n + s ^ 3 mod n"
proof -
  have 1: "s * s = quot1 s n * n + (s * s) mod n" by (simp add: quot1_def)
  have 2: "(s * s) mod n * s = quot2 s n * n + ((s * s) mod n * s) mod n" by (simp add: quot2_def)
  have 3: "((s * s) mod n * s) mod n = s ^ 3 mod n" by (simp add: mod_mult_left_eq power3_eq_cube)
  have "s ^ 3 = (quot1 s n * n + (s * s) mod n) * s" using 1 by (simp add: power3_eq_cube)
  also have "\<dots> = quot1 s n * s * n + (s * s) mod n * s" by (simp add: algebra_simps)
  finally show ?thesis using 2 3 by linarith
qed

lemma sig_quotients_fit:
  assumes "s < n"
  shows "quot1 s n < n" "quot2 s n < n"
proof -
  have "s * s < n * n" using assms by (simp add: mult_strict_mono)
  then show "quot1 s n < n" by (simp add: quot1_def less_mult_imp_div_less)
  have "(s * s) mod n * s < n * n" using assms by (intro mult_strict_mono) auto
  then show "quot2 s n < n" by (simp add: quot2_def less_mult_imp_div_less)
qed

text \<open>
  C20. The quotients that the signature structure carries are those of the reference definition: with the
  signature \<open>s\<close> below the modulus \<open>n\<close>, \<open>q1\<close> is the quotient of \<open>s^2\<close> by \<open>n\<close> and \<open>q2\<close> that of
  \<open>s^3 - q1 s n\<close> by \<open>n\<close>, though the code works with the remainder of the square; both fit in their 384
  bytes, and \<open>s^3 - q1 s n - q2 n\<close> is the remainder that the check of a signature with exponent 3 needs.
\<close>

theorem getSigstruct_quotients:
  assumes bn: "bn_documented bn" and "getSigstruct bn sign n ymd scs junk st g = Inr st'" "BN_bin2bn bn (sign (sign_buffer (fill_header ymd scs (digest g) st))) < n"
    and "n < 256 ^ 384"
  shows "le_num (modulus st') = n \<and> exponent st' = 3 \<and>
    (let s = le_num (signature st') in
     s = BN_bin2bn bn (sign (sign_buffer (fill_header ymd scs (digest g) st))) \<and>
     le_num (q1 st') = s\<^sup>2 div n \<and> le_num (q2 st') = (s ^ 3 - le_num (q1 st') * s * n) div n \<and>
     s ^ 3 - le_num (q1 st') * s * n - le_num (q2 st') * n = s ^ 3 mod n)"
proof -
  define s where "s = BN_bin2bn bn (sign (sign_buffer (fill_header ymd scs (digest g) st)))"
  have sn: "s < n" using assms(3) by (simp add: s_def)
  note fit = sig_quotients_fit [OF sn]
  have q: "quot1 s n < 256 ^ 384" "quot2 s n < 256 ^ 384" "s < 256 ^ 384"
    using fit sn assms(4) by (blast intro: less_trans)+
  have "st' = (fill_header ymd scs (digest g) st)\<lparr>modulus := BN_bn2lebinpad bn n 384 junk, exponent := 3,
      signature := BN_bn2lebinpad bn s 384 junk, q1 := BN_bn2lebinpad bn (quot1 s n) 384 junk, q2 := BN_bn2lebinpad bn (quot2 s n) 384 junk\<rparr>"
    using assms(2) sig_quotients_documented [OF bn, of n s] sn
    by (simp add: getSigstruct_def Let_def s_def split: if_splits)
  then have "st' = (fill_header ymd scs (digest g) st)\<lparr>modulus := le_bytes 384 n, exponent := 3, signature := le_bytes 384 s,
      q1 := le_bytes 384 (quot1 s n), q2 := le_bytes 384 (quot2 s n)\<rparr>"
    unfolding pad_small [OF bn assms(4)] pad_small [OF bn q(1)] pad_small [OF bn q(2)] pad_small [OF bn q(3)] .
  then have f: "modulus st' = le_bytes 384 n" "exponent st' = 3" "signature st' = le_bytes 384 s"
      "q1 st' = le_bytes 384 (quot1 s n)" "q2 st' = le_bytes 384 (quot2 s n)"
    by simp_all
  have v: "s ^ 3 - quot1 s n * s * n - quot2 s n * n = s ^ 3 mod n"
    using sig_quotients_verify [of n s] sn by linarith
  have r: "quot2 s n = (s ^ 3 - quot1 s n * s * n) div n" using sig_q2_reference [of n s] sn by simp
  have s2: "quot1 s n = s\<^sup>2 div n" by (simp add: quot1_def power2_eq_square)
  show ?thesis
    unfolding f le_num_le_bytes [OF assms(4)] le_num_le_bytes [OF q(1)] le_num_le_bytes [OF q(2)] le_num_le_bytes [OF q(3)] Let_def
    using v r s2 by (simp add: s_def)
qed

lemma le_num_append: "le_num (xs @ ys) = le_num xs + 256 ^ length xs * le_num ys"
  by (induction xs) (auto simp: algebra_simps)

lemma le_num_zeros: "le_num (replicate k 0) = 0"
  by (induction k) auto

text \<open>A signature of one power of two under twice that power as the modulus.\<close>

definition demo_secs :: secs_t where
  "demo_secs = \<lparr>secs_size = 4096, secs_base = 0, ssaframesize = 1, secs_miscselect = 0, secs_attributes = 4, xfrm = 3,
     secs_mrenclave = [], secs_mrsigner = [], secs_isvprodid = 0, secs_isvsvn = 0\<rparr>"

definition demo_siggen :: siggen where
  "demo_siggen = \<lparr>sha_input = [], digest = replicate 32 0, publicKey = ''k'', privateKey = ''k''\<rparr>"

definition demo_sigstruct :: sigstruct where
  "demo_sigstruct =
     \<lparr>header11 = 0, header12 = 0, vendor = 0, date = 0, header21 = 0, header22 = 0, swdefined = 0, modulus = [], exponent = 0,
      signature = [], miscselect = 0, micsmask = 0, sig_reserved2 = 0, isvfamilyid1 = 0, isvfamilyid2 = 0, attributes1 = 0,
      attributes2 = 0, attributemask1 = 0, attributemask2 = 0, enclavehash = [], isvextprodid1 = 0, isvextprodid2 = 0,
      isvprodid = 0, isvsvn = 0, q1 = [], q2 = []\<rparr>"

fun num_bytes :: "nat \<Rightarrow> nat" where
  "num_bytes v = (if v = 0 then 0 else Suc (num_bytes (v div 256)))"

declare num_bytes.simps [simp del]

lemma num_bytes_eq: "256 ^ k \<le> v \<Longrightarrow> v < 256 ^ Suc k \<Longrightarrow> num_bytes v = Suc k"
proof (induction k arbitrary: v)
  case 0
  then show ?case using num_bytes.simps [of v] num_bytes.simps [of 0] by simp
next
  case (Suc k)
  have "256 ^ k \<le> v div 256" "v div 256 < 256 ^ Suc k"
    using Suc.prems div_le_mono [of "256 ^ Suc k" v 256] by (simp_all add: less_mult_imp_div_less mult.commute)
  moreover have "v \<noteq> 0" using Suc.prems(1) by (metis le_zero_eq power_not_zero zero_neq_numeral)
  ultimately show ?case using Suc.IH [of "v div 256"] num_bytes.simps [of v] by simp
qed

definition demo_bn :: openssl_bn where
  "demo_bn = \<lparr>BN_bin2bn = \<lambda>bs. le_num (rev bs), BN_bn2lebinpad = \<lambda>v k buf. if v < 256 ^ k then le_bytes k v else buf,
     BN_num_bytes = num_bytes, BN_mul = \<lambda>x y. x * y, BN_div = \<lambda>x y. (x div y, x mod y)\<rparr>"

lemma demo_bn_documented: "bn_documented demo_bn"
  by (simp add: bn_documented_def demo_bn_def num_bytes_eq)

lemma demo_numbers:
  "BN_bin2bn demo_bn (1 # replicate k 0) = 256 ^ k" "BN_num_bytes demo_bn (256 ^ k) = Suc k" "BN_num_bytes demo_bn (2 * 256 ^ k) = Suc k"
  "2 * 256 ^ k < (256 :: nat) ^ Suc k" "(256 :: nat) ^ k < 2 * 256 ^ k"
  by (simp_all add: demo_bn_def le_num_append le_num_zeros num_bytes_eq)

theorem getSigstruct_quotients_witness:
  "\<exists>st'. getSigstruct demo_bn (\<lambda>_. 1 # replicate 383 0) (2 * 256 ^ 383) 0 demo_secs [] demo_sigstruct demo_siggen = Inr st' \<and>
     le_num (modulus st') = 2 * 256 ^ 383 \<and> exponent st' = 3"
proof -
  have e: "Suc 383 = 384" by simp
  define B :: nat where "B = 256 ^ 383"
  note d = demo_numbers [where k = 383, folded B_def, unfolded e]
  obtain st' where st': "getSigstruct demo_bn (\<lambda>_. 1 # replicate 383 0) (2 * B) 0 demo_secs [] demo_sigstruct demo_siggen = Inr st'"
    using d(1-3) by (simp add: getSigstruct_def)
  then show ?thesis
    using getSigstruct_quotients [OF demo_bn_documented st' _ d(4)] d(1,5) unfolding B_def [symmetric] by auto
qed

end
