(* ===== verification/Enclave_Manager.thy ===== *)
theory Enclave_Manager
  imports Signature Enclave_Thread
begin

unbundle bit_operations_syntax

text \<open>
  The address space of the enclave (\<open>loader/enclave_manager.cpp\<close>). The mappings are a map from addresses
  to lengths, kept here as its sequence of entries in key order. The driver is a parameter: \<open>drv\<close> says for
  each call whether it succeeds, and its answer to a request to add a page may depend on the pages that it was given
  before. Each page that is added is also measured.
\<close>

section \<open>State\<close>

definition SSA_FRAMESIZE_PAGE :: nat where
  "SSA_FRAMESIZE_PAGE = 4"

definition NUM_SSA :: nat where
  "NUM_SSA = 4"

record enclave_manager =
  enclaveBase :: nat
  enclaveMemoryLen :: nat
  mappings :: "(nat \<times> nat) list"
  siggen_state :: siggen
  secs :: secs_t
  added :: "(nat \<times> nat \<times> 64 word) list"

text \<open>\<open>added\<close> records the pages given to the driver: address, source and flags. The driver sees this record with
  each new request.\<close>

record driver =
  drv_create :: "secs_t \<Rightarrow> int"
  drv_add :: "(nat \<times> nat \<times> 64 word) list \<Rightarrow> nat \<Rightarrow> nat \<Rightarrow> 64 word \<Rightarrow> int"
  drv_init :: "nat \<Rightarrow> sigstruct \<Rightarrow> u8 list \<Rightarrow> int"

section \<open>Creating the enclave\<close>

text \<open>The shift drops the top bit: for a length above \<open>2 ^ 63\<close> the loop never ends.\<close>

partial_function (option) memory_len :: "nat \<Rightarrow> nat \<Rightarrow> nat option" where
  "memory_len len n = (if n < len then memory_len len (n * 2 mod 2 ^ 64) else Some n)"

definition EnclaveManager ::
  "driver \<Rightarrow> (nat \<Rightarrow> nat \<Rightarrow> nat) \<Rightarrow> nat \<Rightarrow> nat \<Rightarrow> siggen \<Rightarrow> enclave_manager result option" where
  "EnclaveManager drv mmap base len g =
     (case memory_len len 1 of
        None \<Rightarrow> None
      | Some n \<Rightarrow>
          let b = mmap base n in
          if b = MAP_FAILED then Some (Inl Exit_Minus1)
          else
            let sc = \<lparr>secs_size = n, secs_base = b, ssaframesize = SSA_FRAMESIZE_PAGE, secs_miscselect = 0,
                      secs_attributes = SGX_FLAGS_MODE64BIT OR SGX_FLAGS_DEBUG, xfrm = 3, secs_mrenclave = replicate 8 0,
                      secs_mrsigner = replicate 8 0, secs_isvprodid = 0, secs_isvsvn = 0\<rparr>
            in if drv_create drv sc \<noteq> 0 then Some (Inl Exit_Minus1)
               else Some (Inr \<lparr>enclaveBase = b, enclaveMemoryLen = n, mappings = [],
                               siggen_state = doEcreate n SSA_FRAMESIZE_PAGE g, secs = sc, added = []\<rparr>))"

section \<open>Adding pages\<close>

text \<open>\<open>std::map\<close>: the entry after a key, the entry before that one, and assignment.\<close>

definition upper_bound :: "nat \<Rightarrow> (nat \<times> nat) list \<Rightarrow> (nat \<times> nat) option" where
  "upper_bound k m = find (\<lambda>e. k < fst e) m"

definition lower_entry :: "nat \<Rightarrow> (nat \<times> nat) list \<Rightarrow> (nat \<times> nat) option" where
  "lower_entry k m = (let l = takeWhile (\<lambda>e. \<not> k < fst e) m in if l = [] then None else Some (last l))"

fun map_assign :: "nat \<Rightarrow> nat \<Rightarrow> (nat \<times> nat) list \<Rightarrow> (nat \<times> nat) list" where
  "map_assign k v [] = [(k, v)]"
| "map_assign k v ((k', v') # m) =
     (if k < k' then (k, v) # (k', v') # m else if k = k' then (k, v) # m else (k', v') # map_assign k v m)"

definition page_flags :: "bool \<Rightarrow> bool \<Rightarrow> bool \<Rightarrow> 64 word" where
  "page_flags writable executable isTCS =
     (let f = ENCLAVE_PAGE_READ OR (if writable then ENCLAVE_PAGE_WRITE else 0) OR
              (if executable then ENCLAVE_PAGE_EXECUTE else 0) OR
              (if isTCS then ENCLAVE_PAGE_THREAD_CONTROL else SI_FLAG_REG)
      in if isTCS then f AND NOT ENCLAVE_PAGE_READ AND NOT ENCLAVE_PAGE_WRITE AND NOT ENCLAVE_PAGE_EXECUTE else f)"

fun add_loop :: "driver \<Rightarrow> 64 word \<Rightarrow> nat \<Rightarrow> nat \<Rightarrow> nat list \<Rightarrow> enclave_manager \<Rightarrow> enclave_manager result" where
  "add_loop drv flags dest src [] em = Inr em"
| "add_loop drv flags dest src (i # is) em =
     (let a = add64 dest (mul64 SGX_PAGE_SIZE i); s = add64 src (mul64 SGX_PAGE_SIZE i) in
      if drv_add drv (added em) a s flags \<noteq> 0 then Inl Exit_Minus1
      else add_loop drv flags dest src is
             (em\<lparr>added := added em @ [(a, s, flags)],
                 siggen_state := doEadd (sub64 a (enclaveBase em)) \<lparr>si_flags = flags\<rparr> (siggen_state em)\<rparr>))"

definition page_len :: "nat \<Rightarrow> nat" where
  "page_len len = page_mask (add64 len 4095)"

definition addPages_full ::
  "driver \<Rightarrow> nat \<Rightarrow> nat \<Rightarrow> nat \<Rightarrow> bool \<Rightarrow> bool \<Rightarrow> bool \<Rightarrow> enclave_manager \<Rightarrow> enclave_manager result" where
  "addPages_full drv dest src len0 writable executable isTCS em =
     (let len = page_len len0 in
      if dest < enclaveBase em \<or> add64 dest len > add64 (enclaveBase em) (enclaveMemoryLen em) then Inl Exit_Minus1
      else if (case upper_bound dest (mappings em) of None \<Rightarrow> False | Some it \<Rightarrow> add64 dest len > fst it)
            \<or> (case lower_entry dest (mappings em) of None \<Rightarrow> False | Some prev \<Rightarrow> add64 (fst prev) (snd prev) > dest)
      then Inl Exit_Minus1
      else rbind (add_loop drv (page_flags writable executable isTCS) dest src [0..<len div 4096] em) (\<lambda>em1.
             Inr (em1\<lparr>mappings := map_assign dest len (mappings em1)\<rparr>)))"

definition addPages :: "driver \<Rightarrow> nat \<Rightarrow> nat \<Rightarrow> nat \<Rightarrow> enclave_manager \<Rightarrow> enclave_manager result" where
  "addPages drv dest src len = addPages_full drv dest src len True True False"

section \<open>Finding room\<close>

fun alloc_loop :: "nat \<Rightarrow> nat \<Rightarrow> (nat \<times> nat) list \<Rightarrow> nat + nat" where
  "alloc_loop len prev [] = Inr prev"
| "alloc_loop len prev ((a, l) # m) = (if sub64 a prev > len then Inl prev else alloc_loop len (add64 a l) m)"

definition allocate :: "nat \<Rightarrow> enclave_manager \<Rightarrow> nat result" where
  "allocate len em =
     (if mappings em = [] then Inr (enclaveBase em)
      else case alloc_loop len (enclaveBase em) (mappings em) of
             Inl prev \<Rightarrow> Inr prev
           | Inr prev \<Rightarrow>
               if sub64 (add64 (enclaveBase em) (enclaveMemoryLen em)) prev < len then Inl Exit_Minus1 else Inr prev)"

section \<open>Threads and the heap\<close>

definition enclave_offset :: "nat \<Rightarrow> enclave_manager \<Rightarrow> nat" where
  "enclave_offset a em = sub64 a (enclaveBase em)"

definition stack_start :: "nat \<Rightarrow> nat" where
  "stack_start a = add64 a SGX_PAGE_SIZE"

definition stack_len :: nat where
  "stack_len = (THREAD_STACK_NUM + 2) * SGX_PAGE_SIZE"

definition ssa_len :: "enclave_manager \<Rightarrow> nat" where
  "ssa_len em = ssaframesize (secs em) * NUM_SSA * SGX_PAGE_SIZE + SGX_PAGE_SIZE"

definition make_tcs :: "nat \<Rightarrow> nat \<Rightarrow> nat \<Rightarrow> enclave_manager \<Rightarrow> tcs_t" where
  "make_tcs ssa_enclave tls_enclave entry_addr em =
     \<lparr>tcs_state = 0, tcs_flags = 0, ossa = enclave_offset ssa_enclave em, cssa = 0, nssa = NUM_SSA,
      oentry = enclave_offset entry_addr em, aep = 0, ofsbase = enclave_offset tls_enclave em,
      ogsbase = enclave_offset tls_enclave em, fslimit = 0xfff, gslimit = 0xfff\<rparr>"

definition make_tls :: "nat \<Rightarrow> nat \<Rightarrow> nat \<Rightarrow> nat \<Rightarrow> enclave_manager \<Rightarrow> enclave_tls" where
  "make_tls tcs_enclave ssa_enclave stack_enclave shared em =
     \<lparr>enclave_base = 0, enclave_size = enclaveMemoryLen em, tcs_offset = enclave_offset tcs_enclave em,
      initial_stack_offset = enclave_offset (stack_start stack_enclave) em, libOS_data = shared, tls_ssa = ssa_enclave,
      tls_stack = stack_start stack_enclave, preempt_rip = 0\<rparr>"

text \<open>
  What \<open>createThread\<close> lays out. \<open>stack_mem\<close>, \<open>joint_mem\<close> and \<open>zero\<close> are memory of the loader, and
  \<open>shared\<close> is the address of the thread's shared structure. The thread object itself is made by
  \<open>new_EnclaveThread\<close> from the top of the stack and the TCS.
\<close>

record thread_layout =
  lay_tcs :: nat
  lay_stack_high :: nat
  lay_tcs_page :: tcs_t
  lay_tls_page :: enclave_tls
  lay_injection :: nat

definition createThread ::
  "driver \<Rightarrow> nat \<Rightarrow> nat \<Rightarrow> nat \<Rightarrow> nat \<Rightarrow> nat \<Rightarrow> enclave_manager \<Rightarrow> (thread_layout \<times> enclave_manager) result" where
  "createThread drv stack_mem joint_mem zero shared entry_addr em =
     (let ssal = ssa_len em; tcs_len = SGX_PAGE_SIZE; tls_len = SGX_PAGE_SIZE in
      if stack_mem = MAP_FAILED \<or> joint_mem = MAP_FAILED then Inl Exit_Minus1
      else
        rbind (allocate stack_len em) (\<lambda>stack_enclave.
        rbind (addPages drv stack_enclave stack_mem stack_len em) (\<lambda>em1.
        rbind (allocate (tcs_len + ssal + tls_len) em1) (\<lambda>joint.
        let tcs_enclave = joint; ssa_enclave = add64 joint tcs_len; tls_enclave = add64 ssa_enclave ssal;
            ssa_mem = add64 joint_mem tcs_len;
            stack_high = add64 (stack_start stack_enclave) (THREAD_STACK_NUM * SGX_PAGE_SIZE) in
        rbind (addPages_full drv tcs_enclave joint_mem tcs_len True True True em1) (\<lambda>em2.
        rbind (addPages drv ssa_enclave ssa_mem (ssal + tls_len) em2) (\<lambda>em3.
        rbind (allocate 4096 em3) (\<lambda>inj.
        rbind (addPages drv inj zero 4096 em3) (\<lambda>em4.
          Inr (\<lparr>lay_tcs = tcs_enclave, lay_stack_high = stack_high,
                lay_tcs_page = make_tcs ssa_enclave tls_enclave entry_addr em,
                lay_tls_page = make_tls tcs_enclave ssa_enclave stack_enclave shared em, lay_injection = inj\<rparr>, em4)))))))))"

fun heap_loop :: "driver \<Rightarrow> nat \<Rightarrow> nat \<Rightarrow> nat list \<Rightarrow> enclave_manager \<Rightarrow> enclave_manager result" where
  "heap_loop drv zero hbase [] em = Inr em"
| "heap_loop drv zero hbase (off # offs) em =
     rbind (addPages drv (add64 hbase off) zero 4096 em) (heap_loop drv zero hbase offs)"

definition makeHeap :: "driver \<Rightarrow> nat \<Rightarrow> nat \<Rightarrow> enclave_manager \<Rightarrow> (nat \<times> enclave_manager) result" where
  "makeHeap drv zero len em =
     rbind (allocate len em) (\<lambda>hbase.
     rbind (heap_loop drv zero hbase (map (\<lambda>i. 4096 * i) [0..<(len + 4095) div 4096]) em) (\<lambda>em1. Inr (hbase, em1)))"

text \<open>\<open>token\<close> is what the launch service answers to the signature structure.\<close>

definition prepareLaunch ::
  "driver \<Rightarrow> openssl_bn \<Rightarrow> (u8 list \<Rightarrow> u8 list) \<Rightarrow> (u8 list \<Rightarrow> u8 list) \<Rightarrow> nat \<Rightarrow> nat \<Rightarrow> u8 list \<Rightarrow> sigstruct \<Rightarrow> (sigstruct \<Rightarrow> u8 list result) \<Rightarrow>
   enclave_manager \<Rightarrow> (sigstruct \<times> enclave_manager) result" where
  "prepareLaunch drv bn sha sign n ymd junk st0 token em =
     (let g = digestFinal sha (siggen_state em) in
      rbind (getSigstruct bn sign n ymd (secs em) junk st0 g) (\<lambda>st.
      rbind (token st) (\<lambda>t.
        if drv_init drv (enclaveBase em) st t \<noteq> 0 then Inl Exit_Minus1 else Inr (st, em\<lparr>siggen_state := g\<rparr>))))"

section \<open>The invariant of the address space\<close>

text \<open>The mappings are sorted, disjoint and inside the enclave, and every page that the driver was given lies in one of them.\<close>

fun regions :: "nat \<Rightarrow> nat \<Rightarrow> (nat \<times> nat) list \<Rightarrow> bool" where
  "regions lo hi [] = (lo \<le> hi)"
| "regions lo hi ((a, l) # m) =
     (lo \<le> a \<and> 4096 dvd l \<and> (m = [] \<or> a < fst (hd m)) \<and> regions (a + l) hi m)"

definition em_inv :: "enclave_manager \<Rightarrow> bool" where
  "em_inv em \<longleftrightarrow>
     enclaveBase em + enclaveMemoryLen em < 2 ^ 64 \<and> enclaveMemoryLen em \<le> 2 ^ 63 \<and>
     regions (enclaveBase em) (enclaveBase em + enclaveMemoryLen em) (mappings em) \<and>
     (\<forall>e \<in> set (added em). \<exists>r \<in> set (mappings em). fst r \<le> fst e \<and> fst e < fst r + snd r)"

lemma upper_bound_simps [simp]:
  "upper_bound d [] = None"
  "upper_bound d ((a, l) # m) = (if d < a then Some (a, l) else upper_bound d m)"
  by (simp_all add: upper_bound_def)

lemma lower_entry_simps [simp]:
  "lower_entry d [] = None"
  "lower_entry d ((a, l) # m) =
     (if d < a then None else case lower_entry d m of None \<Rightarrow> Some (a, l) | Some e \<Rightarrow> Some e)"
  by (auto simp: lower_entry_def Let_def)

lemma lower_entry_in: "lower_entry d m = Some e \<Longrightarrow> e \<in> set m"
  unfolding lower_entry_def Let_def by (auto split: if_splits dest!: last_in_set set_takeWhileD)

lemma regions_bounds:
  "regions lo hi m \<Longrightarrow> lo \<le> hi \<and> (\<forall>e \<in> set m. lo \<le> fst e \<and> fst e + snd e \<le> hi)"
  by (induction lo hi m rule: regions.induct) fastforce+

lemma regions_from:
  assumes "regions lo hi m" "m = [] \<Longrightarrow> lo' \<le> hi" "m \<noteq> [] \<Longrightarrow> lo' \<le> fst (hd m)"
  shows "regions lo' hi m"
  using assms by (cases m) auto

lemma map_of_map_assign: "map_of (map_assign k v m) = (map_of m)(k \<mapsto> v)"
  by (induction k v m rule: map_assign.induct) auto

lemma hd_map_assign: "fst (hd (map_assign d l m)) = (if m = [] then d else min d (fst (hd m)))"
  by (cases m) auto

lemma map_assign_ne [simp]: "map_assign d l m \<noteq> []"
  by (cases m) (auto split: if_splits)

text \<open>The two checks of \<open>addPages\<close>: the region ends before the next entry and starts after the previous one.\<close>

definition no_conflict :: "nat \<Rightarrow> nat \<Rightarrow> (nat \<times> nat) list \<Rightarrow> bool" where
  "no_conflict d l m \<longleftrightarrow>
     (case upper_bound d m of None \<Rightarrow> True | Some e \<Rightarrow> d + l \<le> fst e) \<and>
     (case lower_entry d m of None \<Rightarrow> True | Some e \<Rightarrow> fst e + snd e \<le> d)"

lemma no_conflict_Cons:
  "regions lo hi ((a, b) # m) \<Longrightarrow>
     no_conflict d l ((a, b) # m) \<longleftrightarrow> (if d < a then d + l \<le> a else a + b \<le> d \<and> no_conflict d l m)"
  using lower_entry_in [of d m] regions_bounds [of "a + b" hi m]
  by (fastforce simp: no_conflict_def split: option.splits)

lemma no_conflict_free:
  "regions lo hi m \<Longrightarrow> no_conflict d l m \<Longrightarrow> e \<in> set m \<Longrightarrow> fst e + snd e \<le> d \<or> d + l \<le> fst e"
proof (induction lo hi m rule: regions.induct)
  case (2 lo hi a b m)
  show ?case
    using 2 no_conflict_Cons [OF "2.prems"(1), of d l] regions_bounds [of "a + b" hi m]
    by (auto split: if_splits)
qed simp

lemma no_conflict_key:
  "regions lo hi m \<Longrightarrow> no_conflict d l m \<Longrightarrow> (d, n) \<in> set m \<Longrightarrow> n = 0"
proof (induction lo hi m rule: regions.induct)
  case (2 lo hi a b m)
  show ?case
    using 2 no_conflict_Cons [OF "2.prems"(1), of d l] regions_bounds [of "a + b" hi m]
    by (auto split: if_splits)
qed simp

lemma regions_map_assign:
  "regions lo hi m \<Longrightarrow> no_conflict d l m \<Longrightarrow> lo \<le> d \<Longrightarrow> d + l \<le> hi \<Longrightarrow> 4096 dvd l \<Longrightarrow>
   regions lo hi (map_assign d l m)"
proof (induction lo hi m rule: regions.induct)
  case (2 lo hi a b m)
  note nc = no_conflict_Cons [OF "2.prems"(1), of d l]
  consider "d < a" | "d = a" | "a < d" by linarith
  then show ?case
  proof cases
    case 2
    have "regions (a + l) hi m"
    proof (rule regions_from)
      show "regions (a + b) hi m" using "2.prems"(1) by simp
      show "a + l \<le> hi" using "2.prems"(4) 2 by simp
      assume "m \<noteq> []"
      then show "a + l \<le> fst (hd m)"
        using "2.prems"(1,2) nc 2 by (cases m) (auto simp: no_conflict_def split: if_splits)
    qed
    then show ?thesis using "2.prems" 2 by simp
  qed (use 2 nc in \<open>auto simp: hd_map_assign\<close>)
qed simp

section \<open>Adding pages keeps the invariant\<close>

lemma page_len_dvd: "4096 dvd page_len l"
  by (simp add: page_len_def page_mask_def)

lemma page_len_id: "4096 dvd l \<Longrightarrow> l \<le> 2 ^ 63 \<Longrightarrow> page_len l = l"
  unfolding page_len_def page_mask_def by (subst add64_small) auto

abbreviation add_page_of :: "nat \<Rightarrow> nat \<Rightarrow> 64 word \<Rightarrow> nat \<Rightarrow> nat \<times> nat \<times> 64 word" where
  "add_page_of dest src f i \<equiv> (add64 dest (mul64 SGX_PAGE_SIZE i), add64 src (mul64 SGX_PAGE_SIZE i), f)"

definition measure_pages :: "nat \<Rightarrow> nat \<Rightarrow> 64 word \<Rightarrow> nat list \<Rightarrow> siggen \<Rightarrow> siggen" where
  "measure_pages base dest f =
     fold (\<lambda>i. doEadd (sub64 (add64 dest (mul64 SGX_PAGE_SIZE i)) base) \<lparr>si_flags = f\<rparr>)"

text \<open>The driver accepts a sequence of pages, one after the other.\<close>

fun accepts :: "driver \<Rightarrow> (nat \<times> nat \<times> 64 word) list \<Rightarrow> (nat \<times> nat \<times> 64 word) list \<Rightarrow> bool" where
  "accepts drv log [] = True"
| "accepts drv log ((a, s, f) # ps) = (drv_add drv log a s f = 0 \<and> accepts drv (log @ [(a, s, f)]) ps)"

lemma add_loop_eq:
  "add_loop drv f dest src is em =
     (if accepts drv (added em) (map (add_page_of dest src f) is)
      then Inr (em\<lparr>added := added em @ map (add_page_of dest src f) is,
                   siggen_state := measure_pages (enclaveBase em) dest f is (siggen_state em)\<rparr>)
      else Inl Exit_Minus1)"
  by (induction drv f dest src "is" em rule: add_loop.induct) (simp_all add: measure_pages_def Let_def)

lemma sha_input_measure_pages:
  "sha_input (measure_pages base dest f is g) =
     sha_input g @ concat (map (\<lambda>i. Eadd_bytes \<lparr>ea_cmd = text_bytes 8 ''EADD'',
        ea_offset = sub64 (add64 dest (mul64 SGX_PAGE_SIZE i)) base, ea_flags = f\<rparr>) is)"
  by (induction "is" arbitrary: g) (simp_all add: measure_pages_def doEadd_def)

lemma em_inv_space:
  assumes "em_inv em"
  shows "enclaveBase em + enclaveMemoryLen em < 2 ^ 64" "enclaveMemoryLen em \<le> 2 ^ 63"
    "regions (enclaveBase em) (enclaveBase em + enclaveMemoryLen em) (mappings em)"
  using assms by (simp_all add: em_inv_def)

text \<open>What the loader relies on: the driver adds a page whose address it was not given before.\<close>

definition drv_adds :: "driver \<Rightarrow> bool" where
  "drv_adds drv \<longleftrightarrow> (\<forall>log a s f. a \<notin> fst ` set log \<longrightarrow> drv_add drv log a s f = 0)"

lemma drv_adds_accepts: "drv_adds drv \<Longrightarrow> distinct (map fst ps) \<Longrightarrow> fst ` set log \<inter> fst ` set ps = {} \<Longrightarrow> accepts drv log ps"
  by (induction drv log ps rule: accepts.induct) (auto simp: drv_adds_def image_Un)

lemma page_of_small:
  assumes "dest + l < 2 ^ 64" "i < l div 4096"
  shows "fst (add_page_of dest src f i) = dest + 4096 * i"
proof -
  have "4096 * i \<le> l" using assms(2) by simp
  then show ?thesis using assms(1) by (simp add: SGX_PAGE_SIZE_def wrap_simps)
qed

lemma new_pages_accepted:
  assumes "em_inv em" "drv_adds drv" "no_conflict dest l (mappings em)" "dest + l < 2 ^ 64"
  shows "accepts drv (added em) (map (add_page_of dest src f) [0..<l div 4096])"
proof (rule drv_adds_accepts [OF assms(2)])
  have eq: "map fst (map (add_page_of dest src f) [0..<l div 4096]) = map (\<lambda>i. dest + 4096 * i) [0..<l div 4096]"
    using page_of_small [OF assms(4)] by simp
  show "distinct (map fst (map (add_page_of dest src f) [0..<l div 4096]))"
    unfolding eq by (simp add: distinct_map inj_on_def)
  have r: "regions (enclaveBase em) (enclaveBase em + enclaveMemoryLen em) (mappings em)"
    using assms(1) by (simp add: em_inv_def)
  have "a \<noteq> dest + 4096 * i" if i: "i < l div 4096" "a \<in> fst ` set (added em)" for a i
  proof -
    obtain e where e: "e \<in> set (mappings em)" "fst e \<le> a" "a < fst e + snd e"
      using assms(1) i(2) by (auto simp: em_inv_def)
    have "4096 * i < l" using i(1) by simp
    then show ?thesis using no_conflict_free [OF r assms(3) e(1)] e(2,3) by linarith
  qed
  then have "fst ` set (added em) \<inter> (\<lambda>i. dest + 4096 * i) ` {0..<l div 4096} = {}"
    by (force simp del: image_iff)
  then have "set (map fst (added em)) \<inter> set (map fst (map (add_page_of dest src f) [0..<l div 4096])) = {}"
    unfolding eq by simp
  then show "fst ` set (added em) \<inter> fst ` set (map (add_page_of dest src f) [0..<l div 4096]) = {}"
    by (simp only: set_map)
qed

lemma addPages_full_ok:
  assumes "em_inv em" "dest + page_len len < 2 ^ 64" "addPages_full drv dest src len w x t em = Inr em'"
  shows "enclaveBase em \<le> dest" "dest + page_len len \<le> enclaveBase em + enclaveMemoryLen em"
    "no_conflict dest (page_len len) (mappings em)"
    "em' = em\<lparr>added := added em @ map (add_page_of dest src (page_flags w x t)) [0..<page_len len div 4096],
              siggen_state := measure_pages (enclaveBase em) dest (page_flags w x t) [0..<page_len len div 4096]
                                (siggen_state em),
              mappings := map_assign dest (page_len len) (mappings em)\<rparr>"
  using em_inv_space [OF assms(1)] assms(2,3)
  by (auto simp: addPages_full_def Let_def no_conflict_def add64_small add_loop_eq
    split: if_splits option.splits dest!: regions_bounds lower_entry_in)

lemma addPages_full_succeeds:
  assumes "em_inv em" "drv_adds drv" "enclaveBase em \<le> dest"
    "dest + page_len len \<le> enclaveBase em + enclaveMemoryLen em" "no_conflict dest (page_len len) (mappings em)"
  shows "\<exists>em'. addPages_full drv dest src len w x t em = Inr em'"
proof -
  have "dest + page_len len < 2 ^ 64" using assms(1,4) by (simp add: em_inv_def)
  note acc = new_pages_accepted [OF assms(1,2,5) this, of src "page_flags w x t"]
  show ?thesis
    using em_inv_space [OF assms(1)] assms(3-5) acc
    by (fastforce simp: addPages_full_def Let_def no_conflict_def add64_small add_loop_eq
      split: option.splits dest!: regions_bounds lower_entry_in)
qed

lemma map_assign_keeps: "e \<in> set m \<Longrightarrow> fst e \<noteq> k \<Longrightarrow> e \<in> set (map_assign k v m)"
  by (induction k v m rule: map_assign.induct) auto

lemma map_assign_mem: "(k, v) \<in> set (map_assign k v m)"
  by (induction k v m rule: map_assign.induct) auto

lemma added_covered:
  assumes "em_inv em" "no_conflict dest l (mappings em)" "dest + l < 2 ^ 64"
    "e \<in> set (added em @ map (add_page_of dest src f) [0..<l div 4096])"
  shows "\<exists>r \<in> set (map_assign dest l (mappings em)). fst r \<le> fst e \<and> fst e < fst r + snd r"
proof (cases "e \<in> set (added em)")
  case True
  then obtain r where r: "r \<in> set (mappings em)" "fst r \<le> fst e" "fst e < fst r + snd r"
    using assms(1) by (auto simp: em_inv_def)
  have "regions (enclaveBase em) (enclaveBase em + enclaveMemoryLen em) (mappings em)"
    using assms(1) by (simp add: em_inv_def)
  then have "fst r \<noteq> dest"
    using no_conflict_key [OF _ assms(2), of _ _ "snd r"] r by (metis add.right_neutral leD prod.collapse)
  then show ?thesis
    using r map_assign_keeps by blast
next
  case False
  then obtain i where i: "i < l div 4096" "e = add_page_of dest src f i" using assms(4) by auto
  have "4096 * i < l" using i(1) by simp
  then show ?thesis
    using map_assign_mem [of dest l "mappings em"] page_of_small [OF assms(3) i(1), of src f]
    unfolding i(2) by (intro bexI [of _ "(dest, l)"]) (simp_all del: fst_conv, simp)
qed

lemma addPages_full_inv:
  assumes "em_inv em" "dest + page_len len < 2 ^ 64" "addPages_full drv dest src len w x t em = Inr em'"
  shows "em_inv em'" "enclaveBase em' = enclaveBase em" "enclaveMemoryLen em' = enclaveMemoryLen em"
    "map_of (mappings em') = (map_of (mappings em))(dest \<mapsto> page_len len)" "mappings em' \<noteq> []"
    "e \<in> set (mappings em) \<Longrightarrow> fst e + snd e \<le> dest \<or> dest + page_len len \<le> fst e" "secs em' = secs em"
proof -
  note ok = addPages_full_ok [OF assms]
  have reg: "regions (enclaveBase em) (enclaveBase em + enclaveMemoryLen em) (mappings em)"
    using assms(1) by (simp add: em_inv_def)
  note r = regions_map_assign [OF this ok(3,1,2) page_len_dvd] no_conflict_free [OF this ok(3)]
  show "em_inv em'"
    using assms(1) r(1) added_covered [OF assms(1) ok(3) assms(2)] unfolding ok(4) by (simp add: em_inv_def del: set_append set_map)
  show "enclaveBase em' = enclaveBase em" "enclaveMemoryLen em' = enclaveMemoryLen em"
    "map_of (mappings em') = (map_of (mappings em))(dest \<mapsto> page_len len)" "mappings em' \<noteq> []" "secs em' = secs em"
    by (simp_all add: ok(4) map_of_map_assign)
  show "fst e + snd e \<le> dest \<or> dest + page_len len \<le> fst e" if "e \<in> set (mappings em)"
    using r(2) that .
qed

section \<open>What allocate finds\<close>

text \<open>The free regions of the address space, in order; the last one ends with the enclave.\<close>

fun holes :: "nat \<Rightarrow> nat \<Rightarrow> (nat \<times> nat) list \<Rightarrow> (nat \<times> nat) list" where
  "holes lo hi [] = [(lo, hi - lo)]"
| "holes lo hi ((a, l) # m) = (lo, a - lo) # holes (a + l) hi m"

lemma holes_ne [simp]: "holes lo hi m \<noteq> []"
  by (cases m) auto

lemma hole_no_conflict:
  "regions lo hi m \<Longrightarrow> h \<in> set (holes lo hi m) \<Longrightarrow> l \<le> snd h \<Longrightarrow> 0 < l \<Longrightarrow>
   no_conflict (fst h) l m \<and> lo \<le> fst h \<and> fst h + l \<le> hi"
proof (induction lo hi m rule: regions.induct)
  case (2 lo hi a b m)
  note nc = no_conflict_Cons [OF "2.prems"(1), of _ l]
  have r: "regions (a + b) hi m" "lo \<le> a" "a + b \<le> hi"
    using "2.prems"(1) regions_bounds [of "a + b" hi m] by simp_all
  show ?case
  proof (cases "h = (lo, a - lo)")
    case True
    then have "lo < a" "lo + l \<le> a" using r(2) "2.prems"(3,4) by simp_all
    then show ?thesis using True r nc by simp
  next
    case False
    then show ?thesis using r "2.IH" "2.prems"(2-4) nc by auto
  qed
qed (simp add: no_conflict_def)

lemma alloc_loop_eq:
  "regions lo hi m \<Longrightarrow> hi < 2 ^ 64 \<Longrightarrow>
     alloc_loop len lo m =
       (case find (\<lambda>h. len < snd h) (butlast (holes lo hi m)) of
          Some h \<Rightarrow> Inl (fst h) | None \<Rightarrow> Inr (fst (last (holes lo hi m))))"
proof (induction lo hi m rule: regions.induct)
  case (2 lo hi a b m)
  have "regions (a + b) hi m" "lo \<le> a" "a + b \<le> hi"
    using "2.prems"(1) regions_bounds [of "a + b" hi m] by simp_all
  then show ?case using 2 by (simp add: wrap_simps split: option.split)
qed simp

lemma last_hole: "regions lo hi m \<Longrightarrow> snd (last (holes lo hi m)) = hi - fst (last (holes lo hi m)) \<and>
   fst (last (holes lo hi m)) \<le> hi"
  by (induction lo hi m rule: regions.induct) auto

abbreviation em_holes :: "enclave_manager \<Rightarrow> (nat \<times> nat) list" where
  "em_holes em \<equiv> holes (enclaveBase em) (enclaveBase em + enclaveMemoryLen em) (mappings em)"

lemma allocate_eq:
  assumes "em_inv em" "mappings em \<noteq> []"
  shows "allocate len em =
    (case find (\<lambda>h. len < snd h) (butlast (em_holes em)) of
       Some h \<Rightarrow> Inr (fst h)
     | None \<Rightarrow> if snd (last (em_holes em)) < len then Inl Exit_Minus1 else Inr (fst (last (em_holes em))))"
proof -
  have r: "regions (enclaveBase em) (enclaveBase em + enclaveMemoryLen em) (mappings em)"
    "enclaveBase em + enclaveMemoryLen em < 2 ^ 64" using assms(1) by (simp_all add: em_inv_def)
  have "sub64 (add64 (enclaveBase em) (enclaveMemoryLen em)) (fst (last (em_holes em))) = snd (last (em_holes em))"
    using last_hole [OF r(1)] r(2) by (simp add: wrap_simps)
  then show ?thesis
    using assms(2) alloc_loop_eq [OF r, of len] by (simp add: allocate_def split: option.split)
qed

lemma find_in: "find P xs = Some x \<Longrightarrow> x \<in> set xs \<and> P x"
  by (induction xs) (auto split: if_splits)

lemma allocate_hole:
  assumes "em_inv em" "mappings em \<noteq> [] \<or> len \<le> enclaveMemoryLen em" "allocate len em = Inr p"
  shows "\<exists>n. (p, n) \<in> set (em_holes em) \<and> len \<le> n"
proof (cases "mappings em = []")
  case True
  then show ?thesis using assms by (simp add: allocate_def)
next
  case False
  show ?thesis
  proof (cases "find (\<lambda>h. len < snd h) (butlast (em_holes em))")
    case None
    then have "p = fst (last (em_holes em))" "len \<le> snd (last (em_holes em))"
      using assms(3) allocate_eq [OF assms(1) False, of len] by (auto split: if_splits)
    then show ?thesis using last_in_set [OF holes_ne] by (metis prod.collapse)
  next
    case (Some h)
    then show ?thesis
      using find_in [OF Some] in_set_butlastD [of h] assms(3) allocate_eq [OF assms(1) False, of len]
      by (intro exI [of _ "snd h"]) auto
  qed
qed

lemma allocate_room:
  assumes "em_inv em" "mappings em \<noteq> [] \<or> len \<le> enclaveMemoryLen em" "allocate len em = Inr p" "0 < len"
  shows "no_conflict p len (mappings em)" "enclaveBase em \<le> p" "p + len \<le> enclaveBase em + enclaveMemoryLen em"
  using allocate_hole [OF assms(1-3)] hole_no_conflict [of _ _ _ _ len] em_inv_space [OF assms(1)] assms(4)
  by fastforce+

lemma allocate_gives_up:
  assumes "em_inv em" "mappings em \<noteq> []"
  shows "allocate len em = Inl Exit_Minus1 \<longleftrightarrow>
    (\<forall>h \<in> set (butlast (em_holes em)). snd h \<le> len) \<and> snd (last (em_holes em)) < len"
proof (cases "find (\<lambda>h. len < snd h) (butlast (em_holes em))")
  case None
  then have "\<forall>h \<in> set (butlast (em_holes em)). snd h \<le> len" by (metis find_None_iff not_le)
  then show ?thesis using None allocate_eq [OF assms, of len] by simp
next
  case (Some h)
  then have "allocate len em = Inr (fst h)" "h \<in> set (butlast (em_holes em))" "\<not> snd h \<le> len"
    using allocate_eq [OF assms, of len] find_in [OF Some] by auto
  then show ?thesis by (metis Inl_Inr_False)
qed

text \<open>An inner hole of exactly the length asked for is passed over, and \<open>allocate\<close> gives up when the end has no room.\<close>

lemma allocate_exact_hole:
  "em_inv em \<Longrightarrow> mappings em = [(enclaveBase em + len, enclaveMemoryLen em - len)] \<Longrightarrow> 0 < len \<Longrightarrow>
   len \<le> enclaveMemoryLen em \<Longrightarrow> allocate len em = Inl Exit_Minus1"
  by (subst allocate_gives_up) simp_all

text \<open>C9. Giving pages to the enclave is safe: when \<open>addPages\<close> succeeds on a region that does not run past the
  end of the 64-bit address space, the region lies inside the enclave and shares no byte with an earlier one, it is
  recorded with its length rounded up to whole pages, each of its pages was given to the driver in order with the
  same flags, and the measurement of the enclave is extended by one record for each page, with its offset.\<close>

theorem addPages_safe:
  assumes "em_inv em" "dest + page_len len < 2 ^ 64" "addPages_full drv dest src len w x t em = Inr em'"
  shows "em_inv em' \<and> enclaveBase em \<le> dest \<and> dest + page_len len \<le> enclaveBase em + enclaveMemoryLen em \<and>
    (\<forall>(a, l) \<in> set (mappings em). a + l \<le> dest \<or> dest + page_len len \<le> a) \<and>
    map_of (mappings em') = (map_of (mappings em))(dest \<mapsto> page_len len) \<and>
    added em' = added em @ map (\<lambda>i. (dest + 4096 * i, add64 src (4096 * i), page_flags w x t)) [0..<page_len len div 4096] \<and>
    sha_input (siggen_state em') = sha_input (siggen_state em) @
      concat (map (\<lambda>i. Eadd_bytes \<lparr>ea_cmd = text_bytes 8 ''EADD'', ea_offset = dest - enclaveBase em + 4096 * i,
        ea_flags = page_flags w x t\<rparr>) [0..<page_len len div 4096])"
proof -
  note ok = addPages_full_ok [OF assms] and inv = addPages_full_inv [OF assms]
  have small: "mul64 SGX_PAGE_SIZE i = 4096 * i" "add64 dest (4096 * i) = dest + 4096 * i"
    "sub64 (dest + 4096 * i) (enclaveBase em) = dest - enclaveBase em + 4096 * i"
    if "i < page_len len div 4096" for i
  proof -
    have "4096 * i \<le> page_len len" using that by simp
    then show "mul64 SGX_PAGE_SIZE i = 4096 * i" "add64 dest (4096 * i) = dest + 4096 * i"
      "sub64 (dest + 4096 * i) (enclaveBase em) = dest - enclaveBase em + 4096 * i"
      using assms(2) ok(1) by (simp_all add: SGX_PAGE_SIZE_def wrap_simps)
  qed
  have "added em' = added em @ map (\<lambda>i. (dest + 4096 * i, add64 src (4096 * i), page_flags w x t)) [0..<page_len len div 4096]"
    by (simp add: ok(4) small)
  moreover have "sha_input (siggen_state em') = sha_input (siggen_state em) @
      concat (map (\<lambda>i. Eadd_bytes \<lparr>ea_cmd = text_bytes 8 ''EADD'', ea_offset = dest - enclaveBase em + 4096 * i,
        ea_flags = page_flags w x t\<rparr>) [0..<page_len len div 4096])"
    unfolding ok(4) by (auto simp: sha_input_measure_pages small intro!: arg_cong [where f = concat])
  moreover have "\<forall>(a, l) \<in> set (mappings em). a + l \<le> dest \<or> dest + page_len len \<le> a"
    using inv(6) by fastforce
  ultimately show ?thesis using inv(1,4) ok(1,2) by blast
qed

definition demo_driver :: driver where
  "demo_driver = \<lparr>drv_create = \<lambda>_. 0, drv_add = \<lambda>_ _ _ _. 0, drv_init = \<lambda>_ _ _. 0\<rparr>"

definition demo_em :: enclave_manager where
  "demo_em = \<lparr>enclaveBase = 0x100000, enclaveMemoryLen = 0x80000, mappings = [(0x101000, 0x2000), (0x110000, 0x1000)],
     siggen_state = demo_siggen, secs = demo_secs\<lparr>ssaframesize := SSA_FRAMESIZE_PAGE\<rparr>, added = []\<rparr>"

lemma demo_em_fields [simp]:
  "enclaveBase demo_em = 0x100000" "enclaveMemoryLen demo_em = 0x80000"
  "mappings demo_em = [(0x101000, 0x2000), (0x110000, 0x1000)]" "added demo_em = []"
  "ssaframesize (secs demo_em) = SSA_FRAMESIZE_PAGE"
  by (simp_all add: demo_em_def)

lemma demo_em_inv: "em_inv demo_em" "drv_adds demo_driver" "mappings demo_em \<noteq> []"
  by (simp_all add: em_inv_def drv_adds_def demo_driver_def)

theorem addPages_safe_witness:
  "\<exists>em'. addPages_full demo_driver 0x103000 0x7000 5000 True False False demo_em = Inr em' \<and>
     map_of (mappings em') 0x103000 = Some 0x2000 \<and> map fst (added em') = [0x103000, 0x104000]"
proof -
  have p: "page_len 5000 = 0x2000" by (simp add: page_len_def page_mask_def add64_def)
  obtain em' where "addPages_full demo_driver 0x103000 0x7000 5000 True False False demo_em = Inr em'"
    using addPages_full_succeeds [OF demo_em_inv(1,2), of "0x103000" 5000 "0x7000" True False False]
    by (auto simp: p no_conflict_def)
  with addPages_safe [OF demo_em_inv(1) _ this] show ?thesis
    by (simp add: p upt_rec)
qed



section \<open>The layout of a thread\<close>

definition disjoint_from :: "nat \<Rightarrow> nat \<Rightarrow> nat \<Rightarrow> nat \<Rightarrow> bool" where
  "disjoint_from a l b k \<longleftrightarrow> a + l \<le> b \<or> b + k \<le> a"

definition fresh_region :: "enclave_manager \<Rightarrow> nat \<Rightarrow> nat \<Rightarrow> bool" where
  "fresh_region em p l \<longleftrightarrow> enclaveBase em \<le> p \<and> p + l \<le> enclaveBase em + enclaveMemoryLen em \<and>
     (\<forall>e \<in> set (mappings em). 0 < snd e \<longrightarrow> disjoint_from (fst e) (snd e) p l)"

definition same_space :: "enclave_manager \<Rightarrow> enclave_manager \<Rightarrow> bool" where
  "same_space em em' \<longleftrightarrow> em_inv em' \<and> enclaveBase em' = enclaveBase em \<and>
     enclaveMemoryLen em' = enclaveMemoryLen em \<and> mappings em' \<noteq> [] \<and>
     (\<forall>e \<in> set (mappings em). 0 < snd e \<longrightarrow> e \<in> set (mappings em'))"

lemma same_space_trans: "same_space em em1 \<Longrightarrow> same_space em1 em2 \<Longrightarrow> same_space em em2"
  by (auto simp: same_space_def)

lemma fresh_before: "same_space em em1 \<Longrightarrow> fresh_region em1 p l \<Longrightarrow> fresh_region em p l"
  by (auto simp: same_space_def fresh_region_def)

lemma addPages_same_space:
  assumes "em_inv em" "dest + page_len len < 2 ^ 64" "addPages_full drv dest src len w x t em = Inr em'"
    "0 < page_len len"
  shows "same_space em em'" "fresh_region em dest (page_len len)" "(dest, page_len len) \<in> set (mappings em')"
proof -
  note ok = addPages_full_ok [OF assms(1-3)] and inv = addPages_full_inv [OF assms(1-3)]
  show "(dest, page_len len) \<in> set (mappings em')" by (simp add: ok(4) map_assign_mem)
  show "fresh_region em dest (page_len len)"
    using ok(1,2) inv(6) by (auto simp: fresh_region_def disjoint_from_def)
  have "e \<in> set (mappings em')" if e: "e \<in> set (mappings em)" "0 < snd e" for e
    using inv(6) [OF e(1)] e assms(4) ok(4) by (auto intro: map_assign_keeps)
  then show "same_space em em'" using inv(1-3,5) by (simp add: same_space_def)
qed

lemma allocate_fresh:
  assumes "em_inv em" "mappings em \<noteq> []" "allocate len em = Inr p" "0 < len"
  shows "fresh_region em p len" "p + len < 2 ^ 64"
proof -
  note room = allocate_room [OF assms(1) disjI1 [OF assms(2)] assms(3,4)]
  then show "fresh_region em p len"
    using no_conflict_free [OF _ room(1)] assms(1) by (auto simp: fresh_region_def disjoint_from_def em_inv_def)
  show "p + len < 2 ^ 64" using room(3) assms(1) by (simp add: em_inv_def)
qed

lemma fresh_disjoint:
  "fresh_region em' p l \<Longrightarrow> (q, k) \<in> set (mappings em') \<Longrightarrow> 0 < k \<Longrightarrow> disjoint_from q k p l"
  by (fastforce simp: fresh_region_def)

lemma allocate_add_step:
  assumes "same_space em0 em" "allocate len em = Inr p" "addPages drv p src len em = Inr em'"
    "4096 dvd len" "0 < len" "len < 2 ^ 63"
  shows "same_space em0 em'" "fresh_region em0 p len" "fresh_region em p len" "(p, len) \<in> set (mappings em')"
    "map_of (mappings em') = (map_of (mappings em))(p \<mapsto> len)"
proof -
  have em: "em_inv em" "mappings em \<noteq> []" using assms(1) by (simp_all add: same_space_def)
  have pl: "page_len len = len" using assms(4,6) by (simp add: page_len_id)
  note f = allocate_fresh [OF em assms(2,5)]
  show "fresh_region em p len" "fresh_region em0 p len" using f(1) fresh_before [OF assms(1)] by simp_all
  note add = assms(3) [unfolded addPages_def]
  note s = addPages_same_space [OF em(1) _ add, unfolded pl, OF f(2) assms(5)]
  show "same_space em0 em'" "(p, len) \<in> set (mappings em')" using s same_space_trans [OF assms(1)] by simp_all
  show "map_of (mappings em') = (map_of (mappings em))(p \<mapsto> len)"
    using addPages_full_inv(4) [OF em(1) _ add, unfolded pl, OF f(2)] .
qed

lemma same_space_refl: "em_inv em \<Longrightarrow> mappings em \<noteq> [] \<Longrightarrow> same_space em em"
  by (simp add: same_space_def)

text \<open>What \<open>createThread\<close> promises about the four regions it adds.\<close>

definition thread_regions :: "enclave_manager \<Rightarrow> thread_layout \<Rightarrow> enclave_manager \<Rightarrow> nat \<Rightarrow> bool" where
  "thread_regions em lay em' stk \<longleftrightarrow>
     fresh_region em stk stack_len \<and> fresh_region em (lay_tcs lay) (ssa_len em + 0x2000) \<and>
     fresh_region em (lay_injection lay) 0x1000 \<and>
     disjoint_from stk stack_len (lay_tcs lay) (ssa_len em + 0x2000) \<and>
     disjoint_from stk stack_len (lay_injection lay) 0x1000 \<and>
     disjoint_from (lay_tcs lay) (ssa_len em + 0x2000) (lay_injection lay) 0x1000 \<and>
     map_of (mappings em') = (map_of (mappings em))(stk \<mapsto> stack_len, lay_tcs lay \<mapsto> 0x1000,
       lay_tcs lay + 0x1000 \<mapsto> ssa_len em + 0x1000, lay_injection lay \<mapsto> 0x1000)"

lemma createThread_parts:
  assumes "createThread drv stack_mem joint_mem zero shared entry_addr em = Inr (lay, em')"
  shows "\<exists>stk em1 em2 em3.
    allocate stack_len em = Inr stk \<and> addPages drv stk stack_mem stack_len em = Inr em1 \<and>
    allocate (SGX_PAGE_SIZE + ssa_len em + SGX_PAGE_SIZE) em1 = Inr (lay_tcs lay) \<and>
    addPages_full drv (lay_tcs lay) joint_mem SGX_PAGE_SIZE True True True em1 = Inr em2 \<and>
    addPages drv (add64 (lay_tcs lay) SGX_PAGE_SIZE) (add64 joint_mem SGX_PAGE_SIZE) (ssa_len em + SGX_PAGE_SIZE) em2 = Inr em3 \<and>
    allocate 4096 em3 = Inr (lay_injection lay) \<and> addPages drv (lay_injection lay) zero 4096 em3 = Inr em' \<and>
    lay_stack_high lay = add64 (stack_start stk) (THREAD_STACK_NUM * SGX_PAGE_SIZE) \<and>
    lay_tcs_page lay = make_tcs (add64 (lay_tcs lay) SGX_PAGE_SIZE)
      (add64 (add64 (lay_tcs lay) SGX_PAGE_SIZE) (ssa_len em)) entry_addr em \<and>
    lay_tls_page lay = make_tls (lay_tcs lay) (add64 (lay_tcs lay) SGX_PAGE_SIZE) stk shared em"
  using assms by (auto simp: createThread_def Let_def rbind_eq_Inr split: if_splits)

lemma thread_sizes:
  assumes "ssaframesize (secs em) = SSA_FRAMESIZE_PAGE"
  shows "ssa_len em = 0x11000" "stack_len = 0x4000" "SGX_PAGE_SIZE = 0x1000"
  using assms by (simp_all add: ssa_len_def stack_len_def SSA_FRAMESIZE_PAGE_def NUM_SSA_def SGX_PAGE_SIZE_def THREAD_STACK_NUM_def)

text \<open>The two calls that fill the joint region of the TCS, the save area and the TLS.\<close>

lemma joint_step:
  assumes em: "same_space em0 em" and fresh: "fresh_region em p 0x13000"
    and tcs: "addPages_full drv p src 0x1000 True True True em = Inr em1"
    and ssa: "addPages drv (p + 0x1000) src' 0x12000 em1 = Inr em2"
  shows "same_space em0 em2" "(p, 0x1000) \<in> set (mappings em2)" "(p + 0x1000, 0x12000) \<in> set (mappings em2)"
    "map_of (mappings em2) = (map_of (mappings em))(p \<mapsto> 0x1000, p + 0x1000 \<mapsto> 0x12000)"
proof -
  have inv: "em_inv em" using em by (simp add: same_space_def)
  have pl: "page_len 0x1000 = 0x1000" "page_len 0x12000 = 0x12000" by (simp_all add: page_len_id)
  have b: "p + 0x1000 < 2 ^ 64" "p + 0x1000 + 0x12000 < 2 ^ 64"
    using fresh inv by (simp_all add: fresh_region_def em_inv_def)
  note s1 = addPages_same_space [OF inv _ tcs, unfolded pl, OF b(1), simplified]
  have inv1: "em_inv em1" using s1(1) by (simp add: same_space_def)
  note ssa' = ssa [unfolded addPages_def]
  note s2 = addPages_same_space [OF inv1 _ ssa', unfolded pl, OF b(2), simplified]
  show "same_space em0 em2" using same_space_trans [OF em] same_space_trans [OF s1(1) s2(1)] by blast
  show "(p, 0x1000) \<in> set (mappings em2)" using s1(3) s2(1) by (fastforce simp: same_space_def)
  show "(p + 0x1000, 0x12000) \<in> set (mappings em2)" using s2(3) by simp
  show "map_of (mappings em2) = (map_of (mappings em))(p \<mapsto> 0x1000, p + 0x1000 \<mapsto> 0x12000)"
    using addPages_full_inv(4) [OF inv _ tcs, unfolded pl, OF b(1)]
      addPages_full_inv(4) [OF inv1 _ ssa', unfolded pl, OF b(2)] by simp
qed

lemma createThread_layout_aux:
  assumes "em_inv em" "mappings em \<noteq> []" "ssaframesize (secs em) = SSA_FRAMESIZE_PAGE"
    "createThread drv stack_mem joint_mem zero shared entry_addr em = Inr (lay, em')"
  shows "\<exists>stk. thread_regions em lay em' stk \<and> em_inv em' \<and> lay_stack_high lay = stk + stack_len - 0x1000 \<and>
    enclaveBase em + ossa (lay_tcs_page lay) = lay_tcs lay + 0x1000 \<and>
    enclaveBase em + ofsbase (lay_tcs_page lay) = lay_tcs lay + 0x1000 + ssa_len em \<and>
    enclaveBase em + tcs_offset (lay_tls_page lay) = lay_tcs lay \<and> tls_ssa (lay_tls_page lay) = lay_tcs lay + 0x1000"
proof -
  note sz = thread_sizes [OF assms(3)]
  obtain stk em1 em2 em3 where
    stack: "allocate 0x4000 em = Inr stk" "addPages drv stk stack_mem 0x4000 em = Inr em1"
    and joint: "allocate 0x13000 em1 = Inr (lay_tcs lay)"
      "addPages_full drv (lay_tcs lay) joint_mem 0x1000 True True True em1 = Inr em2"
      "addPages drv (add64 (lay_tcs lay) 0x1000) (add64 joint_mem 0x1000) 0x12000 em2 = Inr em3"
    and inj: "allocate 0x1000 em3 = Inr (lay_injection lay)" "addPages drv (lay_injection lay) zero 0x1000 em3 = Inr em'"
    and lay: "lay_stack_high lay = add64 (stack_start stk) (THREAD_STACK_NUM * 0x1000)"
      "lay_tcs_page lay = make_tcs (add64 (lay_tcs lay) 0x1000) (add64 (add64 (lay_tcs lay) 0x1000) 0x11000) entry_addr em"
      "lay_tls_page lay = make_tls (lay_tcs lay) (add64 (lay_tcs lay) 0x1000) stk shared em"
    using createThread_parts [OF assms(4), unfolded sz] by auto
  note s1 = allocate_add_step [OF same_space_refl [OF assms(1,2)] stack, simplified]
  have em1: "em_inv em1" "mappings em1 \<noteq> []" using s1(1) by (simp_all add: same_space_def)
  note f = allocate_fresh [OF em1 joint(1), simplified]
  have small: "add64 (lay_tcs lay) 0x1000 = lay_tcs lay + 0x1000" "add64 (lay_tcs lay + 0x1000) 0x11000 = lay_tcs lay + 0x12000"
    using f(2) by (simp_all add: wrap_simps)
  note s3 = joint_step [OF same_space_refl [OF em1] f(1) joint(2) joint(3) [unfolded small]]
  note em3 = same_space_trans [OF s1(1) s3(1)]
  note s4 = allocate_add_step [OF em3 inj, simplified]
  have "(stk, 0x4000) \<in> set (mappings em3)" using s1(4) s3(1) by (fastforce simp: same_space_def)
  then have d: "disjoint_from stk 0x4000 (lay_injection lay) 0x1000" "disjoint_from (lay_tcs lay) 0x1000 (lay_injection lay) 0x1000"
    "disjoint_from (lay_tcs lay + 0x1000) 0x12000 (lay_injection lay) 0x1000" "disjoint_from stk 0x4000 (lay_tcs lay) 0x13000"
    using fresh_disjoint [OF s4(3)] s3(2,3) fresh_disjoint [OF f(1) s1(4)] by simp_all
  have "thread_regions em lay em' stk"
    using s1(2,5) s3(4) s4(2,5) d fresh_before [OF s1(1) f(1)]
    by (auto simp: thread_regions_def sz disjoint_from_def)
  moreover have "em_inv em'" using s4(1) by (simp add: same_space_def)
  moreover have "enclaveBase em \<le> lay_tcs lay" "stk + 0x4000 < 2 ^ 64"
    using fresh_before [OF s1(1) f(1)] s1(2) assms(1) by (auto simp: fresh_region_def em_inv_def)
  ultimately show ?thesis
    using f(2) by (intro exI [of _ stk])
      (simp add: sz lay small make_tcs_def make_tls_def stack_start_def enclave_offset_def THREAD_STACK_NUM_def wrap_simps)
qed

text \<open>C22. A thread gets memory of its own. When \<open>createThread\<close> returns, its stack, its joint region (TCS, state save
  area and thread-local data) and its injection stack lie inside the enclave, share no byte with each other or with any
  earlier mapping, and are recorded in the mappings, whose invariant holds. The top of the stack is the start of
  the last page of the stack region, and the offsets in the TCS lead to the save area right behind the TCS page and to
  the thread-local page behind the save area.\<close>

theorem createThread_layout:
  assumes "em_inv em" "mappings em \<noteq> []" "ssaframesize (secs em) = SSA_FRAMESIZE_PAGE"
    "createThread drv stack_mem joint_mem zero shared entry_addr em = Inr (lay, em')"
  shows "\<exists>stk. thread_regions em lay em' stk \<and> em_inv em' \<and> lay_stack_high lay = stk + stack_len - 0x1000 \<and>
    enclaveBase em + ossa (lay_tcs_page lay) = lay_tcs lay + 0x1000 \<and>
    enclaveBase em + ofsbase (lay_tcs_page lay) = lay_tcs lay + 0x1000 + ssa_len em \<and>
    enclaveBase em + tcs_offset (lay_tls_page lay) = lay_tcs lay \<and> tls_ssa (lay_tls_page lay) = lay_tcs lay + 0x1000"
  using assms by (rule createThread_layout_aux)

lemma demo_add_ok [simp]: "accepts demo_driver log ps"
  by (induction demo_driver log ps rule: accepts.induct) (simp_all add: demo_driver_def)

lemma demo_add_loop:
  "add_loop demo_driver f dest src is em =
     Inr (em\<lparr>added := added em @ map (add_page_of dest src f) is,
             siggen_state := measure_pages (enclaveBase em) dest f is (siggen_state em)\<rparr>)"
  by (simp add: add_loop_eq)

theorem createThread_layout_witness:
  "\<exists>lay em' stk. createThread demo_driver 0x700000 0x800000 0x900000 0xa00000 0x101000 demo_em = Inr (lay, em') \<and>
     em_inv em' \<and> thread_regions demo_em lay em' stk \<and> lay_tcs lay = 0x111000 \<and> lay_injection lay = 0x107000"
proof -
  note sz = thread_sizes [OF demo_em_fields(5)]
  have pl: "page_len 0x1000 = 0x1000" "page_len 0x12000 = 0x12000" "page_len 0x4000 = 0x4000"
    by (simp_all add: page_len_id)
  obtain lay em' where
    "createThread demo_driver 0x700000 0x800000 0x900000 0xa00000 0x101000 demo_em = Inr (lay, em')"
    "lay_tcs lay = 0x111000" "lay_injection lay = 0x107000"
    by (simp add: createThread_def allocate_def addPages_def addPages_full_def demo_add_loop Let_def sz pl MAP_FAILED_def
      add64_def sub64_def del: upt_conv_Cons_Cons add_loop.simps)
  with createThread_layout [OF demo_em_inv(1,3) demo_em_fields(5) this(1)] show ?thesis by blast
qed

section \<open>The constructor\<close>

text \<open>The loop of the constructor ends for every length up to \<open>2 ^ 63\<close>, with the least power of two that is large
  enough; the new manager satisfies the invariant if the driver's mapping does not reach the end of the address space.\<close>

lemma memory_len_pow:
  "len \<le> 2 ^ 63 \<Longrightarrow> j \<le> 63 \<Longrightarrow>
   \<exists>k. memory_len len (2 ^ j) = Some (2 ^ k) \<and> len \<le> 2 ^ k \<and> k \<le> 63 \<and> (k = j \<or> 2 ^ k < 2 * len)"
proof (induction "63 - j" arbitrary: j)
  case 0
  then have "j = 63" by simp
  with 0 show ?case by (subst memory_len.simps) (auto intro: exI [of _ 63])
next
  case (Suc d)
  show ?case
  proof (cases "(2 :: nat) ^ j < len")
    case True
    have j: "j < 63" using Suc.hyps(2) by simp
    then have "(2 :: nat) ^ Suc j < 2 ^ 64" by (intro power_strict_increasing) auto
    then have "memory_len len (2 ^ j) = memory_len len (2 ^ Suc j)"
      using True by (subst memory_len.simps) (simp add: mult.commute)
    moreover have "d = 63 - Suc j" using Suc.hyps(2) by simp
    ultimately obtain k where "memory_len len (2 ^ j) = Some (2 ^ k)" "len \<le> 2 ^ k" "k \<le> 63" "k = Suc j \<or> 2 ^ k < 2 * len"
      using Suc.hyps(1) [of "Suc j"] Suc.prems(1) j by (metis Suc_leI)
    moreover have "(2 :: nat) ^ Suc j < 2 * len" using True by simp
    ultimately show ?thesis by metis
  next
    case False
    then show ?thesis using Suc.prems by (subst memory_len.simps) (auto intro: exI [of _ j])
  qed
qed

lemma EnclaveManager_inv:
  assumes "len \<le> 2 ^ 63" "EnclaveManager drv mmap base len g = Some (Inr em)"
    "enclaveBase em + enclaveMemoryLen em < 2 ^ 64"
  shows "em_inv em \<and> mappings em = [] \<and> len \<le> enclaveMemoryLen em \<and> ssaframesize (secs em) = SSA_FRAMESIZE_PAGE"
proof -
  obtain k where k: "memory_len len (2 ^ 0) = Some (2 ^ k)" "len \<le> 2 ^ k" "k \<le> 63"
    using memory_len_pow [OF assms(1), of 0] by auto
  have "(2 :: nat) ^ k \<le> 2 ^ 63" using k(3) by (rule power_increasing) simp
  then show ?thesis
    using assms(2,3) k by (auto simp: EnclaveManager_def em_inv_def Let_def split: if_splits)
qed

text \<open>The bounds check adds the length to the address modulo \<open>2 ^ 64\<close>: a region that runs past the end of the
  address space is accepted although it starts outside the enclave.\<close>

lemma addPages_wraps:
  "enclaveBase demo_em + enclaveMemoryLen demo_em < 0xfffffffffffff000 \<and>
   (\<exists>em'. addPages_full demo_driver 0xfffffffffffff000 0 0x2000 True True False demo_em = Inr em')"
proof -
  have "page_len 0x2000 = 0x2000" by (simp add: page_len_id)
  then show ?thesis by (simp add: addPages_full_def Let_def add64_def demo_add_loop del: add_loop.simps)
qed

end
