(* ===== verification/Load_Elf.thy ===== *)
theory Load_Elf
  imports Enclave_Manager
begin

text \<open>
  Loading the ELF file into the enclave (\<open>loader/load_elf.cpp\<close>): the load bias, the relocations, which are
  applied to the private mapping of the file, and the segments, which are copied from it into fresh memory
  that is then added to the enclave. The file as ELFIO presents it is a record; the mapping is its bytes.
\<close>

section \<open>The parsed file\<close>

record elf_segment =
  seg_type :: nat
  seg_vaddr :: nat
  seg_offset :: nat
  seg_filesz :: nat
  seg_memsz :: nat

record elf_rela =
  rela_offset :: nat
  rela_symbol :: nat
  rela_type :: nat
  rela_addend :: int

record elf_section =
  sec_type :: nat
  sec_relas :: "elf_rela list"

record elfio =
  elf_class :: nat
  elf_machine :: nat
  elf_entry :: nat
  elf_segments :: "elf_segment list"
  elf_sections :: "elf_section list"
  segments_offset :: nat
  segment_entry_size :: nat
  segments_num :: nat

definition PT_LOAD :: nat where "PT_LOAD = 1"

definition PT_DYNAMIC :: nat where "PT_DYNAMIC = 2"

definition PT_TLS :: nat where "PT_TLS = 7"

definition SHT_RELA :: nat where "SHT_RELA = 4"

definition R_X86_64_RELATIVE :: nat where "R_X86_64_RELATIVE = 8"

definition ELFCLASS64 :: nat where "ELFCLASS64 = 2"

definition EM_X86_64 :: nat where "EM_X86_64 = 62"

section \<open>State\<close>

record auxv_t =
  aux_entry :: nat
  aux_phdr :: nat
  aux_phnum :: nat
  aux_phent :: nat
  aux_fd :: nat

text \<open>\<open>mappedFile\<close> is the address of the mapping and its bytes.\<close>

record elf_loader =
  reader :: elfio
  mappedFile :: "nat \<times> u8 list"
  elf_loadBias :: nat
  aux_v :: auxv_t

text \<open>
  \<open>stat_ok\<close> tells whether \<open>fstat\<close> succeeds; \<open>mm\<close> is the address that \<open>mmap\<close> gives to the file.
\<close>

definition setAuxFd :: "nat \<Rightarrow> elf_loader \<Rightarrow> elf_loader" where
  "setAuxFd fd l = l\<lparr>aux_v := (aux_v l)\<lparr>aux_fd := fd\<rparr>\<rparr>"

definition setAuxEntry :: "nat \<Rightarrow> elf_loader \<Rightarrow> elf_loader" where
  "setAuxEntry e l = l\<lparr>aux_v := (aux_v l)\<lparr>aux_entry := e\<rparr>\<rparr>"

definition setAuxPhdr :: "nat \<Rightarrow> elf_loader \<Rightarrow> elf_loader" where
  "setAuxPhdr p l = l\<lparr>aux_v := (aux_v l)\<lparr>aux_phdr := p\<rparr>\<rparr>"

definition setAuxPhnum :: "nat \<Rightarrow> elf_loader \<Rightarrow> elf_loader" where
  "setAuxPhnum n l = l\<lparr>aux_v := (aux_v l)\<lparr>aux_phnum := n\<rparr>\<rparr>"

definition setAuxPhent :: "nat \<Rightarrow> elf_loader \<Rightarrow> elf_loader" where
  "setAuxPhent n l = l\<lparr>aux_v := (aux_v l)\<lparr>aux_phent := n\<rparr>\<rparr>"

definition mapFile :: "nat \<Rightarrow> bool \<Rightarrow> nat \<Rightarrow> u8 list \<Rightarrow> elf_loader \<Rightarrow> bool \<times> elf_loader" where
  "mapFile fd stat_ok mm contents l =
     (if \<not> stat_ok then (False, l)
      else let l1 = l\<lparr>mappedFile := (mm, contents)\<rparr> in
           if mm = MAP_FAILED then (False, l1) else (True, setAuxFd fd l1))"

definition open_elf :: "elfio option \<Rightarrow> nat \<Rightarrow> bool \<Rightarrow> nat \<Rightarrow> u8 list \<Rightarrow> elf_loader \<Rightarrow> bool \<times> elf_loader" where
  "open_elf parsed fd stat_ok mm contents l =
     (case parsed of
        None \<Rightarrow> (False, l)
      | Some r \<Rightarrow>
          let l1 = l\<lparr>reader := r\<rparr> in
          if elf_class r \<noteq> ELFCLASS64 \<or> elf_machine r \<noteq> EM_X86_64 then (False, l1)
          else mapFile fd stat_ok mm contents l1)"

section \<open>Relocation\<close>

definition calculateBias :: "nat \<Rightarrow> elf_loader \<Rightarrow> elf_loader result" where
  "calculateBias base l =
     (case find (\<lambda>s. seg_type s = PT_LOAD) (elf_segments (reader l)) of
        None \<Rightarrow> Inl Exit_Minus1
      | Some pseg \<Rightarrow> Inr (l\<lparr>elf_loadBias := sub64 base (seg_vaddr pseg)\<rparr>))"

text \<open>An address that no segment covers becomes position 0 of the file.\<close>

fun memOffsetToFile :: "elf_segment list \<Rightarrow> nat \<Rightarrow> nat" where
  "memOffsetToFile [] memoff = 0"
| "memOffsetToFile (s # ss) memoff =
     (if seg_vaddr s \<le> memoff \<and> add64 (seg_vaddr s) (seg_memsz s) > memoff
      then sub64 (add64 (seg_offset s) memoff) (seg_vaddr s)
      else memOffsetToFile ss memoff)"

text \<open>A store into the mapping; behind its end it hits memory that is not the file's.\<close>

definition buf_write :: "nat \<Rightarrow> u8 list \<Rightarrow> u8 list \<Rightarrow> u8 list result" where
  "buf_write pos bs buf =
     (if pos + length bs \<le> length buf then Inr (take pos buf @ bs @ drop (pos + length bs) buf) else Inl Wild)"

fun relocate_loop :: "elf_segment list \<Rightarrow> nat \<Rightarrow> elf_rela list \<Rightarrow> u8 list \<Rightarrow> u8 list result" where
  "relocate_loop segs bias [] file = Inr file"
| "relocate_loop segs bias (r # rs) file =
     (if rela_type r = R_X86_64_RELATIVE
      then rbind (buf_write (memOffsetToFile segs (rela_offset r))
                   (le_bytes 8 (add64 (u64_of_int (rela_addend r)) bias)) file)
             (relocate_loop segs bias rs)
      else relocate_loop segs bias rs file)"

text \<open>The last relocation section is the one that is used. Without one the accessor gets a null pointer.\<close>

definition last_rela :: "elfio \<Rightarrow> elf_section option" where
  "last_rela r = find (\<lambda>s. sec_type s = SHT_RELA) (rev (elf_sections r))"

definition relocate :: "nat \<Rightarrow> elf_loader \<Rightarrow> elf_loader result" where
  "relocate base l =
     rbind (calculateBias base l) (\<lambda>l1.
       if fst (mappedFile l1) = MAP_FAILED then Inl Abort
       else
         case last_rela (reader l1) of
           None \<Rightarrow> Inl Wild
         | Some rela \<Rightarrow>
             rbind (relocate_loop (elf_segments (reader l1)) (elf_loadBias l1) (sec_relas rela) (snd (mappedFile l1))) (\<lambda>file.
               Inr (l1\<lparr>mappedFile := (fst (mappedFile l1), file)\<rparr>)))"

section \<open>Loading\<close>

text \<open>
  \<open>images\<close> are the buffers whose pages were added, with their addresses in the enclave. \<open>mm\<close> gives the
  address of a fresh mapping of a length.
\<close>

record load_state =
  ls_em :: enclave_manager
  ls_images :: "(nat \<times> u8 list) list"
  ls_tlsBase :: nat
  ls_tlsLen :: nat

definition load_segment ::
  "driver \<Rightarrow> (nat \<Rightarrow> nat) \<Rightarrow> nat \<Rightarrow> u8 list \<Rightarrow> elf_segment \<Rightarrow> load_state \<Rightarrow> load_state result" where
  "load_segment drv mm bias file s st =
     (let mapoff = seg_offset s mod 4096;
          allocbegin = add64 (page_mask (seg_vaddr s)) bias;
          allocend = add64 (page_mask (add64 (add64 (seg_vaddr s) (seg_memsz s)) 4095)) bias;
          n = sub64 allocend allocbegin;
          base = mm n
      in if base = MAP_FAILED then Inl Exit_Minus1
         else if seg_offset s + seg_filesz s > length file then Inl Wild
         else
           rbind (buf_write mapoff (take (seg_filesz s) (drop (seg_offset s) file)) (replicate n 0)) (\<lambda>buf.
           rbind (addPages drv allocbegin base n (ls_em st)) (\<lambda>em1.
             Inr (st\<lparr>ls_em := em1, ls_images := ls_images st @ [(allocbegin, buf)]\<rparr>))))"

definition load_step ::
  "driver \<Rightarrow> (nat \<Rightarrow> nat) \<Rightarrow> nat \<Rightarrow> u8 list \<Rightarrow> elf_segment \<Rightarrow> load_state \<Rightarrow> load_state result" where
  "load_step drv mm bias file s st =
     (if seg_type s = PT_DYNAMIC then Inr st
      else if seg_type s = PT_LOAD then load_segment drv mm bias file s st
      else if seg_type s = PT_TLS then Inr (st\<lparr>ls_tlsBase := seg_vaddr s, ls_tlsLen := seg_memsz s\<rparr>)
      else Inr st)"

fun load_loop ::
  "driver \<Rightarrow> (nat \<Rightarrow> nat) \<Rightarrow> nat \<Rightarrow> u8 list \<Rightarrow> elf_segment list \<Rightarrow> load_state \<Rightarrow> load_state result" where
  "load_loop drv mm bias file [] st = Inr st"
| "load_loop drv mm bias file (s # ss) st = rbind (load_step drv mm bias file s st) (load_loop drv mm bias file ss)"

text \<open>
  The memory that \<open>createThread\<close> maps, the structure it shares with the enclave, and what its thread object
  is made from.
\<close>

record thread_memory =
  tm_stack :: nat
  tm_joint :: nat
  tm_zero :: nat
  tm_shared :: nat
  tm_env :: thread_env
  tm_tls :: libOS_shared_tls
  tm_cs :: libOS_control_struct

definition createThread_object ::
  "driver \<Rightarrow> thread_memory \<Rightarrow> nat \<Rightarrow> enclave_manager \<Rightarrow> threadpool \<Rightarrow> (enclave_thread \<times> enclave_manager \<times> threadpool) result" where
  "createThread_object drv tm entry_addr em p =
     rbind (createThread drv (tm_stack tm) (tm_joint tm) (tm_zero tm) (tm_shared tm) entry_addr em) (\<lambda>(lay, em1).
       let (th, p1) = new_EnclaveThread (tm_env tm) (tm_tls tm) (tm_cs tm) (lay_stack_high lay) (lay_tcs lay) p
       in Inr (th\<lparr>sharedTLS := (sharedTLS th)\<lparr>tls_preempt_stack := lay_injection lay\<rparr>\<rparr>, em1, p1))"

definition load_elf ::
  "driver \<Rightarrow> (nat \<Rightarrow> nat) \<Rightarrow> thread_memory \<Rightarrow> elf_loader \<Rightarrow> enclave_manager \<Rightarrow> threadpool \<Rightarrow>
   (enclave_thread \<times> elf_loader \<times> load_state \<times> threadpool) result" where
  "load_elf drv mm tm l em p =
     (let segs = elf_segments (reader l); seg_num = length segs mod 2 ^ 16;
          bias = elf_loadBias l; entry_addr = add64 (elf_entry (reader l)) bias in
      rbind (load_loop drv mm bias (snd (mappedFile l)) (take seg_num segs)
               \<lparr>ls_em = em, ls_images = [], ls_tlsBase = 0, ls_tlsLen = 0\<rparr>) (\<lambda>st.
      rbind (createThread_object drv tm entry_addr (ls_em st) p) (\<lambda>(th0, em1, p1).
      let th = setUserTLS (add64 (ls_tlsBase st) bias) (ls_tlsLen st) (setBias bias (EnclaveMainThread th0));
          l1 = setAuxEntry entry_addr l;
          l2 = setAuxPhdr (add64 (fst (mappedFile l)) (segments_offset (reader l))) l1;
          l3 = setAuxPhent (segment_entry_size (reader l)) l2;
          l4 = setAuxPhnum (segments_num (reader l)) l3
      in Inr (th, l4, st\<lparr>ls_em := em1\<rparr>, p1))))"

definition makeWorkerThread ::
  "driver \<Rightarrow> thread_memory \<Rightarrow> elf_loader \<Rightarrow> enclave_manager \<Rightarrow> threadpool \<Rightarrow> (enclave_thread \<times> enclave_manager \<times> threadpool) result" where
  "makeWorkerThread drv tm l em p =
     rbind (createThread_object drv tm (add64 (elf_entry (reader l)) (elf_loadBias l)) em p) (\<lambda>(th, em1, p1).
       Inr (setBias (elf_loadBias l) th, em1, p1))"

section \<open>Relocations\<close>

lemma add64_sub64: "a < 2 ^ 64 \<Longrightarrow> b < 2 ^ 64 \<Longrightarrow> add64 a (sub64 b a) = b"
proof -
  assume "a < 2 ^ 64" "b < 2 ^ 64"
  have "int (add64 a (sub64 b a)) = (int a + (int b - int a) mod 2 ^ 64) mod 2 ^ 64"
    by (simp add: add64_def sub64_def zmod_int)
  also have "\<dots> = int b mod 2 ^ 64" by (simp only: mod_add_right_eq) simp
  finally show ?thesis using \<open>b < 2 ^ 64\<close> by simp
qed

lemma u8_256: "(256 :: u8) * x = 0"
proof -
  have "(256 :: u8) = 0" by simp
  then show ?thesis by (simp only: mult_zero_left)
qed

lemma le_bytes_le_num: "le_bytes (length bs) (le_num bs) = bs"
proof (induction bs)
  case (Cons b bs)
  have "unat b < 256" using unsigned_less [of b] by simp
  then have "(unat b + 256 * le_num bs) div 256 = le_num bs" by simp
  moreover have "word_of_nat (unat b + 256 * le_num bs) = b" by (simp add: u8_256)
  ultimately show ?case using Cons by simp
qed simp


definition read_word :: "u8 list \<Rightarrow> nat \<Rightarrow> nat" where
  "read_word file pos = le_num (take 8 (drop pos file))"

definition relatives :: "elf_rela list \<Rightarrow> elf_rela list" where
  "relatives = filter (\<lambda>r. rela_type r = R_X86_64_RELATIVE)"

abbreviation rela_slot :: "elf_segment list \<Rightarrow> elf_rela \<Rightarrow> nat" where
  "rela_slot segs r \<equiv> memOffsetToFile segs (rela_offset r)"

definition reloc_value :: "nat \<Rightarrow> elf_rela \<Rightarrow> nat" where
  "reloc_value bias r = add64 (u64_of_int (rela_addend r)) bias"

text \<open>The places of the relocations lie in the file and do not overlap.\<close>

definition slots_ok :: "elf_segment list \<Rightarrow> elf_rela list \<Rightarrow> nat \<Rightarrow> bool" where
  "slots_ok segs rs n \<longleftrightarrow>
     (\<forall>r \<in> set (relatives rs). rela_slot segs r + 8 \<le> n) \<and>
     sorted_wrt (\<lambda>r r'. disjoint_from (rela_slot segs r) 8 (rela_slot segs r') 8) (relatives rs)"

definition reloc_done :: "elf_segment list \<Rightarrow> nat \<Rightarrow> elf_rela list \<Rightarrow> u8 list \<Rightarrow> u8 list \<Rightarrow> bool" where
  "reloc_done segs bias rs file file' \<longleftrightarrow> length file' = length file \<and>
     (\<forall>r \<in> set (relatives rs). read_word file' (rela_slot segs r) = reloc_value bias r) \<and>
     (\<forall>i < length file. (\<forall>r \<in> set (relatives rs). i < rela_slot segs r \<or> rela_slot segs r + 8 \<le> i) \<longrightarrow> file' ! i = file ! i)"

lemma nth_buf:
  assumes "pos + length bs \<le> length buf" "i < length buf"
  shows "(take pos buf @ bs @ drop (pos + length bs) buf) ! i =
    (if pos \<le> i \<and> i < pos + length bs then bs ! (i - pos) else buf ! i)"
  using assms by (auto simp: nth_append min_def)

lemma read_word_cong:
  assumes "pos + 8 \<le> length a" "pos + 8 \<le> length b" "\<And>i. i < 8 \<Longrightarrow> a ! (pos + i) = b ! (pos + i)"
  shows "read_word a pos = read_word b pos"
proof -
  have "take 8 (drop pos a) = take 8 (drop pos b)"
    using assms by (intro nth_equalityI) auto
  then show ?thesis by (simp add: read_word_def)
qed

lemma read_word_written:
  "pos + 8 \<le> length buf \<Longrightarrow> v < 2 ^ 64 \<Longrightarrow> read_word (take pos buf @ le_bytes 8 v @ drop (pos + 8) buf) pos = v"
  by (simp add: read_word_def le_num_le_bytes)

lemma relocate_loop_ok:
  "slots_ok segs rs (length fl) \<Longrightarrow> \<exists>fl'. relocate_loop segs bias rs fl = Inr fl' \<and> reloc_done segs bias rs fl fl'"
proof (induction rs arbitrary: fl)
  case Nil
  then show ?case by (simp add: reloc_done_def relatives_def)
next
  case (Cons r rs)
  let ?s = "rela_slot segs r" and ?v = "reloc_value bias r"
  show ?case
  proof (cases "rela_type r = R_X86_64_RELATIVE")
    case False
    then show ?thesis using Cons by (simp add: slots_ok_def reloc_done_def relatives_def)
  next
    case True
    let ?file1 = "take ?s fl @ le_bytes 8 ?v @ drop (?s + 8) fl"
    have s: "?s + 8 \<le> length fl" and apart: "\<And>r'. r' \<in> set (relatives rs) \<Longrightarrow> disjoint_from ?s 8 (rela_slot segs r') 8"
      and ok: "slots_ok segs rs (length fl)"
      using Cons.prems True by (auto simp: slots_ok_def relatives_def)
    have len: "length ?file1 = length fl" using s by simp
    obtain fl' where f': "relocate_loop segs bias rs ?file1 = Inr fl'" "reloc_done segs bias rs ?file1 fl'"
      using Cons.IH [of ?file1] ok len by auto
    have keep: "fl' ! i = ?file1 ! i" if "i < length fl" "\<forall>r' \<in> set (relatives rs). i < rela_slot segs r' \<or> rela_slot segs r' + 8 \<le> i" for i
      using f'(2) len that by (simp add: reloc_done_def)
    have "read_word fl' ?s = read_word ?file1 ?s"
    proof (rule read_word_cong)
      show "fl' ! (?s + i) = ?file1 ! (?s + i)" if "i < 8" for i
        using that s apart by (intro keep) (fastforce simp: disjoint_from_def)+
    qed (use f'(2) s len in \<open>simp_all add: reloc_done_def\<close>)
    also have "\<dots> = ?v" using read_word_written [OF s] add64_bound unfolding reloc_value_def by blast
    finally have "reloc_done segs bias (r # rs) fl fl'"
      using f'(2) len keep s nth_buf [of ?s "le_bytes 8 ?v" fl] True
      by (auto simp: reloc_done_def relatives_def)
    moreover have "relocate_loop segs bias (r # rs) fl = Inr fl'"
      using f'(1) s True by (simp add: buf_write_def reloc_value_def)
    ultimately show ?thesis by blast
  qed
qed

section \<open>Segments\<close>

definition seg_lo :: "nat \<Rightarrow> elf_segment \<Rightarrow> nat" where
  "seg_lo bias s = add64 (page_mask (seg_vaddr s)) bias"

definition seg_span :: "elf_segment \<Rightarrow> nat" where
  "seg_span s = page_mask (seg_vaddr s + seg_memsz s + 4095) - page_mask (seg_vaddr s)"

text \<open>What the ELF format requires of a segment that is loaded.\<close>

definition seg_ok :: "nat \<Rightarrow> elf_segment \<Rightarrow> bool" where
  "seg_ok n s \<longleftrightarrow> seg_vaddr s mod 4096 = seg_offset s mod 4096 \<and> seg_filesz s \<le> seg_memsz s \<and> 0 < seg_memsz s \<and>
     seg_offset s + seg_filesz s \<le> n \<and> seg_vaddr s + seg_memsz s + 4095 < 2 ^ 64"

text \<open>The loaded segments follow each other from \<open>cur\<close> on and end before \<open>hi\<close>.\<close>

fun seg_chain :: "nat \<Rightarrow> nat \<Rightarrow> nat \<Rightarrow> nat \<Rightarrow> elf_segment list \<Rightarrow> bool" where
  "seg_chain n bias cur hi [] = True"
| "seg_chain n bias cur hi (s # ss) =
     (if seg_type s = PT_LOAD
      then seg_ok n s \<and> cur \<le> seg_lo bias s \<and> seg_lo bias s + seg_span s \<le> hi \<and>
           seg_chain n bias (seg_lo bias s + seg_span s) hi ss
      else seg_chain n bias cur hi ss)"

lemma page_mask_add: "page_mask v + v mod 4096 = v"
  by (simp add: page_mask_def)

lemma page_mask_mono: "a \<le> b \<Longrightarrow> page_mask a \<le> page_mask b"
  by (simp add: page_mask_def div_le_mono)

lemma seg_span_bounds:
  "page_mask (seg_vaddr s) + seg_span s = page_mask (seg_vaddr s + seg_memsz s + 4095)"
  "seg_vaddr s mod 4096 + seg_memsz s \<le> seg_span s" "4096 dvd seg_span s"
proof -
  have le: "page_mask (seg_vaddr s) \<le> page_mask (seg_vaddr s + seg_memsz s + 4095)" by (simp add: page_mask_mono)
  then show e: "page_mask (seg_vaddr s) + seg_span s = page_mask (seg_vaddr s + seg_memsz s + 4095)"
    by (simp add: seg_span_def)
  show "seg_vaddr s mod 4096 + seg_memsz s \<le> seg_span s"
    using e page_mask_up [of "seg_vaddr s + seg_memsz s"] page_mask_add [of "seg_vaddr s"] by linarith
  show "4096 dvd seg_span s" by (simp add: seg_span_def page_mask_def dvd_diff_nat)
qed

lemma seg_addresses:
  assumes "seg_ok n s" "seg_lo bias s + seg_span s < 2 ^ 64"
  shows "add64 (page_mask (add64 (add64 (seg_vaddr s) (seg_memsz s)) 4095)) bias = seg_lo bias s + seg_span s"
    "sub64 (seg_lo bias s + seg_span s) (seg_lo bias s) = seg_span s"
    "k < seg_memsz s \<Longrightarrow> add64 (seg_vaddr s + k) bias = seg_lo bias s + (seg_vaddr s mod 4096 + k)"
proof -
  have shift: "add64 (a + b) bias = add64 a bias + b" if "add64 a bias + b < 2 ^ 64" for a b
  proof -
    have "(a + b + bias) mod 2 ^ 64 = ((a + bias) mod 2 ^ 64 + b) mod 2 ^ 64"
      unfolding mod_add_left_eq by (simp only: ac_simps)
    then show ?thesis using that unfolding add64_def by (simp only: mod_less)
  qed
  have "add64 (add64 (seg_vaddr s) (seg_memsz s)) 4095 = seg_vaddr s + seg_memsz s + 4095"
    using assms(1) by (simp add: seg_ok_def add64_small)
  then show "add64 (page_mask (add64 (add64 (seg_vaddr s) (seg_memsz s)) 4095)) bias = seg_lo bias s + seg_span s"
    using shift [of "page_mask (seg_vaddr s)" "seg_span s"] assms(2) seg_span_bounds(1) [of s] by (simp add: seg_lo_def)
  show "sub64 (seg_lo bias s + seg_span s) (seg_lo bias s) = seg_span s"
    using assms(2) by (simp add: sub64_small)
  show "add64 (seg_vaddr s + k) bias = seg_lo bias s + (seg_vaddr s mod 4096 + k)" if "k < seg_memsz s"
    using shift [of "page_mask (seg_vaddr s)" "seg_vaddr s mod 4096 + k"] that assms(2) seg_span_bounds(2) [of s]
      page_mask_add [of "seg_vaddr s"] by (simp add: seg_lo_def add.assoc [symmetric])
qed

definition seg_image :: "u8 list \<Rightarrow> elf_segment \<Rightarrow> u8 list" where
  "seg_image fl s = take (seg_offset s mod 4096) (replicate (seg_span s) 0) @
     take (seg_filesz s) (drop (seg_offset s) fl) @ drop (seg_offset s mod 4096 + seg_filesz s) (replicate (seg_span s) 0)"

lemma seg_image_props:
  assumes "seg_ok (length fl) s"
  shows "length (seg_image fl s) = seg_span s"
    "k < seg_memsz s \<Longrightarrow> seg_image fl s ! (seg_vaddr s mod 4096 + k) = (if k < seg_filesz s then fl ! (seg_offset s + k) else 0)"
    "buf_write (seg_offset s mod 4096) (take (seg_filesz s) (drop (seg_offset s) fl)) (replicate (seg_span s) 0) = Inr (seg_image fl s)"
proof -
  let ?d = "take (seg_filesz s) (drop (seg_offset s) fl)" and ?m = "seg_offset s mod 4096"
  have l: "length ?d = seg_filesz s" and m: "?m + seg_memsz s \<le> seg_span s" "?m = seg_vaddr s mod 4096" "seg_filesz s \<le> seg_memsz s"
    using assms seg_span_bounds(2) [of s] by (auto simp: seg_ok_def)
  then show "length (seg_image fl s) = seg_span s"
    "buf_write ?m ?d (replicate (seg_span s) 0) = Inr (seg_image fl s)"
    by (simp_all add: seg_image_def buf_write_def)
  show "seg_image fl s ! (seg_vaddr s mod 4096 + k) = (if k < seg_filesz s then fl ! (seg_offset s + k) else 0)"
    if "k < seg_memsz s"
    using nth_buf [of ?m ?d "replicate (seg_span s) 0" "?m + k"] that l m assms
    by (auto simp: seg_image_def seg_ok_def)
qed

text \<open>The byte that an enclave address holds after its pages were added.\<close>

fun image_byte :: "(nat \<times> u8 list) list \<Rightarrow> nat \<Rightarrow> u8 option" where
  "image_byte [] a = None"
| "image_byte ((d, bs) # imgs) a = (if d \<le> a \<and> a < d + length bs then Some (bs ! (a - d)) else image_byte imgs a)"

lemma image_byte_above: "\<forall>(d, bs) \<in> set imgs. c \<le> d \<Longrightarrow> a < c \<Longrightarrow> image_byte imgs a = None"
  by (induction imgs a rule: image_byte.induct) auto

definition seg_loaded :: "u8 list \<Rightarrow> nat \<Rightarrow> (nat \<times> u8 list) list \<Rightarrow> elf_segment \<Rightarrow> bool" where
  "seg_loaded fl bias imgs s \<longleftrightarrow>
     (\<forall>k < seg_memsz s. image_byte imgs (add64 (seg_vaddr s + k) bias) =
        Some (if k < seg_filesz s then fl ! (seg_offset s + k) else 0))"

text \<open>Room from \<open>cur\<close> on: everything mapped so far ends there.\<close>

definition em_below :: "enclave_manager \<Rightarrow> nat \<Rightarrow> bool" where
  "em_below em cur \<longleftrightarrow> em_inv em \<and> enclaveBase em \<le> cur \<and> (\<forall>e \<in> set (mappings em). fst e + snd e \<le> cur)"

lemma em_below_no_conflict:
  assumes "em_below em cur" "cur \<le> d"
  shows "no_conflict d l (mappings em)"
proof -
  have "fst e + snd e \<le> d" if "e \<in> set (mappings em)" for e using assms that by (fastforce simp: em_below_def)
  moreover have "upper_bound d (mappings em) = None"
    using calculation unfolding upper_bound_def find_None_iff by fastforce
  ultimately show ?thesis
    using lower_entry_in [of d "mappings em"] by (auto simp: no_conflict_def split: option.splits)
qed

lemma set_map_assign: "set (map_assign k v m) \<subseteq> insert (k, v) (set m)"
  by (induction k v m rule: map_assign.induct) auto

lemma load_segment_ok:
  assumes "em_below (ls_em st) cur" "seg_ok (length fl) s" "cur \<le> seg_lo bias s"
    "seg_lo bias s + seg_span s \<le> enclaveBase (ls_em st) + enclaveMemoryLen (ls_em st)" "drv_adds drv" "\<And>n. mm n \<noteq> MAP_FAILED"
  shows "\<exists>em1. load_segment drv mm bias fl s st =
      Inr (st\<lparr>ls_em := em1, ls_images := ls_images st @ [(seg_lo bias s, seg_image fl s)]\<rparr>) \<and>
    em_below em1 (seg_lo bias s + seg_span s) \<and> enclaveBase em1 = enclaveBase (ls_em st) \<and>
    enclaveMemoryLen em1 = enclaveMemoryLen (ls_em st) \<and> mappings em1 \<noteq> [] \<and> secs em1 = secs (ls_em st)"
proof -
  let ?em = "ls_em st" and ?lo = "seg_lo bias s" and ?sp = "seg_span s"
  have inv: "em_inv ?em" and b: "?lo + ?sp < 2 ^ 64" "enclaveBase ?em \<le> ?lo" "?sp \<le> 2 ^ 63"
    using assms(1,3,4) by (auto simp: em_below_def em_inv_def)
  have pl: "page_len ?sp = ?sp" using b(3) seg_span_bounds(3) by (simp add: page_len_id)
  obtain em1 where em1: "addPages_full drv ?lo (mm ?sp) ?sp True True False ?em = Inr em1"
    using addPages_full_succeeds [OF inv assms(5) b(2), of ?sp "mm ?sp" True True False] assms(4) em_below_no_conflict [OF assms(1,3)] pl by auto
  note ok = addPages_full_ok [OF inv _ em1, unfolded pl, OF b(1)]
    and post = addPages_full_inv [OF inv _ em1, unfolded pl, OF b(1)]
  have "set (mappings em1) \<subseteq> insert (?lo, ?sp) (set (mappings ?em))"
    unfolding ok(4) using set_map_assign by simp
  then have "em_below em1 (?lo + ?sp)"
    using post(1,2) assms(1,3) b(2) by (fastforce simp: em_below_def)
  then show ?thesis
    using em1 post seg_addresses(1,2) [OF assms(2) b(1)] seg_image_props(3) [OF assms(2)] assms(2,6)
    by (auto simp: load_segment_def addPages_def Let_def seg_lo_def [symmetric] seg_ok_def)
qed

definition loaded_ok :: "u8 list \<Rightarrow> nat \<Rightarrow> elf_segment list \<Rightarrow> enclave_manager \<Rightarrow> (nat \<times> u8 list) list \<Rightarrow> enclave_manager \<Rightarrow> bool" where
  "loaded_ok fl bias segs em imgs em' \<longleftrightarrow> em_inv em' \<and> enclaveBase em' = enclaveBase em \<and> enclaveMemoryLen em' = enclaveMemoryLen em \<and>
     secs em' = secs em \<and> (mappings em' = [] \<longrightarrow> mappings em = []) \<and>
     (\<forall>s \<in> set segs. seg_type s = PT_LOAD \<longrightarrow> seg_loaded fl bias imgs s \<and> mappings em' \<noteq> [])"

lemma load_step_other:
  "seg_type s \<noteq> PT_LOAD \<Longrightarrow>
   \<exists>st1. load_step drv mm bias fl s st = Inr st1 \<and> ls_em st1 = ls_em st \<and> ls_images st1 = ls_images st"
  by (cases "seg_type s = PT_DYNAMIC"; cases "seg_type s = PT_TLS") (simp_all add: load_step_def)

lemma seg_loaded_head:
  assumes "seg_ok (length fl) s" "seg_lo bias s + seg_span s < 2 ^ 64"
  shows "seg_loaded fl bias ((seg_lo bias s, seg_image fl s) # imgs) s"
proof -
  have "seg_vaddr s mod 4096 + k < seg_span s" if "k < seg_memsz s" for k
    using that seg_span_bounds(2) [of s] by linarith
  then show ?thesis
    using seg_addresses(3) [OF assms] seg_image_props(1,2) [OF assms(1)] by (simp add: seg_loaded_def)
qed

lemma seg_loaded_tail:
  assumes "seg_loaded fl bias imgs s'" "\<forall>(d, bs) \<in> set imgs. lo + length img \<le> d"
  shows "seg_loaded fl bias ((lo, img) # imgs) s'"
proof -
  have "lo + length img \<le> a" if "image_byte imgs a = Some b" for a b
    using image_byte_above [OF assms(2), of a] that by fastforce
  then show ?thesis using assms(1) by (fastforce simp: seg_loaded_def)
qed

lemma load_loop_ok:
  assumes "drv_adds drv" "\<And>n. mm n \<noteq> MAP_FAILED"
  shows "em_below (ls_em st) cur \<Longrightarrow>
    seg_chain (length fl) bias cur (enclaveBase (ls_em st) + enclaveMemoryLen (ls_em st)) segs \<Longrightarrow>
    \<exists>st' imgs. load_loop drv mm bias fl segs st = Inr st' \<and> ls_images st' = ls_images st @ imgs \<and>
      (\<forall>(d, bs) \<in> set imgs. cur \<le> d) \<and> loaded_ok fl bias segs (ls_em st) imgs (ls_em st')"
proof (induction segs arbitrary: st cur)
  case Nil
  then show ?case by (simp add: loaded_ok_def em_below_def)
next
  case (Cons s ss)
  let ?hi = "enclaveBase (ls_em st) + enclaveMemoryLen (ls_em st)" and ?lo = "seg_lo bias s"
  show ?case
  proof (cases "seg_type s = PT_LOAD")
    case False
    then obtain st1 where st1: "load_step drv mm bias fl s st = Inr st1" "ls_em st1 = ls_em st" "ls_images st1 = ls_images st"
      using load_step_other by blast
    then show ?thesis using Cons.IH [of st1 cur] Cons.prems False by (auto simp: loaded_ok_def)
  next
    case True
    let ?next = "?lo + seg_span s"
    have c: "seg_ok (length fl) s" "cur \<le> ?lo" "?next \<le> ?hi" "seg_chain (length fl) bias ?next ?hi ss"
      using Cons.prems(2) True by simp_all
    have hi: "?next < 2 ^ 64" using c(3) Cons.prems(1) by (simp add: em_below_def em_inv_def)
    obtain em1 where em1: "load_segment drv mm bias fl s st = Inr (st\<lparr>ls_em := em1, ls_images := ls_images st @ [(?lo, seg_image fl s)]\<rparr>)"
        "em_below em1 ?next" "enclaveBase em1 = enclaveBase (ls_em st)" "enclaveMemoryLen em1 = enclaveMemoryLen (ls_em st)"
        "mappings em1 \<noteq> []" "secs em1 = secs (ls_em st)"
      using load_segment_ok [OF Cons.prems(1) c(1-3) assms(1), of mm] assms(2) by blast
    obtain st' imgs where st': "load_loop drv mm bias fl ss (st\<lparr>ls_em := em1, ls_images := ls_images st @ [(?lo, seg_image fl s)]\<rparr>) = Inr st'"
        "ls_images st' = ls_images st @ (?lo, seg_image fl s) # imgs" "\<forall>(d, bs) \<in> set imgs. ?next \<le> d"
        "loaded_ok fl bias ss em1 imgs (ls_em st')"
      using Cons.IH [of "st\<lparr>ls_em := em1, ls_images := ls_images st @ [(?lo, seg_image fl s)]\<rparr>" ?next] em1 c(4) by auto
    have "loaded_ok fl bias (s # ss) (ls_em st) ((?lo, seg_image fl s) # imgs) (ls_em st')"
      using st'(3,4) em1(3-6) seg_loaded_head [OF c(1)] hi seg_image_props(1) [OF c(1)]
        seg_loaded_tail [OF _ st'(3) [folded seg_image_props(1) [OF c(1)]]]
      by (auto simp: loaded_ok_def)
    moreover have "load_loop drv mm bias fl (s # ss) st = Inr st'"
      using em1(1) st'(1) True by (simp add: load_step_def PT_DYNAMIC_def PT_LOAD_def)
    moreover have "\<forall>(d, bs) \<in> set ((?lo, seg_image fl s) # imgs). cur \<le> d"
      using st'(3) c(2) by fastforce
    ultimately show ?thesis using st'(2) by blast
  qed
qed

section \<open>Properties\<close>

lemma relocate_aux:
  assumes "find (\<lambda>s. seg_type s = PT_LOAD) (elf_segments (reader l)) = Some pseg" "fst (mappedFile l) \<noteq> MAP_FAILED"
    "last_rela (reader l) = Some sec" "slots_ok (elf_segments (reader l)) (sec_relas sec) (length (snd (mappedFile l)))"
  shows "\<exists>l'. relocate base l = Inr l' \<and> reader l' = reader l \<and> fst (mappedFile l') = fst (mappedFile l) \<and>
    elf_loadBias l' = sub64 base (seg_vaddr pseg) \<and>
    reloc_done (elf_segments (reader l)) (elf_loadBias l') (sec_relas sec) (snd (mappedFile l)) (snd (mappedFile l'))"
  using relocate_loop_ok [OF assms(4), of "sub64 base (seg_vaddr pseg)"] assms(1-3)
  by (auto simp: relocate_def calculateBias_def)


definition rela_in :: "elf_segment list \<Rightarrow> elf_rela \<Rightarrow> elf_segment \<Rightarrow> bool" where
  "rela_in segs r s \<longleftrightarrow> seg_type s = PT_LOAD \<and> seg_vaddr s \<le> rela_offset r \<and> rela_offset r + 8 \<le> seg_vaddr s + seg_filesz s \<and>
     rela_slot segs r = seg_offset s + (rela_offset r - seg_vaddr s)"

lemma reloc_loaded:
  assumes "reloc_done segs bias rs fl0 fl" "r \<in> set (relatives rs)" "rela_in segs r s" "seg_loaded fl bias imgs s"
    "seg_ok (length fl) s" "i < 8"
  shows "image_byte imgs (add64 (rela_offset r + i) bias) = Some (le_bytes 8 (reloc_value bias r) ! i)"
proof -
  let ?k = "rela_offset r - seg_vaddr s + i"
  have k: "?k < seg_filesz s" "?k < seg_memsz s" "seg_vaddr s + ?k = rela_offset r + i" "seg_offset s + ?k = rela_slot segs r + i"
    using assms(3,5,6) by (auto simp: rela_in_def seg_ok_def)
  have "image_byte imgs (add64 (rela_offset r + i) bias) = Some (fl ! (rela_slot segs r + i))"
    using assms(4) [unfolded seg_loaded_def, rule_format, OF k(2)] k by simp
  moreover have "rela_slot segs r + 8 \<le> length fl" using assms(3,5) by (auto simp: rela_in_def seg_ok_def)
  then have "take 8 (drop (rela_slot segs r) fl) = le_bytes 8 (reloc_value bias r)"
    using assms(1,2) le_bytes_le_num [of "take 8 (drop (rela_slot segs r) fl)"] by (auto simp: reloc_done_def read_word_def)
  then have "fl ! (rela_slot segs r + i) = le_bytes 8 (reloc_value bias r) ! i"
    using \<open>i < 8\<close> \<open>rela_slot segs r + 8 \<le> length fl\<close> by (metis (no_types, lifting) add_leD1 nth_drop nth_take)
  ultimately show ?thesis by simp
qed

lemma seg_chain_ok: "seg_chain n bias cur hi segs \<Longrightarrow> s \<in> set segs \<Longrightarrow> seg_type s = PT_LOAD \<Longrightarrow> seg_ok n s"
  by (induction n bias cur hi segs rule: seg_chain.induct) (auto split: if_splits)

lemma createThread_object_inv:
  assumes "createThread_object drv tm e em p = Inr (th, em', p')" "em_inv em" "mappings em \<noteq> []"
    "ssaframesize (secs em) = SSA_FRAMESIZE_PAGE"
  shows "em_inv em'" "\<exists>lay. enclave_stack (sharedTLS th) = lay_stack_high lay \<and> tcs th = lay_tcs lay \<and>
     (\<exists>stk. thread_regions em lay em' stk)"
proof -
  obtain lay where lay: "createThread drv (tm_stack tm) (tm_joint tm) (tm_zero tm) (tm_shared tm) e em = Inr (lay, em')"
      "enclave_stack (sharedTLS th) = lay_stack_high lay" "tcs th = lay_tcs lay"
    using assms(1) by (auto simp: createThread_object_def new_EnclaveThread_def Let_def rbind_eq_Inr)
  then show "em_inv em'" "\<exists>lay. enclave_stack (sharedTLS th) = lay_stack_high lay \<and> tcs th = lay_tcs lay \<and>
     (\<exists>stk. thread_regions em lay em' stk)"
    using createThread_layout_aux [OF assms(2-4) lay(1)] by blast+
qed

text \<open>A file the loader can load into an enclave from \<open>base\<close> to \<open>hi\<close>.\<close>

definition elf_ok :: "elf_loader \<Rightarrow> elf_segment \<Rightarrow> elf_section \<Rightarrow> nat \<Rightarrow> nat \<Rightarrow> bool" where
  "elf_ok l pseg sec base hi \<longleftrightarrow>
     (let segs = elf_segments (reader l); n = length (snd (mappedFile l)) in
      find (\<lambda>s. seg_type s = PT_LOAD) segs = Some pseg \<and> fst (mappedFile l) \<noteq> MAP_FAILED \<and> last_rela (reader l) = Some sec \<and>
      slots_ok segs (sec_relas sec) n \<and> length segs < 2 ^ 16 \<and> seg_chain n (sub64 base (seg_vaddr pseg)) base hi segs)"

definition reloc_in_enclave :: "elf_loader \<Rightarrow> elf_section \<Rightarrow> (nat \<times> u8 list) list \<Rightarrow> bool" where
  "reloc_in_enclave l sec imgs \<longleftrightarrow>
     (\<forall>r \<in> set (relatives (sec_relas sec)). \<forall>s \<in> set (elf_segments (reader l)). rela_in (elf_segments (reader l)) r s \<longrightarrow>
        (\<forall>i < 8. image_byte imgs (add64 (rela_offset r + i) (elf_loadBias l)) =
                  Some (le_bytes 8 (reloc_value (elf_loadBias l) r) ! i)))"

lemma load_loop_elf:
  assumes "elf_ok l0 pseg sec (enclaveBase em) (enclaveBase em + enclaveMemoryLen em)" "relocate (enclaveBase em) l0 = Inr l"
    "em_inv em" "mappings em = []" "drv_adds drv" "\<And>n. mm n \<noteq> MAP_FAILED"
  shows "length (elf_segments (reader l)) < 2 ^ 16 \<and>
    (\<exists>st. load_loop drv mm (elf_loadBias l) (snd (mappedFile l)) (elf_segments (reader l))
            \<lparr>ls_em = em, ls_images = [], ls_tlsBase = 0, ls_tlsLen = 0\<rparr> = Inr st \<and>
       em_inv (ls_em st) \<and> mappings (ls_em st) \<noteq> [] \<and> secs (ls_em st) = secs em \<and>
       (\<forall>s \<in> set (elf_segments (reader l)). seg_type s = PT_LOAD \<longrightarrow> seg_loaded (snd (mappedFile l)) (elf_loadBias l) (ls_images st) s) \<and>
       reloc_in_enclave l sec (ls_images st))"
proof -
  let ?hi = "enclaveBase em + enclaveMemoryLen em"
  note ok = assms(1) [unfolded elf_ok_def Let_def]
  have rel: "reader l = reader l0" "elf_loadBias l = sub64 (enclaveBase em) (seg_vaddr pseg)"
      "reloc_done (elf_segments (reader l)) (elf_loadBias l) (sec_relas sec) (snd (mappedFile l0)) (snd (mappedFile l))"
    using relocate_aux [of l0 pseg sec "enclaveBase em"] ok assms(2) by auto
  have len: "length (snd (mappedFile l)) = length (snd (mappedFile l0))" using rel(3) by (simp add: reloc_done_def)
  have chain: "seg_chain (length (snd (mappedFile l))) (elf_loadBias l) (enclaveBase em) ?hi (elf_segments (reader l))"
    using ok rel(1,2) len by simp
  have "em_below em (enclaveBase em)" using assms(3,4) by (simp add: em_below_def)
  then obtain st where st: "load_loop drv mm (elf_loadBias l) (snd (mappedFile l)) (elf_segments (reader l))
        \<lparr>ls_em = em, ls_images = [], ls_tlsBase = 0, ls_tlsLen = 0\<rparr> = Inr st"
      "loaded_ok (snd (mappedFile l)) (elf_loadBias l) (elf_segments (reader l)) em (ls_images st) (ls_em st)"
    using load_loop_ok [where st = "\<lparr>ls_em = em, ls_images = [], ls_tlsBase = 0, ls_tlsLen = 0\<rparr>" and cur = "enclaveBase em"
        and fl = "snd (mappedFile l)" and bias = "elf_loadBias l" and segs = "elf_segments (reader l)", OF assms(5), of mm]
      chain assms(6) by auto
  have "pseg \<in> set (elf_segments (reader l))" "seg_type pseg = PT_LOAD"
    using ok rel(1) find_in [of _ "elf_segments (reader l0)" pseg] by auto
  then have "mappings (ls_em st) \<noteq> []" using st(2) by (auto simp: loaded_ok_def)
  moreover have "reloc_in_enclave l sec (ls_images st)"
    unfolding reloc_in_enclave_def
  proof (intro ballI allI impI)
    fix r s i
    assume r: "r \<in> set (relatives (sec_relas sec))" "s \<in> set (elf_segments (reader l))" "rela_in (elf_segments (reader l)) r s" "i < (8 :: nat)"
    then have "seg_type s = PT_LOAD" by (simp add: rela_in_def)
    with r(2) st(2) seg_chain_ok [OF chain] show "image_byte (ls_images st) (add64 (rela_offset r + i) (elf_loadBias l)) =
        Some (le_bytes 8 (reloc_value (elf_loadBias l) r) ! i)"
      by (intro reloc_loaded [OF rel(3) r(1,3) _ _ r(4)]) (auto simp: loaded_ok_def)
  qed
  ultimately show ?thesis using st ok rel(1) by (auto simp: loaded_ok_def)
qed

text \<open>C6. Relocating and loading a well-formed file into a new enclave. The loop over the segments succeeds, all
  loadable segments stand at their address plus the bias (first their bytes of the relocated file, then zeros), and each
  relocated word that lies in such a segment is found in the enclave with the addend plus the bias. When \<open>load\<close> then
  returns the main thread, the mappings still satisfy their invariant, the thread has memory of its own, knows the
  bias and is marked as the main thread, and the auxiliary entry point is the entry of the file plus the bias.\<close>

theorem load_elf_correct:
  assumes "elf_ok l0 pseg sec (enclaveBase em) (enclaveBase em + enclaveMemoryLen em)" "relocate (enclaveBase em) l0 = Inr l"
    "em_inv em" "mappings em = []" "ssaframesize (secs em) = SSA_FRAMESIZE_PAGE" "drv_adds drv" "\<forall>n. mm n \<noteq> MAP_FAILED"
  shows "\<exists>st. load_loop drv mm (elf_loadBias l) (snd (mappedFile l)) (elf_segments (reader l))
            \<lparr>ls_em = em, ls_images = [], ls_tlsBase = 0, ls_tlsLen = 0\<rparr> = Inr st \<and>
       (\<forall>s \<in> set (elf_segments (reader l)). seg_type s = PT_LOAD \<longrightarrow> seg_loaded (snd (mappedFile l)) (elf_loadBias l) (ls_images st) s) \<and>
       reloc_in_enclave l sec (ls_images st) \<and>
       (\<forall>th l' st' p'. load_elf drv mm tm l em p = Inr (th, l', st', p') \<longrightarrow>
          ls_images st' = ls_images st \<and> em_inv (ls_em st') \<and> loadBias (sharedTLS th) = elf_loadBias l \<and>
          cs_isMain (controlStruct th) \<and> aux_entry (aux_v l') = add64 (elf_entry (reader l)) (elf_loadBias l) \<and>
          (\<exists>lay stk. tcs th = lay_tcs lay \<and> thread_regions (ls_em st) lay (ls_em st') stk))"
proof -
  have mm: "\<And>n. mm n \<noteq> MAP_FAILED" using assms(7) by blast
  obtain st where len: "length (elf_segments (reader l)) < 2 ^ 16"
    and st: "load_loop drv mm (elf_loadBias l) (snd (mappedFile l)) (elf_segments (reader l))
            \<lparr>ls_em = em, ls_images = [], ls_tlsBase = 0, ls_tlsLen = 0\<rparr> = Inr st"
      "em_inv (ls_em st)" "mappings (ls_em st) \<noteq> []" "secs (ls_em st) = secs em"
      "\<forall>s \<in> set (elf_segments (reader l)). seg_type s = PT_LOAD \<longrightarrow> seg_loaded (snd (mappedFile l)) (elf_loadBias l) (ls_images st) s"
      "reloc_in_enclave l sec (ls_images st)"
    using load_loop_elf [where mm = mm, OF assms(1-4,6) mm] by blast
  have "ls_images st' = ls_images st \<and> em_inv (ls_em st') \<and> loadBias (sharedTLS th) = elf_loadBias l \<and>
      cs_isMain (controlStruct th) \<and> aux_entry (aux_v l') = add64 (elf_entry (reader l)) (elf_loadBias l) \<and>
      (\<exists>lay stk. tcs th = lay_tcs lay \<and> thread_regions (ls_em st) lay (ls_em st') stk)"
    if asm: "load_elf drv mm tm l em p = Inr (th, l', st', p')" for th l' st' p'
  proof -
    obtain th0 em1 where c: "createThread_object drv tm (add64 (elf_entry (reader l)) (elf_loadBias l)) (ls_em st) p = Inr (th0, em1, p')"
      and st': "st' = st\<lparr>ls_em := em1\<rparr>"
      and th: "th = setUserTLS (add64 (ls_tlsBase st) (elf_loadBias l)) (ls_tlsLen st) (setBias (elf_loadBias l) (EnclaveMainThread th0))"
      and l': "aux_entry (aux_v l') = add64 (elf_entry (reader l)) (elf_loadBias l)"
      using asm len st(1)
      by (auto simp: load_elf_def Let_def rbind_eq_Inr setAuxEntry_def setAuxPhdr_def setAuxPhent_def setAuxPhnum_def)
    then show ?thesis
      using createThread_object_inv [OF c st(2,3)] st(4) assms(5)
      by (auto simp: setUserTLS_def update_args_def setBias_def EnclaveMainThread_def)
  qed
  then show ?thesis using st(1,5,6) by blast
qed

section \<open>An example\<close>

definition demo_segment :: elf_segment where
  "demo_segment = \<lparr>seg_type = PT_LOAD, seg_vaddr = 0x1000, seg_offset = 0, seg_filesz = 16, seg_memsz = 32\<rparr>"

definition demo_rela :: elf_section where
  "demo_rela = \<lparr>sec_type = SHT_RELA,
     sec_relas = [\<lparr>rela_offset = 0x1008, rela_symbol = 0, rela_type = R_X86_64_RELATIVE, rela_addend = 0x1010\<rparr>]\<rparr>"

definition demo_elf :: elf_loader where
  "demo_elf = \<lparr>reader = \<lparr>elf_class = 2, elf_machine = 62, elf_entry = 0x1000, elf_segments = [demo_segment], elf_sections = [demo_rela],
       segments_offset = 64, segment_entry_size = 56, segments_num = 1\<rparr>,
     mappedFile = (0x5000, replicate 16 7), elf_loadBias = 0,
     aux_v = \<lparr>aux_entry = 0, aux_phdr = 0, aux_phnum = 0, aux_phent = 0, aux_fd = 3\<rparr>\<rparr>"

lemma demo_elf_ok: "elf_ok demo_elf demo_segment demo_rela 0x100000 0x180000"
  by (simp add: elf_ok_def demo_elf_def demo_segment_def demo_rela_def last_rela_def MAP_FAILED_def slots_ok_def relatives_def
    R_X86_64_RELATIVE_def add64_def sub64_def seg_ok_def seg_lo_def seg_span_def page_mask_def)


theorem load_elf_correct_witness:
  "\<exists>l st. relocate 0x100000 demo_elf = Inr l \<and>
     load_loop demo_driver (\<lambda>n. 0x700000) (elf_loadBias l) (snd (mappedFile l)) (elf_segments (reader l))
       \<lparr>ls_em = demo_em\<lparr>mappings := []\<rparr>, ls_images = [], ls_tlsBase = 0, ls_tlsLen = 0\<rparr> = Inr st \<and>
     reloc_in_enclave l demo_rela (ls_images st)"
proof -
  let ?em = "demo_em\<lparr>mappings := []\<rparr>"
  obtain l where l: "relocate 0x100000 demo_elf = Inr l"
    using relocate_aux [of demo_elf demo_segment demo_rela "0x100000"] demo_elf_ok [unfolded elf_ok_def Let_def] by auto
  have "em_inv ?em" "\<forall>n :: nat. (0x700000 :: nat) \<noteq> MAP_FAILED" by (simp_all add: em_inv_def MAP_FAILED_def)
  then show ?thesis
    using load_elf_correct [where em = ?em and l = l and ?l0.0 = demo_elf and pseg = demo_segment and sec = demo_rela
        and drv = demo_driver and mm = "\<lambda>n. 0x700000"] l demo_elf_ok demo_em_inv(2) by fastforce
qed

end
