(* ===== verification/Libos_Start.thy ===== *)
theory Libos_Start
  imports Interrupt Load_Elf
begin

text \<open>
  How the libOS is started: the auxiliary vector that the loader builds (\<open>loader/loader_main.cpp\<close>), the
  entry code of the enclave, which copies the vectors onto the first stack, leaves the enclave and comes back
  (\<open>libOS/start.s\<close>), and the code that reads the vectors (\<open>libOS/libOS_main.cpp\<close>). The machine is the one
  of the preemption code. Environment strings are pointers; null ends a vector.
\<close>

section \<open>The auxiliary vector\<close>

definition AUX_CNT :: nat where
  "AUX_CNT = 38"

definition AT_EXECFD :: nat where "AT_EXECFD = 2"

definition AT_PHDR :: nat where "AT_PHDR = 3"

definition AT_PHENT :: nat where "AT_PHENT = 4"

definition AT_PHNUM :: nat where "AT_PHNUM = 5"

definition AT_ENTRY :: nat where "AT_ENTRY = 9"

definition AT_SYSINFO_EHDR :: nat where "AT_SYSINFO_EHDR = 33"

lemmas at_defs = AT_EXECFD_def AT_PHDR_def AT_PHENT_def AT_PHNUM_def AT_ENTRY_def AT_SYSINFO_EHDR_def AUX_CNT_def

definition aux_value :: "(nat \<Rightarrow> nat) \<Rightarrow> auxv_t \<Rightarrow> nat \<Rightarrow> nat" where
  "aux_value getauxval a j =
     (if j = AT_PHDR then aux_phdr a
      else if j = AT_ENTRY then aux_entry a
      else if j = AT_PHNUM then aux_phnum a
      else if j = AT_PHENT then aux_phent a
      else if j = AT_EXECFD then aux_fd a
      else getauxval j)"

text \<open>\<open>i\<close> and \<open>j\<close> are the variables of the loop, \<open>v\<close> the array.\<close>

function aux_loop :: "(nat \<Rightarrow> nat) \<Rightarrow> auxv_t \<Rightarrow> nat \<Rightarrow> nat \<Rightarrow> nat list \<Rightarrow> nat list" where
  "aux_loop getauxval a i j v =
     (if i < AUX_CNT * 2 \<and> j \<noteq> AT_SYSINFO_EHDR
      then aux_loop getauxval a (i + 2) (j + 1) ((v[i := aux_value getauxval a j])[i - 1 := j])
      else (v[i := 0])[i - 1 := 0])"
  by pat_completeness auto

termination
  by (relation "measure (\<lambda>(g, a, i, j, v). AUX_CNT * 2 - i)") auto

declare aux_loop.simps [simp del]

text \<open>The array has two words more than the loop can fill; \<open>junk\<close> is what \<open>new\<close> left in it.\<close>

definition get_curr_auxv :: "(nat \<Rightarrow> nat) \<Rightarrow> auxv_t \<Rightarrow> nat list \<Rightarrow> nat list" where
  "get_curr_auxv getauxval a junk = aux_loop getauxval a 1 1 junk"

section \<open>Entering the enclave\<close>

text \<open>
  The macro \<open>push_vec\<close>: its first loop moves \<open>rbx\<close> behind the last element, its second pushes the elements
  from the last to the first. The values of \<open>rcx\<close> and \<open>rbx\<close> are arguments.
\<close>

fun push_loop :: "nat \<Rightarrow> nat \<Rightarrow> cpu_state \<Rightarrow> cpu_state" where
  "push_loop 0 rbx s = s"
| "push_loop (Suc k) rbx s = push_loop k (sub64 rbx 8) (push_word (cpu_mem s rbx) s)"

fun advance :: "nat \<Rightarrow> nat \<Rightarrow> nat" where
  "advance 0 rbx = rbx"
| "advance (Suc k) rbx = advance k (add64 rbx 8)"

definition push_vec :: "nat \<Rightarrow> nat \<Rightarrow> cpu_state \<Rightarrow> cpu_state" where
  "push_vec rcx rbx s = push_loop rcx (sub64 (advance rcx rbx) 8) s"

text \<open>The counts are 32-bit values; the number of words of the auxiliary vector is fixed.\<close>

definition push_args :: "main_args_t \<Rightarrow> cpu_state \<Rightarrow> cpu_state" where
  "push_args ma s =
     (let s1 = push_vec 80 (auxv ma) s;
          s2 = push_vec (nat ((envc ma + 1) mod 2 ^ 32)) (envp ma) s1
      in exec [Mov RSP RSI] (push_vec (nat ((argc ma + 1) mod 2 ^ 32)) (argv ma) s2))"

text \<open>
  The dispatch of \<open>_start\<close>: 2 asks for the preemption handler and 1 for a dump; a thread that left the enclave
  before goes on at its re-entry point; the main thread gets its vectors, the others call the libOS at once.
  The thread-local data of the libOS is a record; the word at \<open>gs:32\<close> is its address.
\<close>

datatype start_action = Do_Interrupt | Dump_Ssa | Reenter nat | Slave_Thread | Main_Thread

definition start_entry :: "cpu_state \<Rightarrow> libOS_shared_tls \<Rightarrow> start_action \<times> cpu_state \<times> libOS_shared_tls" where
  "start_entry s tls =
     (let s0 = exec [Load_gs 32 R14] s in
      if cpu_regs s0 RDI = 2
      then (Do_Interrupt, exec [Mov RSI RDI] (set_reg RSP (interrupt_stack tls) s0),
            tls\<lparr>interrupt_outside_stack := cpu_regs s0 RSP\<rparr>)
      else
        let tls1 = tls\<lparr>loader_stack := cpu_regs s0 RSP\<rparr>;
            s1 = set_reg RSP (enclave_stack tls1) s0
        in if cpu_regs s1 RDI = 1 then (Dump_Ssa, exec [Mov RSI RDI] s1, tls1)
           else
             let s2 = set_reg R13 (reentry tls1) s1 in
             if cpu_regs s2 R13 \<noteq> 0 then (Reenter (reentry tls1), s2\<lparr>cpu_rip := reentry tls1\<rparr>, tls1)
             else
               let s3 = set_reg RDI (controlStruct_ptr tls1) (exec [Mov RSP RBP] s2) in
               (if tls_isMain tls1 = 0 then Slave_Thread else Main_Thread, s3, tls1))"

text \<open>\<open>__eexit\<close> up to the instruction that leaves the enclave, the code at the re-entry point, and \<open>__interrupt_exit\<close>.\<close>

definition eexit :: "nat \<Rightarrow> cpu_state \<Rightarrow> libOS_shared_tls \<Rightarrow> cpu_state \<times> libOS_shared_tls" where
  "eexit reentry_point s tls =
     (let s1 = exec [Push RBP, Push RBX, Push R12, Push R13, Push R14, Push R15, Load_gs 32 R14] s;
          tls1 = tls\<lparr>enclave_stack := cpu_regs s1 RSP\<rparr>;
          s2 = set_reg R13 reentry_point (set_reg RSP (loader_stack tls1) s1);
          tls2 = tls1\<lparr>reentry := cpu_regs s2 R13\<rparr>;
          s3 = set_reg RBX (next_exit tls2) s2;
          tls3 = tls2\<lparr>enclave_return_val := cpu_regs s3 RDI\<rparr>
      in (set_reg RAX 4 s3, tls3))"

definition reentry_code :: "libOS_shared_tls \<Rightarrow> cpu_state \<Rightarrow> cpu_state" where
  "reentry_code tls s =
     exec [Pop R15, Pop R14, Pop R13, Pop R12, Pop RBX, Pop RBP, Ret] (set_reg RSP (enclave_stack tls) (exec [Load_gs 32 R14] s))"

definition interrupt_exit_code :: "libOS_shared_tls \<Rightarrow> cpu_state \<Rightarrow> cpu_state" where
  "interrupt_exit_code tls s =
     set_reg RAX 4 (set_reg RBX (interrupt_exit tls) (set_reg RSP (interrupt_outside_stack tls) (exec [Load_gs 32 R14] s)))"

section \<open>Reading the vectors\<close>

partial_function (option) find_null :: "(nat \<Rightarrow> nat) \<Rightarrow> nat \<Rightarrow> nat \<Rightarrow> nat option" where
  "find_null m a i = (if m (a + 8 * i) = 0 then Some i else find_null m a (i + 1))"

text \<open>The table has 40 entries; a larger key writes behind it.\<close>

partial_function (option) aux_scan :: "(nat \<Rightarrow> nat) \<Rightarrow> nat \<Rightarrow> nat \<Rightarrow> (nat \<rightharpoonup> nat) \<Rightarrow> (nat \<rightharpoonup> nat) result option" where
  "aux_scan m a i aux =
     (if m (a + 8 * i) = 0 then Some (Inr aux)
      else if m (a + 8 * i) \<ge> 40 then Some (Inl Wild)
      else aux_scan m a (i + 2) (aux(m (a + 8 * i) \<mapsto> m (a + 8 * (i + 1)))))"

definition test_auxv :: "(nat \<Rightarrow> nat) \<Rightarrow> nat \<Rightarrow> int \<Rightarrow> (nat \<rightharpoonup> nat) result option" where
  "test_auxv m sp c =
     (let ev = sp + 8 * (nat c + 1) in
      case find_null m sp 0 of
        None \<Rightarrow> None
      | Some n \<Rightarrow>
          (case find_null m ev 0 of
             None \<Rightarrow> None
           | Some i \<Rightarrow> aux_scan m (ev + 8 * (i + 1)) 0 Map.empty))"

section \<open>The vector of the loader\<close>

definition aux_filled :: "(nat \<Rightarrow> nat) \<Rightarrow> auxv_t \<Rightarrow> nat \<Rightarrow> nat list \<Rightarrow> nat list \<Rightarrow> bool" where
  "aux_filled g a j v r \<longleftrightarrow> length r = length v \<and> r ! 64 = 0 \<and> r ! 65 = 0 \<and>
     (\<forall>k. j \<le> k \<and> k < 33 \<longrightarrow> r ! (2 * k - 2) = k \<and> r ! (2 * k - 1) = aux_value g a k) \<and> (\<forall>m < 2 * j - 2. r ! m = v ! m)"

lemma aux_loop_filled:
  "1 \<le> j \<Longrightarrow> j \<le> 33 \<Longrightarrow> length v = 78 \<Longrightarrow> aux_filled g a j v (aux_loop g a (2 * j - 1) j v)"
proof (induction "33 - j" arbitrary: j v)
  case 0
  then have "j = 33" by simp
  then show ?case using 0 by (subst aux_loop.simps) (auto simp: aux_filled_def at_defs)
next
  case (Suc d)
  let ?v = "(v[2 * j - 1 := aux_value g a j])[2 * j - 1 - 1 := j]"
  have j: "j < 33" using Suc.hyps(2) by simp
  then have step: "aux_loop g a (2 * j - 1) j v = aux_loop g a (2 * (j + 1) - 1) (j + 1) ?v"
  proof -
    have "2 * j - 1 < AUX_CNT * 2 \<and> j \<noteq> AT_SYSINFO_EHDR" "2 * j - 1 + 2 = 2 * (j + 1) - 1"
      using j Suc.prems(1) by (auto simp: at_defs)
    then show ?thesis by (metis (no_types, lifting) aux_loop.simps)
  qed
  have "aux_filled g a (j + 1) ?v (aux_loop g a (2 * (j + 1) - 1) (j + 1) ?v)"
    using Suc.hyps(2) Suc.prems j by (intro Suc.hyps(1)) auto
  then have f: "length (aux_loop g a (2 * (j + 1) - 1) (j + 1) ?v) = 78" "aux_filled g a (j + 1) ?v (aux_loop g a (2 * (j + 1) - 1) (j + 1) ?v)"
    using Suc.prems(3) by (simp_all add: aux_filled_def)
  let ?r = "aux_loop g a (2 * (j + 1) - 1) (j + 1) ?v"
  have low: "?r ! m = ?v ! m" if "m < 2 * j" for m using f(2) that by (simp add: aux_filled_def)
  have "?r ! (2 * k - 2) = k \<and> ?r ! (2 * k - 1) = aux_value g a k" if "j \<le> k" "k < 33" for k
  proof (cases "k = j")
    case True
    then show ?thesis using low [of "2 * j - 2"] low [of "2 * j - 1"] Suc.prems j by (auto simp: nth_list_update)
  next
    case False
    then show ?thesis using f(2) that by (simp add: aux_filled_def)
  qed
  moreover have "?r ! m = v ! m" if "m < 2 * j - 2" for m using low [of m] that by simp
  ultimately show ?case using f Suc.prems(3) unfolding step by (simp add: aux_filled_def)
qed

lemma get_curr_auxv_filled: "length junk = 78 \<Longrightarrow> aux_filled g a 1 junk (get_curr_auxv g a junk)"
  using aux_loop_filled [of 1 junk g a] by (simp add: get_curr_auxv_def)

section \<open>Pushing a vector\<close>

text \<open>The vector at \<open>v\<close> now stands at \<open>b\<close>, and nothing else has changed.\<close>

definition copied :: "nat \<Rightarrow> nat \<Rightarrow> nat \<Rightarrow> cpu_state \<Rightarrow> cpu_state \<Rightarrow> bool" where
  "copied n v b s s' \<longleftrightarrow> cpu_regs s' RSP = b \<and> (\<forall>i < n. cpu_mem s' (b + 8 * i) = cpu_mem s (v + 8 * i)) \<and>
     (\<forall>x. x < b \<or> b + 8 * n \<le> x \<longrightarrow> cpu_mem s' x = cpu_mem s x)"

lemma copied_mov: "copied n v b s (exec [Mov RSP RSI] s') \<longleftrightarrow> copied n v b s s'"
  by (simp add: copied_def exec_def)

lemma push_loop_copied:
  "cpu_regs s RSP = b + 8 * n \<Longrightarrow> b + 8 * n < 2 ^ 64 \<Longrightarrow> v + 8 * n < 2 ^ 64 \<Longrightarrow> disjoint_from v (8 * n) b (8 * n) \<Longrightarrow>
   (0 < n \<Longrightarrow> rbx = v + 8 * n - 8) \<Longrightarrow> copied n v b s (push_loop n rbx s)"
proof (induction n arbitrary: s rbx)
  case 0
  then show ?case by (simp add: copied_def)
next
  case (Suc k)
  let ?s = "push_word (cpu_mem s rbx) s"
  have rbx: "rbx = v + 8 * k" using Suc.prems(5) by simp
  have s: "cpu_regs ?s RSP = b + 8 * k" "\<And>x. x \<noteq> b + 8 * k \<Longrightarrow> cpu_mem ?s x = cpu_mem s x" "cpu_mem ?s (b + 8 * k) = cpu_mem s (v + 8 * k)"
    using Suc.prems(1,2) rbx by (simp_all add: push_word_def Let_def sub64_small)
  have "copied k v b ?s (push_loop k (sub64 rbx 8) ?s)"
    using Suc.prems(2-4) s(1) rbx by (intro Suc.IH) (auto simp: disjoint_from_def sub64_small)
  then have c: "cpu_regs (push_loop (Suc k) rbx s) RSP = b" "\<And>i. i < k \<Longrightarrow> cpu_mem (push_loop (Suc k) rbx s) (b + 8 * i) = cpu_mem ?s (v + 8 * i)"
    "\<And>x. x < b \<or> b + 8 * k \<le> x \<Longrightarrow> cpu_mem (push_loop (Suc k) rbx s) x = cpu_mem ?s x"
    by (auto simp: copied_def)
  have "cpu_mem (push_loop (Suc k) rbx s) (b + 8 * i) = cpu_mem s (v + 8 * i)" if "i < Suc k" for i
  proof (cases "i = k")
    case True
    then show ?thesis using c(3) [of "b + 8 * k"] s(3) by simp
  next
    case False
    then show ?thesis using c(2) [of i] s(2) [of "v + 8 * i"] that Suc.prems(4) by (auto simp: disjoint_from_def)
  qed
  moreover have "cpu_mem (push_loop (Suc k) rbx s) x = cpu_mem s x" if "x < b \<or> b + 8 * Suc k \<le> x" for x
    using c(3) [of x] s(2) [of x] that by auto
  ultimately show ?case using c(1) unfolding copied_def by blast
qed

lemma advance_eq: "rbx + 8 * n < 2 ^ 64 \<Longrightarrow> advance n rbx = rbx + 8 * n"
  by (induction n arbitrary: rbx) (simp_all add: add64_small)

lemma push_vec_copied:
  assumes "cpu_regs s RSP = b + 8 * n" "b + 8 * n < 2 ^ 64" "v + 8 * n < 2 ^ 64" "disjoint_from v (8 * n) b (8 * n)"
  shows "copied n v b s (push_vec n v s)"
  unfolding push_vec_def advance_eq [OF assms(3)]
  using assms by (intro push_loop_copied) (auto simp: sub64_small)

section \<open>From the loader to the libOS\<close>

text \<open>A vector of \<open>n\<close> pointers with its null pointer, outside the part of the stack from \<open>lo\<close> to \<open>hi\<close>.\<close>

definition vector_at :: "(nat \<Rightarrow> nat) \<Rightarrow> nat \<Rightarrow> nat \<Rightarrow> bool" where
  "vector_at m v n \<longleftrightarrow> (\<forall>i < n. m (v + 8 * i) \<noteq> 0) \<and> m (v + 8 * n) = 0"

lemma find_null_eq: "vector_at m a n \<Longrightarrow> i \<le> n \<Longrightarrow> find_null m a i = Some n"
proof (induction "n - i" arbitrary: i)
  case 0
  then show ?case by (subst find_null.simps) (simp add: vector_at_def)
next
  case (Suc d)
  then have "find_null m a (i + 1) = Some n" "m (a + 8 * i) \<noteq> 0" by (auto simp: vector_at_def)
  then show ?case by (subst find_null.simps) simp
qed

lemma aux_scan_eq:
  assumes "\<forall>k. 1 \<le> k \<and> k < 33 \<longrightarrow> m (v + 8 * (2 * k - 2)) = k \<and> m (v + 8 * (2 * k - 1)) = val k" "m (v + 8 * 64) = 0"
  shows "1 \<le> j \<Longrightarrow> j \<le> 33 \<Longrightarrow>
    aux_scan m v (2 * j - 2) aux = Some (Inr (\<lambda>x. if j \<le> x \<and> x < 33 then Some (val x) else aux x))"
proof (induction "33 - j" arbitrary: j aux)
  case 0
  then have "j = 33" by simp
  then show ?case using assms(2) by (subst aux_scan.simps) (auto simp: fun_eq_iff)
next
  case (Suc d)
  then have j: "j < 33" "m (v + 8 * (2 * j - 2)) = j" "m (v + 8 * (2 * j - 2 + 1)) = val j" "2 * j - 2 + 2 = 2 * (j + 1) - 2"
    using assms(1) [rule_format, of j] by (auto simp: Suc_diff_Suc numeral_2_eq_2)
  have "aux_scan m v (2 * j - 2) aux = aux_scan m v (2 * (j + 1) - 2) (aux(j \<mapsto> val j))"
    using j(1) Suc.prems(1) by (subst aux_scan.simps) (simp only: j(2-4), simp)
  also have "\<dots> = Some (Inr (\<lambda>x. if j + 1 \<le> x \<and> x < 33 then Some (val x) else (aux(j \<mapsto> val j)) x))"
    using Suc.hyps(2) j(1) by (intro Suc.hyps(1)) auto
  also have "(\<lambda>x. if j + 1 \<le> x \<and> x < 33 then Some (val x) else (aux(j \<mapsto> val j)) x) =
      (\<lambda>x. if j \<le> x \<and> x < 33 then Some (val x) else aux x)"
    using j(1) by (auto simp: fun_eq_iff)
  finally show ?case .
qed

record start_layout =
  sl_argc :: nat
  sl_envc :: nat
  sl_bottom :: nat

abbreviation sl_words :: "start_layout \<Rightarrow> nat" where
  "sl_words sl \<equiv> 80 + (sl_envc sl + 1) + (sl_argc sl + 1)"

text \<open>
  What the loader hands over: the counts and vectors of the arguments and the environment, the auxiliary
  vector, and room for all of them on the stack, which starts below its top.
\<close>

definition args_ready :: "(nat \<Rightarrow> nat) \<Rightarrow> auxv_t \<Rightarrow> nat list \<Rightarrow> start_layout \<Rightarrow> main_args_t \<Rightarrow> cpu_state \<Rightarrow> bool" where
  "args_ready g a junk sl ma s \<longleftrightarrow>
     argc ma = int (sl_argc sl) \<and> envc ma = int (sl_envc sl) \<and> sl_argc sl + 1 < 2 ^ 32 \<and> sl_envc sl + 1 < 2 ^ 32 \<and> length junk = 78 \<and>
     cpu_regs s RSP = sl_bottom sl + 8 * sl_words sl \<and> sl_bottom sl + 8 * sl_words sl < 2 ^ 64 \<and>
     vector_at (cpu_mem s) (argv ma) (sl_argc sl) \<and> vector_at (cpu_mem s) (envp ma) (sl_envc sl) \<and>
     (\<forall>i < 66. cpu_mem s (auxv ma + 8 * i) = get_curr_auxv g a junk ! i) \<and>
     (\<forall>(v, n) \<in> {(argv ma, sl_argc sl + 1), (envp ma, sl_envc sl + 1), (auxv ma, 80)}.
        v + 8 * n < 2 ^ 64 \<and> disjoint_from v (8 * n) (sl_bottom sl) (8 * sl_words sl))"

lemma push_args_copied:
  assumes "args_ready g a junk sl ma s"
  shows "cpu_regs (push_args ma s) RSP = sl_bottom sl" "cpu_regs (push_args ma s) RSI = sl_bottom sl"
    "\<forall>i < sl_argc sl + 1. cpu_mem (push_args ma s) (sl_bottom sl + 8 * i) = cpu_mem s (argv ma + 8 * i)"
    "\<forall>i < sl_envc sl + 1. cpu_mem (push_args ma s) (sl_bottom sl + 8 * (sl_argc sl + 1) + 8 * i) = cpu_mem s (envp ma + 8 * i)"
    "\<forall>i < 80. cpu_mem (push_args ma s) (sl_bottom sl + 8 * (sl_argc sl + 1) + 8 * (sl_envc sl + 1) + 8 * i) = cpu_mem s (auxv ma + 8 * i)"
proof -
  let ?b = "sl_bottom sl" and ?c = "sl_argc sl + 1" and ?e = "sl_envc sl + 1"
  let ?b2 = "?b + 8 * ?c" and ?b1 = "?b + 8 * ?c + 8 * ?e"
  have sp: "cpu_regs s RSP = ?b1 + 8 * 80" and hi: "?b1 + 8 * 80 < 2 ^ 64" and cnt: "nat ((envc ma + 1) mod 2 ^ 32) = ?e"
      "nat ((argc ma + 1) mod 2 ^ 32) = ?c"
    using assms by (auto simp: args_ready_def nat_mod_distrib nat_add_distrib)
  have v: "argv ma + 8 * ?c < 2 ^ 64" "envp ma + 8 * ?e < 2 ^ 64" "auxv ma + 8 * 80 < 2 ^ 64"
    and d: "disjoint_from (argv ma) (8 * ?c) ?b (8 * sl_words sl)" "disjoint_from (envp ma) (8 * ?e) ?b (8 * sl_words sl)"
      "disjoint_from (auxv ma) (8 * 80) ?b (8 * sl_words sl)"
    using assms by (simp_all add: args_ready_def)
  define s1 where "s1 = push_vec 80 (auxv ma) s"
  define s2 where "s2 = push_vec ?e (envp ma) s1"
  have s3: "push_args ma s = exec [Mov RSP RSI] (push_vec ?c (argv ma) s2)" unfolding push_args_def Let_def s1_def s2_def cnt ..
  have c1: "copied 80 (auxv ma) ?b1 s s1"
    unfolding s1_def using sp hi v(3) d(3) by (intro push_vec_copied) (auto simp: disjoint_from_def)
  then have c2: "copied ?e (envp ma) ?b2 s1 s2"
    unfolding s2_def using hi v(2) d(2) by (intro push_vec_copied) (auto simp: disjoint_from_def copied_def)
  then have c3: "copied ?c (argv ma) ?b s2 (push_args ma s)"
    unfolding s3 copied_mov using hi v(1) d(1) by (intro push_vec_copied) (auto simp: disjoint_from_def copied_def)
  have keep: "cpu_mem (push_args ma s) x = cpu_mem s2 x" if "?b2 \<le> x" for x using c3 that by (auto simp: copied_def)
  have keep2: "cpu_mem s2 x = cpu_mem s1 x" if "x < ?b2 \<or> ?b1 \<le> x" for x using c2 that by (auto simp: copied_def)
  have keep1: "cpu_mem s1 x = cpu_mem s x" if "x < ?b1 \<or> ?b1 + 8 * 80 \<le> x" for x using c1 that by (auto simp: copied_def)
  show "cpu_regs (push_args ma s) RSP = ?b" using c3 by (simp add: copied_def)
  then show "cpu_regs (push_args ma s) RSI = ?b" unfolding s3 by (simp add: exec_def)
  show "\<forall>i < 80. cpu_mem (push_args ma s) (?b1 + 8 * i) = cpu_mem s (auxv ma + 8 * i)"
    using c1 keep keep2 by (simp add: copied_def)
  show "\<forall>i < ?e. cpu_mem (push_args ma s) (?b2 + 8 * i) = cpu_mem s (envp ma + 8 * i)"
  proof (intro allI impI)
    fix i assume i: "i < ?e"
    have "cpu_mem (push_args ma s) (?b2 + 8 * i) = cpu_mem s1 (envp ma + 8 * i)"
      using c2 keep [of "?b2 + 8 * i"] i by (simp add: copied_def)
    also have "\<dots> = cpu_mem s (envp ma + 8 * i)" using d(2) i by (intro keep1) (auto simp: disjoint_from_def)
    finally show "cpu_mem (push_args ma s) (?b2 + 8 * i) = cpu_mem s (envp ma + 8 * i)" .
  qed
  show "\<forall>i < ?c. cpu_mem (push_args ma s) (?b + 8 * i) = cpu_mem s (argv ma + 8 * i)"
  proof (intro allI impI)
    fix i assume i: "i < ?c"
    have "cpu_mem (push_args ma s) (?b + 8 * i) = cpu_mem s2 (argv ma + 8 * i)"
      using c3 i by (simp add: copied_def)
    also have "\<dots> = cpu_mem s (argv ma + 8 * i)"
      using d(1) i keep1 [of "argv ma + 8 * i"] keep2 [of "argv ma + 8 * i"] by (auto simp: disjoint_from_def)
    finally show "cpu_mem (push_args ma s) (?b + 8 * i) = cpu_mem s (argv ma + 8 * i)" .
  qed
qed

text \<open>C21. The vectors of the program survive the way from the loader through the entry code to the libOS. The entry code
  leaves the argument vector at the stack pointer, which it also hands over in \<open>rsi\<close>, then the environment, then the auxiliary vector, and the libOS,
  scanning from the stack pointer, returns a table that holds, for the keys 1 to 32, what the loader put there (its
  own values for the program headers, the entry point and the file, and those of the host for the others), and
  nothing else.\<close>

theorem start_stack_roundtrip:
  assumes "args_ready g a junk sl ma s"
  shows "cpu_regs (push_args ma s) RSP = sl_bottom sl \<and> cpu_regs (push_args ma s) RSI = sl_bottom sl \<and>
    (\<forall>i \<le> sl_argc sl. cpu_mem (push_args ma s) (sl_bottom sl + 8 * i) = cpu_mem s (argv ma + 8 * i)) \<and>
    (\<forall>i \<le> sl_envc sl. cpu_mem (push_args ma s) (sl_bottom sl + 8 * (sl_argc sl + 1) + 8 * i) = cpu_mem s (envp ma + 8 * i)) \<and>
    test_auxv (cpu_mem (push_args ma s)) (sl_bottom sl) (argc ma) =
      Some (Inr (\<lambda>j. if 1 \<le> j \<and> j < AT_SYSINFO_EHDR then Some (aux_value g a j) else None))"
proof -
  let ?b = "sl_bottom sl" and ?c = "sl_argc sl + 1" and ?e = "sl_envc sl + 1" and ?m = "cpu_mem (push_args ma s)"
  note c = push_args_copied [OF assms]
  have r: "argc ma = int (sl_argc sl)" "length junk = 78" "vector_at (cpu_mem s) (argv ma) (sl_argc sl)"
    "vector_at (cpu_mem s) (envp ma) (sl_envc sl)" "\<forall>i < 66. cpu_mem s (auxv ma + 8 * i) = get_curr_auxv g a junk ! i"
    using assms by (simp_all add: args_ready_def)
  have n: "find_null ?m ?b 0 = Some (sl_argc sl)" "find_null ?m (?b + 8 * ?c) 0 = Some (sl_envc sl)"
    using c(3,4) r(3,4) by (auto simp: vector_at_def intro!: find_null_eq)
  let ?v = "?b + 8 * ?c + 8 * ?e"
  have cell: "?m (?v + 8 * i) = get_curr_auxv g a junk ! i" if "i < 66" for i
  proof -
    have "i < 80" using that by simp
    then show ?thesis using trans [OF c(5) [rule_format] r(5) [rule_format]] that by blast
  qed
  note f = get_curr_auxv_filled [OF r(2), of g a, unfolded aux_filled_def]
  have "?m (?v + 8 * (2 * k - 2)) = k \<and> ?m (?v + 8 * (2 * k - 1)) = aux_value g a k" if k: "1 \<le> k" "k < 33" for k
  proof -
    have "2 * k - 2 < 66" "2 * k - 1 < 66" using k by auto
    then show ?thesis using f k unfolding cell [OF \<open>2 * k - 2 < 66\<close>] cell [OF \<open>2 * k - 1 < 66\<close>] by blast
  qed
  then have cells: "\<forall>k. 1 \<le> k \<and> k < 33 \<longrightarrow> ?m (?v + 8 * (2 * k - 2)) = k \<and> ?m (?v + 8 * (2 * k - 1)) = aux_value g a k"
    by blast
  have zero: "?m (?v + 8 * 64) = 0"
  proof -
    have "(64 :: nat) < 66" by simp
    then show ?thesis using f unfolding cell [OF \<open>(64 :: nat) < 66\<close>] by blast
  qed
  have "aux_scan ?m ?v (2 * 1 - 2) Map.empty = Some (Inr (\<lambda>x. if 1 \<le> x \<and> x < 33 then Some (aux_value g a x) else None))"
    by (rule aux_scan_eq [OF cells zero]) simp_all
  then have "test_auxv ?m ?b (argc ma) = Some (Inr (\<lambda>j. if 1 \<le> j \<and> j < AT_SYSINFO_EHDR then Some (aux_value g a j) else None))"
    using n r(1) by (simp add: test_auxv_def Let_def AT_SYSINFO_EHDR_def)
  then show ?thesis using c by (simp add: less_Suc_eq_le)
qed

text \<open>An example: no arguments, one environment string, and the vectors far below the stack.\<close>

definition demo_auxv :: auxv_t where
  "demo_auxv = \<lparr>aux_entry = 0x101000, aux_phdr = 0x5040, aux_phnum = 1, aux_phent = 56, aux_fd = 3\<rparr>"

definition demo_args :: main_args_t where
  "demo_args = \<lparr>argc = 0, argv = 0x1000, envc = 1, envp = 0x2000, auxv = 0x3000, heapBase = 0, heapLength = 0, unsafeHeapBase = 0,
     unsafeHeapLength = 0, tlsBase = 0, tlsSize = 0\<rparr>"

definition demo_start :: cpu_state where
  "demo_start = demo_cpu\<lparr>cpu_regs := (\<lambda>_. 0x8000 + 8 * 83),
     cpu_mem := (\<lambda>x. if x = 0x2000 then 0x4444
                     else if 0x3000 \<le> x \<and> x < 0x3000 + 8 * 66 then get_curr_auxv (\<lambda>_. 7) demo_auxv (replicate 78 0) ! ((x - 0x3000) div 8)
                     else 0)\<rparr>"

lemma demo_args_ready:
  "args_ready (\<lambda>_. 7) demo_auxv (replicate 78 0) \<lparr>sl_argc = 0, sl_envc = 1, sl_bottom = 0x8000\<rparr> demo_args demo_start"
  by (simp add: args_ready_def demo_args_def demo_start_def vector_at_def disjoint_from_def)

theorem start_stack_roundtrip_witness:
  "\<exists>aux. test_auxv (cpu_mem (push_args demo_args demo_start)) 0x8000 0 = Some (Inr aux) \<and>
     aux AT_ENTRY = Some 0x101000 \<and> aux AT_PHDR = Some 0x5040 \<and> aux 6 = Some 7 \<and> aux AT_SYSINFO_EHDR = None"
proof -
  have "argc demo_args = 0" by (simp add: demo_args_def)
  then show ?thesis using start_stack_roundtrip [OF demo_args_ready] by (simp add: at_defs aux_value_def demo_auxv_def)
qed

section \<open>Leaving and coming back\<close>

text \<open>\<open>__eexit\<close> followed by the code at the re-entry point returns to the caller of \<open>__eexit\<close> with the registers
  that a callee must keep, if nobody writes to the six cells it saved and the return address above them.\<close>

lemma eexit_reentry:
  assumes "cpu_regs s RSP = b + 48" "b + 56 < 2 ^ 64" "eexit pt s tls = (s1, tls1)"
    "\<forall>i < 7. cpu_mem s2 (b + 8 * i) = cpu_mem s1 (b + 8 * i)"
  shows "\<forall>q \<in> {RBP, RBX, R12, R13, R14, R15}. cpu_regs (reentry_code tls1 s2) q = cpu_regs s q"
    "cpu_regs (reentry_code tls1 s2) RSP = b + 56" "cpu_rip (reentry_code tls1 s2) = cpu_mem s (b + 48)"
    "reentry tls1 = pt" "enclave_return_val tls1 = cpu_regs s RDI"
proof -
  have e: "sub64 (b + 48) 8 = b + 40" "sub64 (b + 40) 8 = b + 32" "sub64 (b + 32) 8 = b + 24" "sub64 (b + 24) 8 = b + 16"
    "sub64 (b + 16) 8 = b + 8" "sub64 (b + 8) 8 = b" "add64 b 8 = b + 8" "add64 (b + 8) 8 = b + 16" "add64 (b + 16) 8 = b + 24"
    "add64 (b + 24) 8 = b + 32" "add64 (b + 32) 8 = b + 40" "add64 (b + 40) 8 = b + 48" "add64 (b + 48) 8 = b + 56"
    using assms(2) by (simp_all add: sub64_small add64_small)
  have seven: "(\<forall>i < (7 :: nat). P i) \<longleftrightarrow> P 0 \<and> P 1 \<and> P 2 \<and> P 3 \<and> P 4 \<and> P 5 \<and> P 6" for P
    by (auto simp: numeral_eq_Suc All_less_Suc)
  note x = assms(3) [unfolded eexit_def exec_def set_reg_def Let_def, symmetric]
  note code = reentry_code_def exec_def push_word_def pop_word_def set_reg_def Let_def e
  show "reentry tls1 = pt" "enclave_return_val tls1 = cpu_regs s RDI" using x by (simp_all add: push_word_def Let_def)
  show "\<forall>q \<in> {RBP, RBX, R12, R13, R14, R15}. cpu_regs (reentry_code tls1 s2) q = cpu_regs s q"
    "cpu_regs (reentry_code tls1 s2) RSP = b + 56" "cpu_rip (reentry_code tls1 s2) = cpu_mem s (b + 48)"
    using x assms(1,4) unfolding seven by (simp_all add: code)
qed

end
