(* ===== verification/Loader_Main.thy ===== *)
theory Loader_Main
  imports Libos_Start
begin

text \<open>
  The main program of the loader (\<open>loader/loader_main.cpp\<close>): it creates the enclave, loads the file, makes the heap and
  the threads, signs and initialises the enclave, hands the arguments over and starts the main thread. The host (mapping
  memory, the driver, the keys, the file) is a record of parameters.
\<close>

section \<open>Signals\<close>

definition SIGINT :: nat where "SIGINT = 2"

definition SIGILL :: nat where "SIGILL = 4"

definition SIGFPE :: nat where "SIGFPE = 8"

definition SIGSEGV :: nat where "SIGSEGV = 11"

definition SIGTSTP :: nat where "SIGTSTP = 20"

lemmas signal_defs = SIGINT_def SIGILL_def SIGFPE_def SIGSEGV_def SIGTSTP_def

definition in_enclave :: "nat \<Rightarrow> nat \<Rightarrow> nat \<Rightarrow> bool" where
  "in_enclave base_addr end_addr rip \<longleftrightarrow> base_addr \<le> rip \<and> rip < end_addr"

text \<open>A thread is asked for a dump and gets a block from \<open>malloc\<close> to do it on.\<close>

definition mark_thread :: "(nat \<Rightarrow> nat) \<Rightarrow> nat \<Rightarrow> threadpool \<Rightarrow> threadpool result" where
  "mark_thread block t p =
     (case thread_map p t of
        None \<Rightarrow> Inl Wild
      | Some th \<Rightarrow>
          let debugStack = add64 (block t) (4096 - 16)
          in Inr ((set_flag t 1 p)\<lparr>thread_map := (thread_map p)(t \<mapsto>
               th\<lparr>sharedTLS := (sharedTLS th)\<lparr>enclave_stack := debugStack\<rparr>\<rparr>)\<rparr>))"

fun mark_threads :: "(nat \<Rightarrow> nat) \<Rightarrow> nat list \<Rightarrow> threadpool \<Rightarrow> threadpool result" where
  "mark_threads block [] p = Inr p"
| "mark_threads block (t # ts) p = rbind (mark_thread block t p) (mark_threads block ts)"

text \<open>\<open>sigintCounter\<close> is a static variable; the second interrupt from the keyboard aborts.\<close>

definition sigaction_handler ::
  "nat \<Rightarrow> (nat \<Rightarrow> nat) \<Rightarrow> nat \<Rightarrow> nat \<Rightarrow> nat \<Rightarrow> nat \<Rightarrow> threadpool \<Rightarrow> (nat \<times> threadpool) result" where
  "sigaction_handler aex_handler block n rip rbx sigintCounter p =
     (if n \<noteq> SIGTSTP \<and> rip \<noteq> aex_handler then Inl Exit_Minus1
      else
        rbind (if n = SIGTSTP then mark_threads block (remdups (pool_threads p)) p else mark_thread block rbx p) (\<lambda>p1.
          if n = SIGINT
          then (if sigintCounter = 1 then Inl Abort else Inr (sigintCounter + 1, p1))
          else Inr (sigintCounter, p1)))"

definition dump_sigaction :: "nat list" where
  "dump_sigaction = [SIGSEGV, 7, SIGILL, SIGFPE, SIGTSTP]"

section \<open>The main program\<close>

definition SAFE_HEAP_LEN :: nat where
  "SAFE_HEAP_LEN = 300 * 1024 * 1024"

definition UNSAFE_HEAP_LEN :: nat where
  "UNSAFE_HEAP_LEN = 0x10000000"

definition makeUnsafeHeap :: "(nat \<Rightarrow> nat) \<Rightarrow> nat \<Rightarrow> nat result" where
  "makeUnsafeHeap mm len = (if mm len = MAP_FAILED then Inl Exit_Minus1 else Inr (mm len))"

record host =
  h_drv :: driver
  h_enclave_mmap :: "nat \<Rightarrow> nat \<Rightarrow> nat"
  h_mm :: "nat \<Rightarrow> nat"
  h_zero :: nat
  h_siggen :: siggen
  h_loader :: elf_loader
  h_parsed :: "elfio option"
  h_fd :: nat
  h_stat_ok :: bool
  h_map :: nat
  h_contents :: "u8 list"
  h_threads :: "nat \<Rightarrow> thread_memory"
  h_bn :: openssl_bn
  h_sha :: "u8 list \<Rightarrow> u8 list"
  h_sign :: "u8 list \<Rightarrow> u8 list"
  h_modulus :: nat
  h_ymd :: nat
  h_sigjunk :: "u8 list"
  h_sigstruct :: sigstruct
  h_token :: "sigstruct \<Rightarrow> u8 list result"
  h_total :: nat
  h_active :: nat
  h_queue :: nat
  h_panic :: nat
  h_timeStamp :: nat
  h_jiffies :: nat
  h_auxv :: nat
  h_getauxval :: "nat \<Rightarrow> nat"
  h_auxjunk :: "nat list"
  h_env :: "nat \<rightharpoonup> nat"

text \<open>
  The result is the enclave, the auxiliary vector that stands at \<open>h_auxv\<close>, and the pool. The main thread is shared with the pool, so the setters change
  the object in the pool. What \<open>open\<close> answers is not looked at.
\<close>

definition update_thread :: "nat \<Rightarrow> (enclave_thread \<Rightarrow> enclave_thread) \<Rightarrow> threadpool \<Rightarrow> threadpool" where
  "update_thread t f p = p\<lparr>thread_map := (thread_map p)(t := map_option f (thread_map p t))\<rparr>"

fun make_workers :: "host \<Rightarrow> elf_loader \<Rightarrow> nat list \<Rightarrow> enclave_manager \<Rightarrow> threadpool \<Rightarrow> (enclave_manager \<times> threadpool) result" where
  "make_workers h l [] em p = Inr (em, p)"
| "make_workers h l (i # is) em p =
     rbind (makeWorkerThread (h_drv h) (h_threads h i) l em p) (\<lambda>(th, em1, p1).
       make_workers h l is em1 (addWorkerThread (h_total h) (h_active h) (h_queue h) (h_panic h) (h_timeStamp h) th p1))"

definition set_main_thread :: "host \<Rightarrow> int \<Rightarrow> nat \<Rightarrow> nat \<Rightarrow> nat \<Rightarrow> nat \<Rightarrow> enclave_thread \<Rightarrow> enclave_thread result option" where
  "set_main_thread h c v e hp unsafeHeap th =
     lbind (setEnvs e (h_env h) (setAux (h_auxv h) (setArgs (c - 1) (add64 v 8) th))) (\<lambda>th1.
       Some (Inr (setUnsafeHeap unsafeHeap UNSAFE_HEAP_LEN (setJiffies (h_jiffies h) (setHeap hp SAFE_HEAP_LEN
         (setSwapper (h_queue h) (h_panic h) (h_timeStamp h) th1))))))"

definition loader_main :: "host \<Rightarrow> int \<Rightarrow> nat \<Rightarrow> nat \<Rightarrow> threadpool \<Rightarrow>
   (enclave_manager \<times> nat list \<times> threadpool) result option" where
  "loader_main h c v e p =
     (if c < 2 then Some (Inl Exit_Minus1)
      else
        lbind (EnclaveManager (h_drv h) (h_enclave_mmap h) 0 (SAFE_HEAP_LEN * 4) (h_siggen h)) (\<lambda>em.
        let (opened, l) = open_elf (h_parsed h) (h_fd h) (h_stat_ok h) (h_map h) (h_contents h) (h_loader h) in
        lbind (Some (relocate (enclaveBase em) l)) (\<lambda>l1.
        lbind (Some (load_elf (h_drv h) (h_mm h) (h_threads h 0) l1 em p)) (\<lambda>(th, l2, st, p1).
        lbind (Some (makeHeap (h_drv h) (h_zero h) SAFE_HEAP_LEN (ls_em st))) (\<lambda>(hp, em2).
        let p2 = addMainThread (h_total h) (h_active h) (h_queue h) (h_panic h) (h_timeStamp h) th p1 in
        lbind (Some (make_workers h l2 [1, 2, 3] em2 p2)) (\<lambda>(em3, p3).
        lbind (Some (prepareLaunch (h_drv h) (h_bn h) (h_sha h) (h_sign h) (h_modulus h) (h_ymd h) (h_sigjunk h) (h_sigstruct h) (h_token h) em3))
          (\<lambda>(_, em4).
        lbind (Some (makeUnsafeHeap (h_mm h) UNSAFE_HEAP_LEN)) (\<lambda>unsafeHeap.
        (case thread_map p3 (tcs th) of
           None \<Rightarrow> Some (Inl Wild)
         | Some th1 \<Rightarrow>
             lbind (set_main_thread h c v e hp unsafeHeap th1) (\<lambda>th2.
             lbind (Some (launch (update_thread (tcs th) (\<lambda>_. th2) p3))) (\<lambda>p4.
               Some (Inr (em4, get_curr_auxv (h_getauxval h) (aux_v l2) (h_auxjunk h), p4)))))))))))))"

section \<open>The heap\<close>

lemma no_conflict_iff:
  "regions lo hi m \<Longrightarrow>
   no_conflict d l m \<longleftrightarrow> (\<forall>e \<in> set m. if d < fst e then d + l \<le> fst e else fst e + snd e \<le> d)"
proof (induction lo hi m rule: regions.induct)
  case (2 lo hi a b m)
  have r: "regions (a + b) hi m" using "2.prems" by simp
  have above: "a + b \<le> fst e" if "e \<in> set m" for e using regions_bounds [OF r] that by blast
  show ?case unfolding no_conflict_Cons [OF "2.prems", of d l] using "2.IH" [OF r] above by (fastforce split: if_splits)
qed (simp add: no_conflict_def)

lemma no_conflict_rest:
  assumes "regions lo hi m" "no_conflict p (l + r) m" "0 < r" "regions lo hi (map_assign p l m)"
  shows "no_conflict (p + l) r (map_assign p l m)"
proof -
  have "if p + l < fst e then p + l + r \<le> fst e else fst e + snd e \<le> p + l" if e: "e \<in> set (map_assign p l m)" for e
  proof (cases "e = (p, l)")
    case False
    then have "e \<in> set m" using e set_map_assign by fastforce
    then have "if p < fst e then p + (l + r) \<le> fst e else fst e + snd e \<le> p"
      using assms(2) unfolding no_conflict_iff [OF assms(1)] by blast
    then show ?thesis using assms(3) by (auto split: if_splits)
  qed simp
  then show ?thesis unfolding no_conflict_iff [OF assms(4)] by blast
qed

lemma no_conflict_shorter: "no_conflict p (l + r) m \<Longrightarrow> no_conflict p l m"
  by (auto simp: no_conflict_def split: option.splits)

text \<open>The loop of \<open>makeHeap\<close> from page \<open>k\<close> on.\<close>

definition heap_pages :: "nat \<Rightarrow> nat \<Rightarrow> nat \<Rightarrow> enclave_manager \<Rightarrow> enclave_manager \<Rightarrow> bool" where
  "heap_pages hb k n em em' \<longleftrightarrow> em_inv em' \<and> enclaveBase em' = enclaveBase em \<and> enclaveMemoryLen em' = enclaveMemoryLen em \<and>
     (\<forall>i. k \<le> i \<and> i < n \<longrightarrow> map_of (mappings em') (hb + 4096 * i) = Some 4096) \<and>
     (\<forall>x. (\<forall>i. k \<le> i \<and> i < n \<longrightarrow> x \<noteq> hb + 4096 * i) \<longrightarrow> map_of (mappings em') x = map_of (mappings em) x)"

lemma heap_pages_step:
  assumes "heap_pages hb (Suc k) n em1 em'" "enclaveBase em1 = enclaveBase em" "enclaveMemoryLen em1 = enclaveMemoryLen em"
    "map_of (mappings em1) = (map_of (mappings em))(hb + 4096 * k \<mapsto> 4096)" "k < n"
  shows "heap_pages hb k n em em'"
proof -
  have h: "map_of (mappings em') (hb + 4096 * i) = Some 4096" if "Suc k \<le> i" "i < n" for i
    using assms(1) that by (simp add: heap_pages_def)
  have o: "map_of (mappings em') x = map_of (mappings em1) x" if "\<And>i. Suc k \<le> i \<Longrightarrow> i < n \<Longrightarrow> x \<noteq> hb + 4096 * i" for x
    using assms(1) that unfolding heap_pages_def by blast
  have "map_of (mappings em') (hb + 4096 * i) = Some 4096" if "k \<le> i" "i < n" for i
    using h [of i] o [of "hb + 4096 * k"] that assms(4) by (cases "i = k") auto
  moreover have "map_of (mappings em') x = map_of (mappings em) x" if "\<forall>i. k \<le> i \<and> i < n \<longrightarrow> x \<noteq> hb + 4096 * i" for x
    using o [of x] that assms(4,5) by auto
  ultimately show ?thesis using assms(1-3) by (simp add: heap_pages_def)
qed

lemma heap_loop_ok:
  assumes "drv_adds drv"
  shows "k \<le> n \<Longrightarrow> em_inv em \<Longrightarrow> enclaveBase em \<le> hb \<Longrightarrow> hb + 4096 * n \<le> enclaveBase em + enclaveMemoryLen em \<Longrightarrow>
    (k < n \<Longrightarrow> no_conflict (hb + 4096 * k) (4096 * (n - k)) (mappings em)) \<Longrightarrow>
    \<exists>em'. heap_loop drv zero hb (map (\<lambda>i. 4096 * i) [k..<n]) em = Inr em' \<and> heap_pages hb k n em em'"
proof (induction "n - k" arbitrary: k em)
  case 0
  then show ?case by (auto simp: heap_pages_def)
next
  case (Suc d)
  let ?p = "hb + 4096 * k"
  have k: "k < n" "[k..<n] = k # [Suc k..<n]" using Suc.hyps(2) by (simp_all add: upt_rec)
  have pl: "page_len 4096 = 4096" by (simp add: page_len_id)
  have b: "enclaveBase em \<le> ?p" "?p + 4096 \<le> enclaveBase em + enclaveMemoryLen em" "?p + 4096 < 2 ^ 64"
    using Suc.prems k(1) by (auto simp: em_inv_def)
  have split: "4096 * (n - k) = 4096 + 4096 * (n - Suc k)" using k(1) by (simp add: Suc_diff_Suc algebra_simps)
  have nc: "no_conflict ?p (4096 + 4096 * (n - Suc k)) (mappings em)" using Suc.prems(5) [OF k(1)] split by simp
  obtain em1 where em1: "addPages_full drv ?p zero 4096 True True False em = Inr em1"
    using addPages_full_succeeds [OF Suc.prems(2) assms b(1), of 4096 zero True True False] b(2) no_conflict_shorter [OF nc] pl by auto
  note ok = addPages_full_ok [OF Suc.prems(2) _ em1, unfolded pl, OF b(3)]
    and post = addPages_full_inv [OF Suc.prems(2) _ em1, unfolded pl, OF b(3)]
  have reg: "regions (enclaveBase em) (enclaveBase em + enclaveMemoryLen em) (mappings em)"
      "regions (enclaveBase em) (enclaveBase em + enclaveMemoryLen em) (map_assign ?p 4096 (mappings em))"
    using Suc.prems(2) post(1) ok(4) by (simp_all add: em_inv_def)
  have "no_conflict (hb + 4096 * Suc k) (4096 * (n - Suc k)) (mappings em1)" if "Suc k < n"
    using no_conflict_rest [OF reg(1) nc _ reg(2)] that ok(4) by (simp add: algebra_simps)
  moreover have "d = n - Suc k" using Suc.hyps(2) by simp
  ultimately obtain em' where em': "heap_loop drv zero hb (map (\<lambda>i. 4096 * i) [Suc k..<n]) em1 = Inr em'" "heap_pages hb (Suc k) n em1 em'"
    using Suc.hyps(1) [of "Suc k" em1] Suc.prems(3,4) post(1-3) k(1) by auto
  have "heap_pages hb k n em em'" using heap_pages_step [OF em'(2) post(2-4) k(1)] .
  moreover have "add64 hb (4096 * k) = ?p" using b(3) by (simp add: add64_small)
  ultimately show ?case using em1 em'(1) k(2) by (simp add: addPages_def)
qed

lemma makeHeap_ok:
  assumes "em_inv em" "mappings em \<noteq> []" "4096 dvd len" "0 < len" "drv_adds drv" "allocate len em = Inr hb" "len \<le> 2 ^ 63"
  shows "\<exists>em'. makeHeap drv zero len em = Inr (hb, em') \<and> heap_pages hb 0 (len div 4096) em em'"
proof -
  note room = allocate_room [OF assms(1) disjI1 [OF assms(2)] assms(6,4)]
  have n: "(len + 4095) div 4096 = len div 4096" "4096 * (len div 4096) = len" using assms(3) by auto
  have "\<exists>em'. heap_loop drv zero hb (map (\<lambda>i. 4096 * i) [0..<len div 4096]) em = Inr em' \<and> heap_pages hb 0 (len div 4096) em em'"
    using assms(1) room n(2) by (intro heap_loop_ok [OF assms(5)]) simp_all
  then show ?thesis using assms(6) n(1) by (auto simp: makeHeap_def)
qed

section \<open>Signals reach the dump\<close>

text \<open>After a fault inside the enclave the handler marks the thread, and the next asynchronous exit of this
  thread answers with the dump.\<close>

lemma fault_is_dumped:
  assumes "sigaction_handler aex block n rip t cnt p = Inr (cnt', p')" "n \<noteq> SIGTSTP" "n \<noteq> SIGINT"
  shows "rip = aex \<and> cnt' = cnt \<and> (\<exists>p''. do_aex now t p' = Inr (1, p'') \<and> sig_flag_map p'' t = 0)"
proof -
  have "sig_flag_map p' t = 1" "thread_map p' t \<noteq> None" "rip = aex" "cnt' = cnt"
    using assms by (auto simp: sigaction_handler_def mark_thread_def set_flag_def Let_def rbind_eq_Inr split: if_splits option.splits)
  then show ?thesis
    by (auto simp: do_aex_def get_flag_def set_interrupt_def clear_interrupt_def Let_def)
qed

text \<open>What the setters leave in the main thread.\<close>

lemma set_main_thread_ok:
  assumes "set_main_thread h c v e hp uh th = Some (Inr th')"
  shows "tcs th' = tcs th \<and> argc (mainArgs (controlStruct th')) = c - 1 \<and> argv (mainArgs (controlStruct th')) = add64 v 8 \<and>
    auxv (mainArgs (controlStruct th')) = h_auxv h \<and> envp (mainArgs (controlStruct th')) = e \<and>
    heapBase (mainArgs (controlStruct th')) = hp \<and> heapLength (mainArgs (controlStruct th')) = SAFE_HEAP_LEN \<and>
    unsafeHeapBase (mainArgs (controlStruct th')) = uh \<and> cs_requestQueue (controlStruct th') = h_queue h \<and>
    cs_isMain (controlStruct th') = cs_isMain (controlStruct th)"
proof -
  obtain n where "th' = setUnsafeHeap uh UNSAFE_HEAP_LEN (setJiffies (h_jiffies h) (setHeap hp SAFE_HEAP_LEN
      (setSwapper (h_queue h) (h_panic h) (h_timeStamp h) (update_args (\<lambda>a. a\<lparr>envp := e, envc := s32 (int n)\<rparr>)
        (setAux (h_auxv h) (setArgs (c - 1) (add64 v 8) th))))))"
    using assms by (auto simp: set_main_thread_def setEnvs_def lbind_def split: option.splits sum.splits)
  then show ?thesis
    by (simp add: setUnsafeHeap_def setJiffies_def setHeap_def setSwapper_def update_args_def setAux_def setArgs_def)
qed

end
