(* ===== verification/Sched.thy ===== *)
theory Sched
  imports Request
begin

text \<open>
  User-level threads and their scheduler (\<open>libOS/sched.h\<close>, \<open>libOS/sched.cpp\<close>,
  \<open>libOS/user_thread.cpp\<close>, the watch lists of \<open>libOS/async_request.cpp\<close>).

  A scheduling entity is a member of its thread; both are stored under the address of the thread, and
  0 is a null pointer. The queues hold addresses. A critical section (under the lock of a queue and of
  an entity) is one step. \<open>schedule\<close> has several of them, and other CPUs run in between: its parts are
  definitions of their own, \<open>schedule\<close> runs them without interruption, and the relation \<open>sched_step\<close>
  interleaves those of all CPUs. The reference counts are commented out in the source.
\<close>

section \<open>State\<close>

definition MAXIMUM_SLOT :: int where
  "MAXIMUM_SLOT = 1"

record sched_entity =
  se_ticket :: int
  se_queue :: "nat option"
  oldQueue :: "nat option"
  onQueue :: bool
  running :: bool
  timeSlot :: int

record user_thread =
  contextGood :: bool
  fcxt :: nat
  fs_base :: nat
  preempt_stack :: nat
  xsaveRegion :: nat
  clear_child_tid :: nat
  thread_id :: int

text \<open>\<open>struct pthread\<close> of the C library; the libOS writes \<open>self\<close> and \<open>tid\<close>.\<close>

record pthread =
  pt_self :: nat
  pt_dtv :: nat
  pt_prev :: nat
  pt_next :: nat
  pt_sysinfo :: nat
  pt_canary :: nat
  pt_canary2 :: nat
  pt_tid :: int
  pt_errno_val :: int
  pt_detach_state :: int
  pt_cancel :: int
  pt_canceldisable :: "8 word"
  pt_cancelasync :: "8 word"
  pt_tsd_used :: bool
  pt_dlerror_flag :: bool
  pt_map_base :: nat
  pt_map_size :: nat
  pt_stack :: nat
  pt_stack_size :: nat
  pt_guard_size :: nat
  pt_result :: nat
  pt_cancelbuf :: nat
  pt_tsd :: nat
  pt_robust_head :: nat
  pt_robust_off :: int
  pt_robust_pending :: nat
  pt_timer_id :: int
  pt_locale :: nat
  pt_killlock :: int
  pt_dlerror_buf :: nat
  pt_stdio_locks :: nat
  pt_canary_at_end :: nat
  pt_dtv_copy :: nat

record scheduler =
  ents :: "nat \<rightharpoonup> sched_entity"
  threads :: "nat \<rightharpoonup> user_thread"
  eachQueue :: "nat list list"
  eachWatchList :: "nat list list"
  current :: "nat list"
  idle :: "nat list"
  requests :: "nat \<rightharpoonup> request"
  numTotalThread :: int
  numKernelThreads :: nat
  inInterrupt :: "nat \<Rightarrow> bool"
  fs_reg :: "nat list"
  tcbs :: "nat \<rightharpoonup> pthread"
  tls_areas :: "nat \<rightharpoonup> 8 word list"
  preempt_injection_stack :: "nat list"

text \<open>The constructor leaves the ticket, the flags and \<open>oldQueue\<close> as the memory was.\<close>

definition SchedEntity :: "sched_entity \<Rightarrow> sched_entity" where
  "SchedEntity junk = junk\<lparr>timeSlot := 0, se_queue := None\<rparr>"

definition scheduler_init :: "nat \<Rightarrow> scheduler" where
  "scheduler_init n =
     \<lparr>ents = Map.empty, threads = Map.empty, eachQueue = PerCPU [], eachWatchList = PerCPU [], current = PerCPU 0,
      idle = PerCPU 0, requests = Map.empty, numTotalThread = 0, numKernelThreads = n, inInterrupt = (\<lambda>_. False),
      fs_reg = PerCPU 0, tcbs = Map.empty, tls_areas = Map.empty, preempt_injection_stack = PerCPU 0\<rparr>"

definition get_cpu :: "nat \<Rightarrow> scheduler \<Rightarrow> nat \<times> scheduler" where
  "get_cpu threadID s =
     (let (flag, fl) = disableInterrupt threadID (inInterrupt s)
      in (threadID, s\<lparr>inInterrupt := (if \<not> flag then enableInterrupt threadID fl else fl)\<rparr>))"

definition with_se :: "nat \<Rightarrow> scheduler \<Rightarrow> (sched_entity \<Rightarrow> 'a result) \<Rightarrow> 'a result" where
  "with_se a s k = (case ents s a of None \<Rightarrow> Inl Wild | Some e \<Rightarrow> k e)"

definition put_se :: "nat \<Rightarrow> sched_entity \<Rightarrow> scheduler \<Rightarrow> scheduler" where
  "put_se a e s = s\<lparr>ents := (ents s)(a \<mapsto> e)\<rparr>"

definition put_queue :: "nat \<Rightarrow> nat list \<Rightarrow> scheduler \<Rightarrow> scheduler" where
  "put_queue c q s = s\<lparr>eachQueue := (eachQueue s)[c := q]\<rparr>"

section \<open>Queue operations\<close>

definition schedNotify :: "scheduler \<Rightarrow> scheduler" where
  "schedNotify s = s\<lparr>numTotalThread := numTotalThread s + 1\<rparr>"

definition enqueueTask :: "nat \<Rightarrow> nat \<Rightarrow> scheduler \<Rightarrow> scheduler result" where
  "enqueueTask cpu a s =
     with_se a s (\<lambda>se.
     rbind (PerCPU_deref cpu (eachQueue s)) (\<lambda>q.
     LIBOS_ASSERT (\<not> onQueue se)
       (let (s1, se1) = (if \<not> running se \<and> \<not> onQueue se
                         then (put_queue cpu (q @ [a]) s, se\<lparr>se_queue := Some cpu\<rparr>)
                         else (s, se\<lparr>se_queue := oldQueue se\<rparr>));
            s2 = (if \<not> onQueue se1 then schedNotify s1 else s1)
        in Inr (put_se a (se1\<lparr>oldQueue := None, onQueue := True\<rparr>) s2))))"

definition dequeueTask :: "nat \<Rightarrow> scheduler \<Rightarrow> scheduler result" where
  "dequeueTask a s =
     with_se a s (\<lambda>se.
       case se_queue se of
         None \<Rightarrow> Inl Wild
       | Some c \<Rightarrow>
           rbind (PerCPU_deref c (eachQueue s)) (\<lambda>q.
           LIBOS_ASSERT (onQueue se)
             (let s1 = (if onQueue se \<and> \<not> running se then put_queue c (remove1 a q) s else s);
                  s2 = (if onQueue se then s1\<lparr>numTotalThread := numTotalThread s1 - 1\<rparr> else s1)
              in Inr (put_se a (se\<lparr>oldQueue := Some c, se_queue := None, onQueue := False\<rparr>) s2))))"

section \<open>Load balancing\<close>

fun first_movable :: "scheduler \<Rightarrow> nat list \<Rightarrow> nat option result" where
  "first_movable s [] = Inr None"
| "first_movable s (a # q) =
     with_se a s (\<lambda>se.
       case threads s a of
         None \<Rightarrow> Inl Wild
       | Some t \<Rightarrow> if \<not> running se \<and> contextGood t then Inr (Some a) else first_movable s q)"

text \<open>One round of the loop, under the locks of the two queues; the flag says that a thread was moved.\<close>

definition balance_one :: "nat \<Rightarrow> nat \<Rightarrow> scheduler \<Rightarrow> (bool \<times> scheduler) result" where
  "balance_one cpu i s =
     rbind (PerCPU_deref i (eachQueue s)) (\<lambda>src_q.
       if i = cpu \<or> src_q = [] then Inr (False, s)
       else rbind (first_movable s src_q) (\<lambda>it.
         case it of
           None \<Rightarrow> Inr (False, s)
         | Some a \<Rightarrow>
             let s1 = put_queue i (remove1 a src_q) s;
                 s2 = put_queue cpu (eachQueue s1 ! cpu @ [a]) s1
             in with_se a s2 (\<lambda>se. Inr (True, put_se a (se\<lparr>se_queue := Some cpu\<rparr>) s2))))"

fun balance_loop :: "nat \<Rightarrow> nat list \<Rightarrow> scheduler \<Rightarrow> scheduler result" where
  "balance_loop cpu [] s = Inr s"
| "balance_loop cpu (i # is) s =
     rbind (balance_one cpu i s) (\<lambda>(moved, s1). if moved then Inr s1 else balance_loop cpu is s1)"

definition loadBalance :: "nat \<Rightarrow> nat \<Rightarrow> scheduler \<Rightarrow> scheduler result" where
  "loadBalance cpu cpu_num s = (if cpu_num = 1 then Inr s else balance_loop cpu [0..<cpu_num] s)"

section \<open>Watch lists\<close>

fun watch_loop :: "nat \<Rightarrow> nat list \<Rightarrow> scheduler \<Rightarrow> scheduler result" where
  "watch_loop cpu [] s = Inr s"
| "watch_loop cpu (rq # rqs) s =
     (case requests s rq of
        None \<Rightarrow> Inl Wild
      | Some r \<Rightarrow>
          if waitOnDone (\<lambda>_. req_done r) 1 then
            (if owner r = 0 then Inl Ud2
             else
               let s1 = s\<lparr>requests := (requests s)(rq \<mapsto> r\<lparr>owner := 0\<rparr>),
                          eachWatchList := (eachWatchList s)[cpu := remove1 rq (eachWatchList s ! cpu)]\<rparr>
               in rbind (enqueueTask cpu (owner r) s1) (watch_loop cpu rqs))
          else watch_loop cpu rqs s)"

definition watchListCheck :: "nat \<Rightarrow> scheduler \<Rightarrow> scheduler result" where
  "watchListCheck cpu s =
     rbind (PerCPU_deref cpu (eachWatchList s)) (\<lambda>rqs. watch_loop cpu rqs s)"

section \<open>Context switch\<close>

text \<open>
  \<open>this->jumpTo(from)\<close>: up to the jump, the code runs on the stack of \<open>from\<close>; \<open>saved\<close> is the context
  that the jump leaves behind, and the code after it (\<open>arrive\<close>) runs on the stack of \<open>this\<close>. A thread
  that starts runs \<open>__entry_helper\<close> there, which begins with the same. While the context of \<open>this\<close> is
  not saved, the loop goes on: the result is \<open>None\<close>.
\<close>

definition arrive :: "nat \<Rightarrow> nat \<Rightarrow> nat \<Rightarrow> nat \<Rightarrow> scheduler \<Rightarrow> scheduler result" where
  "arrive cpu saved prev cur s =
     (case threads s cur of
        None \<Rightarrow> Inl Wild
      | Some tc \<Rightarrow>
          let s1 = s\<lparr>preempt_injection_stack := (preempt_injection_stack s)[cpu := preempt_stack tc]\<rparr> in
          rbind (if prev = 0 then Inr s1
                 else case threads s1 prev of
                        None \<Rightarrow> Inl Wild
                      | Some tp \<Rightarrow> Inr (s1\<lparr>threads := (threads s1)(prev \<mapsto> tp\<lparr>fcxt := saved, contextGood := True\<rparr>)\<rparr>))
            (\<lambda>s2. Inr (s2\<lparr>inInterrupt := enableInterrupt cpu (inInterrupt s2)\<rparr>)))"

definition getFSReg :: "nat \<Rightarrow> scheduler \<Rightarrow> nat" where
  "getFSReg cpu s = fs_reg s ! cpu"

definition setFSReg :: "nat \<Rightarrow> nat \<Rightarrow> scheduler \<Rightarrow> scheduler" where
  "setFSReg cpu val s = s\<lparr>fs_reg := (fs_reg s)[cpu := val]\<rparr>"

definition jumpTo :: "nat \<Rightarrow> nat \<Rightarrow> nat \<Rightarrow> nat \<Rightarrow> scheduler \<Rightarrow> scheduler result option" where
  "jumpTo cpu saved this from s =
     (case threads s this of
        None \<Rightarrow> Some (Inl Wild)
      | Some t \<Rightarrow>
          if \<not> contextGood t then None
          else
            let s1 = s\<lparr>threads := (threads s)(this \<mapsto> t\<lparr>contextGood := False\<rparr>)\<rparr> in
            Some (rbind (if from = 0 then Inr s1
                         else case threads s1 from of
                                None \<Rightarrow> Inl Wild
                              | Some f \<Rightarrow> Inr (s1\<lparr>threads := (threads s1)(from \<mapsto> f\<lparr>fs_base := getFSReg cpu s1\<rparr>)\<rparr>))
              (\<lambda>s2.
                let t2 = the (threads s2 this);
                    s3 = setFSReg cpu (fs_base t2) s2
                in arrive cpu saved from this (s3\<lparr>threads := (threads s3)(this \<mapsto> t2\<lparr>fcxt := 0\<rparr>)\<rparr>))))"

section \<open>Choosing the next thread\<close>

text \<open>The time slot of the current thread: \<open>False\<close> when it goes on running.\<close>

definition tick :: "nat \<Rightarrow> scheduler \<Rightarrow> (bool \<times> scheduler) result" where
  "tick cpu s =
     (let a = current s ! cpu in
      if a = 0 then Inr (True, s)
      else with_se a s (\<lambda>se.
        let slot = timeSlot se + 1 in
        if slot \<noteq> MAXIMUM_SLOT then Inr (False, put_se a (se\<lparr>timeSlot := slot\<rparr>) s)
        else Inr (True, put_se a (se\<lparr>timeSlot := 0\<rparr>) s)))"

definition put_prev :: "nat \<Rightarrow> scheduler \<Rightarrow> scheduler result" where
  "put_prev cpu s =
     (let a = current s ! cpu in
      if a = 0 then Inr s
      else with_se a s (\<lambda>se.
        rbind (if onQueue se
               then (case se_queue se of
                       None \<Rightarrow> Inl Ud2
                     | Some c \<Rightarrow> rbind (PerCPU_deref c (eachQueue s)) (\<lambda>q. Inr (put_queue c (q @ [a]) s)))
               else Inr s) (\<lambda>s1. Inr (put_se a (se\<lparr>running := False\<rparr>) s1))))"

definition pick :: "nat \<Rightarrow> scheduler \<Rightarrow> scheduler result" where
  "pick cpu s =
     (case eachQueue s ! cpu of
        [] \<Rightarrow> Inl Undefined
      | a # q \<Rightarrow>
          with_se a s (\<lambda>se.
            Inr (put_se a (se\<lparr>running := True\<rparr>) (put_queue cpu q (s\<lparr>current := (current s)[cpu := a]\<rparr>)))))"

definition go_idle :: "nat \<Rightarrow> scheduler \<Rightarrow> scheduler" where
  "go_idle cpu s = s\<lparr>current := (current s)[cpu := idle s ! cpu]\<rparr>"

definition switch :: "nat \<Rightarrow> nat \<Rightarrow> nat \<Rightarrow> scheduler \<Rightarrow> scheduler result option" where
  "switch cpu saved prev s =
     (if current s ! cpu \<noteq> prev
      then if current s ! cpu = 0 then Some (Inl Wild) else jumpTo cpu saved (current s ! cpu) prev s
      else Some (Inr (s\<lparr>inInterrupt := enableInterrupt cpu (inInterrupt s)\<rparr>)))"

definition schedule :: "nat \<Rightarrow> nat \<Rightarrow> scheduler \<Rightarrow> scheduler result option" where
  "schedule cpu saved s =
     (if \<not> cpu < length (current s) then Some (Inl Wild)
      else
        let s0 = s\<lparr>inInterrupt := snd (disableInterrupt cpu (inInterrupt s))\<rparr> in
        lbind (Some (watchListCheck cpu s0)) (\<lambda>s1.
        lbind (Some (tick cpu s1)) (\<lambda>(go, s2).
          if \<not> go then Some (Inr s2)
          else
            let prev = current s2 ! cpu in
            lbind (Some (put_prev cpu s2)) (\<lambda>s3.
              if eachQueue s3 ! cpu \<noteq> [] then lbind (Some (pick cpu s3)) (switch cpu saved prev)
              else
                lbind (Some (loadBalance cpu (numKernelThreads s3) s3)) (\<lambda>s4.
                if eachQueue s4 ! cpu \<noteq> [] then lbind (Some (pick cpu s4)) (switch cpu saved prev)
                else switch cpu saved prev (go_idle cpu s4))))))"

section \<open>Threads\<close>

text \<open>
  The memory that the constructors get is an argument: \<open>stack\<close>, \<open>pre\<close> and \<open>xs\<close> from
  \<open>libos_mmap\<close>, \<open>TCB\<close> from \<open>malloc\<close>. \<open>n\<close> is the thread counter, \<open>img\<close> the initial
  contents of the thread-local storage, and \<open>make_fcontext\<close> the Boost function. What memory held before
  is \<open>junk\<close>.
\<close>

definition STACK_SIZE :: nat where
  "STACK_SIZE = 8192"

definition allocateTCB :: "pthread \<Rightarrow> 8 word list \<Rightarrow> nat \<Rightarrow> scheduler \<Rightarrow> nat \<times> scheduler" where
  "allocateTCB junk img TCB s =
     (let pthreadPtr = add64 TCB (length img)
      in (pthreadPtr, s\<lparr>tcbs := (tcbs s)(pthreadPtr \<mapsto> junk\<lparr>pt_tid := s32 0xBEEFBEEF, pt_self := pthreadPtr\<rparr>),
                        tls_areas := (tls_areas s)(TCB \<mapsto> img)\<rparr>))"

definition libos_pthread_self :: "nat \<Rightarrow> scheduler \<Rightarrow> nat result" where
  "libos_pthread_self cpu s = (case tcbs s (getFSReg cpu s) of None \<Rightarrow> Inl Wild | Some pt \<Rightarrow> Inr (pt_self pt))"

definition UserThread ::
  "sched_entity \<Rightarrow> (nat \<Rightarrow> nat \<Rightarrow> nat) \<Rightarrow> nat \<Rightarrow> nat \<Rightarrow> nat \<Rightarrow> nat \<Rightarrow> int \<Rightarrow> nat \<Rightarrow> scheduler \<Rightarrow> scheduler" where
  "UserThread junk make_fcontext stack pre xs tcb n a s =
     s\<lparr>ents := (ents s)(a \<mapsto> SchedEntity junk),
       threads := (threads s)(a \<mapsto>
         \<lparr>contextGood = True, fcxt = make_fcontext (add64 stack STACK_SIZE) STACK_SIZE, fs_base = tcb,
          preempt_stack = add64 pre (4096 - 16), xsaveRegion = xs, clear_child_tid = 0, thread_id = n\<rparr>)\<rparr>"

definition new_UserThread :: "sched_entity \<Rightarrow> user_thread \<Rightarrow> nat \<Rightarrow> int \<Rightarrow> nat \<Rightarrow> scheduler \<Rightarrow> scheduler" where
  "new_UserThread junk junk_thread xs n a s =
     s\<lparr>ents := (ents s)(a \<mapsto> SchedEntity junk),
       threads := (threads s)(a \<mapsto> junk_thread\<lparr>thread_id := n, xsaveRegion := xs, clear_child_tid := 0\<rparr>)\<rparr>"

definition libos_clone ::
  "sched_entity \<Rightarrow> user_thread \<Rightarrow> (nat \<Rightarrow> nat \<Rightarrow> nat) \<Rightarrow> nat \<Rightarrow> nat \<Rightarrow> nat \<Rightarrow> nat \<Rightarrow> int \<Rightarrow> nat \<Rightarrow> nat \<Rightarrow> nat \<Rightarrow>
   scheduler \<Rightarrow> scheduler result" where
  "libos_clone junk junk_thread make_fcontext stack pre xs newtls n detach cpu a s =
     (let s1 = new_UserThread junk junk_thread xs n a s;
          t = the (threads s1 a)
      in case tcbs s1 newtls of
           None \<Rightarrow> Inl Wild
         | Some pt \<Rightarrow>
             enqueueTask cpu a
               (s1\<lparr>tcbs := (tcbs s1)(newtls \<mapsto> pt\<lparr>pt_tid := thread_id t\<rparr>),
                   threads := (threads s1)(a \<mapsto>
                     t\<lparr>fcxt := make_fcontext stack STACK_SIZE, contextGood := True,
                       preempt_stack := add64 pre (4096 - 16), fs_base := newtls, clear_child_tid := detach\<rparr>)\<rparr>))"

definition setIdle ::
  "sched_entity \<Rightarrow> (nat \<Rightarrow> nat \<Rightarrow> nat) \<Rightarrow> nat \<Rightarrow> nat \<Rightarrow> nat \<Rightarrow> nat \<Rightarrow> int \<Rightarrow> nat \<Rightarrow> nat \<Rightarrow> scheduler \<Rightarrow> scheduler result" where
  "setIdle junk make_fcontext stack pre xs tcb n cpu a s =
     rbind (PerCPU_deref cpu (idle s)) (\<lambda>i.
       if i \<noteq> 0 then Inr s
       else
         let s1 = UserThread junk make_fcontext stack pre xs tcb n a s
         in with_se a s1 (\<lambda>se. Inr ((put_se a (se\<lparr>onQueue := False\<rparr>) s1)\<lparr>idle := (idle s)[cpu := a]\<rparr>)))"

text \<open>\<open>umem\<close> are the user's \<open>int\<close> variables; the thread id is stored through the pointer.\<close>

definition set_tid_address :: "nat \<Rightarrow> nat \<Rightarrow> (nat \<Rightarrow> int) \<Rightarrow> scheduler \<Rightarrow> (int \<times> (nat \<Rightarrow> int) \<times> scheduler) result" where
  "set_tid_address cpu tidptr umem s =
     (case threads s (current s ! cpu) of
        None \<Rightarrow> Inl Wild
      | Some t \<Rightarrow>
          Inr (thread_id t, umem(tidptr := thread_id t),
               s\<lparr>threads := (threads s)(current s ! cpu \<mapsto> t\<lparr>clear_child_tid := tidptr\<rparr>)\<rparr>))"

text \<open>
  \<open>wake\<close> is the \<open>FUTEX_WAKE\<close> of one waiter on the address, which \<open>terminate\<close> calls. A call that
  switches away from a thread that is on no queue never comes back to it, so \<open>libos_exit_thread\<close> gets to
  its \<open>ud2\<close> only when \<open>schedule\<close> returns on the same thread.
\<close>

definition terminate ::
  "(nat \<Rightarrow> (nat \<Rightarrow> int) \<Rightarrow> scheduler \<Rightarrow> scheduler result) \<Rightarrow> nat \<Rightarrow> nat \<Rightarrow> nat \<Rightarrow> (nat \<Rightarrow> int) \<Rightarrow> scheduler \<Rightarrow>
   ((nat \<Rightarrow> int) \<times> scheduler) result option" where
  "terminate wake cpu saved this umem s =
     (case threads s this of
        None \<Rightarrow> Some (Inl Wild)
      | Some t \<Rightarrow>
          let umem1 = (if clear_child_tid t \<noteq> 0 then umem(clear_child_tid t := 0) else umem) in
          lbind (Some (if clear_child_tid t \<noteq> 0 then wake (clear_child_tid t) umem1 s else Inr s)) (\<lambda>s1.
          let s2 = s1\<lparr>inInterrupt := snd (disableInterrupt cpu (inInterrupt s1))\<rparr> in
          lbind (Some (dequeueTask (current s2 ! cpu) s2)) (\<lambda>s3.
          lbind (schedule cpu saved s3) (\<lambda>s4. Some (Inr (umem1, s4))))))"

definition libos_exit_thread ::
  "(nat \<Rightarrow> (nat \<Rightarrow> int) \<Rightarrow> scheduler \<Rightarrow> scheduler result) \<Rightarrow> nat \<Rightarrow> nat \<Rightarrow> (nat \<Rightarrow> int) \<Rightarrow> scheduler \<Rightarrow>
   ((nat \<Rightarrow> int) \<times> scheduler) result option" where
  "libos_exit_thread wake cpu saved umem s =
     (let cur = current s ! cpu in
      lbind (terminate wake cpu saved cur umem s) (\<lambda>(umem1, s1).
        if current s1 ! cpu = cur then Some (Inl Ud2) else Some (Inr (umem1, s1))))"

text \<open>
  \<open>__entry_helper\<close>, where a new thread starts. \<open>entry\<close> is what runs until the function of the thread
  returns: it ends on some CPU, with a context to leave behind.
\<close>

definition entry_helper ::
  "(nat \<Rightarrow> (nat \<Rightarrow> int) \<Rightarrow> scheduler \<Rightarrow> scheduler result) \<Rightarrow>
   (nat \<Rightarrow> (nat \<Rightarrow> int) \<Rightarrow> scheduler \<Rightarrow> (nat \<times> nat \<times> (nat \<Rightarrow> int) \<times> scheduler) result option) \<Rightarrow>
   nat \<Rightarrow> nat \<Rightarrow> nat \<Rightarrow> nat \<Rightarrow> (nat \<Rightarrow> int) \<Rightarrow> scheduler \<Rightarrow> ((nat \<Rightarrow> int) \<times> scheduler) result option" where
  "entry_helper wake entry cpu fctx prev cur umem s =
     lbind (Some (arrive cpu fctx prev cur s)) (\<lambda>s1.
     lbind (entry cur umem s1) (\<lambda>(cpu', saved, umem2, s2). terminate wake cpu' saved cur umem2 s2))"

section \<open>Waiting for a request\<close>

definition sleepWait_begin :: "nat \<Rightarrow> nat \<Rightarrow> scheduler \<Rightarrow> scheduler result" where
  "sleepWait_begin cpu req s =
     (let (intFlag, fl) = disableInterrupt cpu (inInterrupt s); s0 = s\<lparr>inInterrupt := fl\<rparr> in
      case requests s0 req of
        None \<Rightarrow> Inl Wild
      | Some r \<Rightarrow>
          let s1 = s0\<lparr>requests := (requests s0)(req \<mapsto> r\<lparr>owner := current s0 ! cpu\<rparr>)\<rparr> in
          rbind (dequeueTask (current s1 ! cpu) s1) (\<lambda>s2.
          rbind (PerCPU_deref cpu (eachWatchList s2)) (\<lambda>l.
          let s3 = s2\<lparr>eachWatchList := (eachWatchList s2)[cpu := req # l]\<rparr> in
          Inr (if \<not> intFlag then s3\<lparr>inInterrupt := enableInterrupt cpu (inInterrupt s3)\<rparr> else s3))))"

definition sleepWait :: "nat \<Rightarrow> nat \<Rightarrow> nat \<Rightarrow> scheduler \<Rightarrow> scheduler result option" where
  "sleepWait cpu saved req s = lbind (Some (sleepWait_begin cpu req s)) (schedule cpu saved)"

end
