(* ===== verification/Sched_Inv.thy ===== *)
theory Sched_Inv
  imports Sched
begin

text \<open>
  The scheduler under all interleavings of the CPUs. A state of \<open>sched_sys\<close> adds to the scheduler the
  place of each CPU in \<open>schedule\<close> (\<open>phase\<close>) and, for the proofs, the order in which the CPUs inside
  \<open>schedule\<close> went in (\<open>entered\<close>). The invariant gives that no thread is on two queues, none runs on
  two CPUs, no stack is used by two CPUs and no runnable thread is lost; and the order shows that the wait
  in \<open>jumpTo\<close> for the context of another CPU cannot be circular.
\<close>

section \<open>Interleavings\<close>

text \<open>
  \<open>Put p\<close>: the CPU has put the thread \<open>p\<close> back and has not chosen yet. \<open>Chosen p\<close>: it has chosen and
  has not jumped, so that it still runs on the stack of \<open>p\<close>.
\<close>

datatype phase = Run | Put nat | Chosen nat

record sched_sys =
  sys :: scheduler
  phase :: "nat \<Rightarrow> phase"
  entered :: "nat list"

definition sys_init :: "nat \<Rightarrow> sched_sys" where
  "sys_init n = \<lparr>sys = scheduler_init n, phase = (\<lambda>_. Run), entered = []\<rparr>"

definition stack_of :: "(nat \<Rightarrow> phase) \<Rightarrow> nat list \<Rightarrow> nat \<Rightarrow> nat" where
  "stack_of ph cur c = (case ph c of Run \<Rightarrow> cur ! c | Put p \<Rightarrow> p | Chosen p \<Rightarrow> p)"

definition enter :: "nat \<Rightarrow> nat \<Rightarrow> sched_sys \<Rightarrow> sched_sys" where
  "enter c p m = m\<lparr>phase := (phase m)(c := Put p), entered := entered m @ [c]\<rparr>"

definition leave :: "nat \<Rightarrow> sched_sys \<Rightarrow> sched_sys" where
  "leave c m = m\<lparr>phase := (phase m)(c := Run), entered := filter (\<lambda>d. d \<noteq> c) (entered m)\<rparr>"

text \<open>
  The constructor does not set the flags of a new entity. The steps that make a thread take memory that
  holds zeros there. \<open>Library\<close> is a step of the C library, which owns the thread control blocks;
  \<open>Submit\<close> and \<open>Finish\<close> are a new request and its completion by the server.
\<close>

inductive sched_step :: "sched_sys \<Rightarrow> sched_sys \<Rightarrow> bool" where
  Wake: "c < MAX_NUM_CPU \<Longrightarrow> phase m c = Run \<Longrightarrow> a \<notin> set (idle (sys m)) \<Longrightarrow>
    enqueueTask c a (sys m) = Inr s \<Longrightarrow> sched_step m (m\<lparr>sys := s\<rparr>)"
| Sleep: "c < MAX_NUM_CPU \<Longrightarrow> phase m c = Run \<Longrightarrow>
    dequeueTask (current (sys m) ! c) (sys m) = Inr s \<Longrightarrow> sched_step m (m\<lparr>sys := s\<rparr>)"
| Wait: "c < MAX_NUM_CPU \<Longrightarrow> phase m c = Run \<Longrightarrow>
    sleepWait_begin c rq (sys m) = Inr s \<Longrightarrow> sched_step m (m\<lparr>sys := s\<rparr>)"
| Watch: "c < MAX_NUM_CPU \<Longrightarrow> phase m c = Run \<Longrightarrow>
    watchListCheck c (sys m) = Inr s \<Longrightarrow> sched_step m (m\<lparr>sys := s\<rparr>)"
| Submit: "owner r = 0 \<Longrightarrow> sched_step m (m\<lparr>sys := (sys m)\<lparr>requests := (requests (sys m))(rq \<mapsto> r)\<rparr>\<rparr>)"
| Finish: "requests (sys m) rq = Some r \<Longrightarrow>
    sched_step m (m\<lparr>sys := (sys m)\<lparr>requests := (requests (sys m))(rq \<mapsto> setDone r)\<rparr>\<rparr>)"
| Library: "sched_step m (m\<lparr>sys := (sys m)\<lparr>tcbs := t\<rparr>\<rparr>)"
| New: "a \<noteq> 0 \<Longrightarrow> ents (sys m) a = None \<Longrightarrow> threads (sys m) a = None \<Longrightarrow> \<not> onQueue junk \<Longrightarrow> \<not> running junk \<Longrightarrow>
    sched_step m (m\<lparr>sys := UserThread junk mkf stk pre xs tcb n a (sys m)\<rparr>)"
| Clone: "c < MAX_NUM_CPU \<Longrightarrow> phase m c = Run \<Longrightarrow> a \<noteq> 0 \<Longrightarrow> ents (sys m) a = None \<Longrightarrow> threads (sys m) a = None \<Longrightarrow>
    \<not> onQueue junk \<Longrightarrow> \<not> running junk \<Longrightarrow>
    libos_clone junk junk_thread mkf stk pre xs tls n detach c a (sys m) = Inr s \<Longrightarrow> sched_step m (m\<lparr>sys := s\<rparr>)"
| Idle: "c < MAX_NUM_CPU \<Longrightarrow> phase m c = Run \<Longrightarrow> a \<noteq> 0 \<Longrightarrow> ents (sys m) a = None \<Longrightarrow> threads (sys m) a = None \<Longrightarrow>
    setIdle junk mkf stk pre xs tcb n c a (sys m) = Inr s \<Longrightarrow> sched_step m (m\<lparr>sys := s\<rparr>)"
| Put_Prev: "c < MAX_NUM_CPU \<Longrightarrow> phase m c = Run \<Longrightarrow> tick c (sys m) = Inr (True, t) \<Longrightarrow>
    put_prev c t = Inr s \<Longrightarrow> sched_step m (enter c (current (sys m) ! c) (m\<lparr>sys := s\<rparr>))"
| Balance: "c < MAX_NUM_CPU \<Longrightarrow> phase m c = Put p \<Longrightarrow> balance_one c i (sys m) = Inr (b, s) \<Longrightarrow>
    sched_step m (m\<lparr>sys := s\<rparr>)"
| Pick: "c < MAX_NUM_CPU \<Longrightarrow> phase m c = Put p \<Longrightarrow> pick c (sys m) = Inr s \<Longrightarrow>
    sched_step m (m\<lparr>sys := s, phase := (phase m)(c := Chosen p)\<rparr>)"
| Go_Idle: "c < MAX_NUM_CPU \<Longrightarrow> phase m c = Put p \<Longrightarrow> eachQueue (sys m) ! c = [] \<Longrightarrow>
    sched_step m (m\<lparr>sys := go_idle c (sys m), phase := (phase m)(c := Chosen p)\<rparr>)"
| Switch: "c < MAX_NUM_CPU \<Longrightarrow> phase m c = Chosen p \<Longrightarrow> switch c saved p (sys m) = Some (Inr s) \<Longrightarrow>
    sched_step m (leave c (m\<lparr>sys := s\<rparr>))"

inductive sched_reach :: "nat \<Rightarrow> sched_sys \<Rightarrow> bool" for n where
  Start: "sched_reach n (sys_init n)"
| Step: "sched_reach n m \<Longrightarrow> sched_step m m' \<Longrightarrow> sched_reach n m'"

section \<open>The invariant\<close>

definition queues_ok :: "nat list list \<Rightarrow> (nat \<rightharpoonup> sched_entity) \<Rightarrow> nat list \<Rightarrow> bool" where
  "queues_ok Q E I \<longleftrightarrow>
     (\<forall>c<MAX_NUM_CPU. distinct (Q ! c) \<and>
        (\<forall>a\<in>set (Q ! c). a \<notin> set I \<and> (\<exists>e. E a = Some e \<and> onQueue e \<and> \<not> running e \<and> se_queue e = Some c)))"

definition homes_ok :: "nat list list \<Rightarrow> (nat \<rightharpoonup> sched_entity) \<Rightarrow> nat list \<Rightarrow> bool" where
  "homes_ok Q E I \<longleftrightarrow>
     (\<forall>a e. E a = Some e \<longrightarrow> a \<notin> set I \<longrightarrow> onQueue e \<longrightarrow> \<not> running e \<longrightarrow> (\<exists>c<MAX_NUM_CPU. a \<in> set (Q ! c)))"

fun is_put :: "phase \<Rightarrow> bool" where
  "is_put (Put p) = True"
| "is_put _ = False"

definition home :: "sched_entity \<Rightarrow> nat option" where
  "home e = (if onQueue e then se_queue e else oldQueue e)"

definition current_ok :: "nat list \<Rightarrow> (nat \<rightharpoonup> sched_entity) \<Rightarrow> nat list \<Rightarrow> (nat \<Rightarrow> phase) \<Rightarrow> bool" where
  "current_ok cur E I ph \<longleftrightarrow>
     (\<forall>c<MAX_NUM_CPU. \<not> is_put (ph c) \<longrightarrow> cur ! c \<noteq> 0 \<longrightarrow> cur ! c \<notin> set I \<longrightarrow>
        (\<exists>e. E (cur ! c) = Some e \<and> running e \<and> home e = Some c))"

definition running_ok :: "nat list \<Rightarrow> (nat \<rightharpoonup> sched_entity) \<Rightarrow> nat list \<Rightarrow> (nat \<Rightarrow> phase) \<Rightarrow> bool" where
  "running_ok cur E I ph \<longleftrightarrow>
     (\<forall>a e. E a = Some e \<longrightarrow> a \<notin> set I \<longrightarrow> running e \<longrightarrow> (\<exists>c<MAX_NUM_CPU. \<not> is_put (ph c) \<and> cur ! c = a))"

definition idle_ok :: "nat list \<Rightarrow> (nat \<rightharpoonup> sched_entity) \<Rightarrow> nat list \<Rightarrow> (nat \<Rightarrow> phase) \<Rightarrow> bool" where
  "idle_ok cur E I ph \<longleftrightarrow>
     (\<forall>c<MAX_NUM_CPU. I ! c \<noteq> 0 \<longrightarrow>
        (\<exists>e. E (I ! c) = Some e \<and> \<not> onQueue e \<and> se_queue e = None) \<and>
        (\<forall>d<MAX_NUM_CPU. I ! d = I ! c \<or> cur ! d = I ! c \<or> stack_of ph cur d = I ! c \<longrightarrow> d = c))"

text \<open>\<open>good_in\<close> is what the context flags are, thread by thread.\<close>

definition good_in :: "(nat \<rightharpoonup> user_thread) \<Rightarrow> nat \<Rightarrow> bool option" where
  "good_in T a = map_option contextGood (T a)"

definition stacks_ok :: "(nat \<Rightarrow> nat) \<Rightarrow> (nat \<Rightarrow> bool option) \<Rightarrow> bool" where
  "stacks_ok st G \<longleftrightarrow>
     (\<forall>c<MAX_NUM_CPU. st c \<noteq> 0 \<longrightarrow> G (st c) = Some False \<and> (\<forall>d<MAX_NUM_CPU. st d = st c \<longrightarrow> d = c)) \<and>
     (\<forall>a. G a = Some False \<longrightarrow> (\<exists>c<MAX_NUM_CPU. st c = a))"

definition puts_ok :: "nat list \<Rightarrow> (nat \<Rightarrow> phase) \<Rightarrow> bool" where
  "puts_ok cur ph \<longleftrightarrow> (\<forall>c<MAX_NUM_CPU. \<forall>p. ph c = Put p \<longrightarrow> cur ! c = p)"

definition waits :: "nat list list \<Rightarrow> nat list \<Rightarrow> (nat \<Rightarrow> phase) \<Rightarrow> nat \<Rightarrow> nat set" where
  "waits Q cur ph c = set (Q ! c) \<union> (case ph c of Chosen p \<Rightarrow> {cur ! c} | _ \<Rightarrow> {})"

definition order_ok :: "nat list \<Rightarrow> nat list list \<Rightarrow> nat list \<Rightarrow> (nat \<Rightarrow> phase) \<Rightarrow> bool" where
  "order_ok L Q cur ph \<longleftrightarrow>
     distinct L \<and> (\<forall>c. c \<in> set L \<longleftrightarrow> c < MAX_NUM_CPU \<and> ph c \<noteq> Run) \<and>
     (\<forall>c\<in>set L. \<forall>d<MAX_NUM_CPU. d \<noteq> c \<longrightarrow> stack_of ph cur d \<noteq> 0 \<longrightarrow> stack_of ph cur d \<in> waits Q cur ph c \<longrightarrow>
        d \<in> set (takeWhile (\<lambda>x. x \<noteq> c) L))"

definition owners_ok :: "(nat \<rightharpoonup> request) \<Rightarrow> (nat \<rightharpoonup> sched_entity) \<Rightarrow> nat list \<Rightarrow> bool" where
  "owners_ok R E I \<longleftrightarrow>
     (\<forall>q r. R q = Some r \<longrightarrow> owner r \<noteq> 0 \<longrightarrow> owner r \<notin> set I \<and> E (owner r) \<noteq> None)"

definition inv_on ::
  "nat list list \<Rightarrow> (nat \<rightharpoonup> sched_entity) \<Rightarrow> nat list \<Rightarrow> nat list \<Rightarrow> (nat \<Rightarrow> bool option) \<Rightarrow> (nat \<Rightarrow> phase) \<Rightarrow>
   nat list \<Rightarrow> (nat \<rightharpoonup> request) \<Rightarrow> bool" where
  "inv_on Q E I cur G ph L R \<longleftrightarrow>
     length Q = MAX_NUM_CPU \<and> length cur = MAX_NUM_CPU \<and> length I = MAX_NUM_CPU \<and>
     0 \<notin> dom E \<and> dom E = dom G \<and>
     queues_ok Q E I \<and> homes_ok Q E I \<and> current_ok cur E I ph \<and> running_ok cur E I ph \<and> idle_ok cur E I ph \<and>
     stacks_ok (stack_of ph cur) G \<and> puts_ok cur ph \<and> order_ok L Q cur ph \<and> owners_ok R E I"

definition sched_inv :: "sched_sys \<Rightarrow> bool" where
  "sched_inv m \<longleftrightarrow>
     inv_on (eachQueue (sys m)) (ents (sys m)) (idle (sys m)) (current (sys m)) (good_in (threads (sys m)))
       (phase m) (entered m) (requests (sys m))"

section \<open>What the operations change\<close>

lemmas sched_ops = with_se_def put_se_def put_queue_def PerCPU_deref_def LIBOS_ASSERT_def rbind_eq_Inr Let_def

lemma enqueueTask_effect:
  assumes "enqueueTask c a s = Inr s'"
  shows "\<exists>e. ents s a = Some e \<and> \<not> onQueue e \<and> c < length (eachQueue s) \<and>
    s' = s\<lparr>ents := (ents s)(a \<mapsto> e\<lparr>se_queue := if running e then oldQueue e else Some c, oldQueue := None, onQueue := True\<rparr>),
           eachQueue := (if running e then eachQueue s else (eachQueue s)[c := eachQueue s ! c @ [a]]),
           numTotalThread := numTotalThread s + 1\<rparr>"
  using assms by (auto simp: enqueueTask_def schedNotify_def sched_ops split: option.splits if_splits)

lemma dequeueTask_effect:
  assumes "dequeueTask a s = Inr s'"
  shows "\<exists>e q. ents s a = Some e \<and> onQueue e \<and> se_queue e = Some q \<and> q < length (eachQueue s) \<and>
    s' = s\<lparr>ents := (ents s)(a \<mapsto> e\<lparr>oldQueue := Some q, se_queue := None, onQueue := False\<rparr>),
           eachQueue := (if running e then eachQueue s else (eachQueue s)[q := remove1 a (eachQueue s ! q)]),
           numTotalThread := numTotalThread s - 1\<rparr>"
  using assms by (auto simp: dequeueTask_def sched_ops split: option.splits if_splits)

lemma put_prev_effect:
  assumes "tick c s = Inr (True, s1)" "put_prev c s1 = Inr s'" "current s ! c \<noteq> 0"
  shows "\<exists>e. ents s (current s ! c) = Some e \<and> (onQueue e \<longrightarrow> (\<exists>q<length (eachQueue s). se_queue e = Some q)) \<and>
    s' = s\<lparr>ents := (ents s)(current s ! c \<mapsto> e\<lparr>timeSlot := 0, running := False\<rparr>),
           eachQueue := (if onQueue e then (eachQueue s)[the (se_queue e) := eachQueue s ! the (se_queue e) @ [current s ! c]]
                         else eachQueue s)\<rparr>"
proof -
  obtain e where e: "ents s (current s ! c) = Some e"
    using assms(1,3) by (auto simp: tick_def sched_ops split: option.splits)
  show ?thesis
    by (rule exI [of _ e]) (use assms e in \<open>auto simp: tick_def put_prev_def sched_ops split: option.splits if_splits\<close>)
qed

lemma put_prev_none:
  assumes "tick c s = Inr (True, s1)" "put_prev c s1 = Inr s'" "current s ! c = 0"
  shows "s' = s"
  using assms by (auto simp: tick_def put_prev_def Let_def)

lemma first_movable_Some:
  "first_movable s q = Inr (Some a) \<Longrightarrow>
     a \<in> set q \<and> (\<exists>e t. ents s a = Some e \<and> threads s a = Some t \<and> \<not> running e \<and> contextGood t)"
  by (induction q) (auto simp: with_se_def split: option.splits if_splits)

lemma balance_one_effect:
  assumes "balance_one c i s = Inr (b, s')" "c < length (eachQueue s)"
  shows "s' = s \<or> (\<exists>a e t. i < length (eachQueue s) \<and> i \<noteq> c \<and> a \<in> set (eachQueue s ! i) \<and> ents s a = Some e \<and> threads s a = Some t \<and>
    \<not> running e \<and> contextGood t \<and>
    s' = s\<lparr>eachQueue := (eachQueue s)[i := remove1 a (eachQueue s ! i), c := eachQueue s ! c @ [a]],
           ents := (ents s)(a \<mapsto> e\<lparr>se_queue := Some c\<rparr>)\<rparr>)"
proof (cases "i < length (eachQueue s) \<and> i \<noteq> c \<and> eachQueue s ! i \<noteq> []")
  case False
  then show ?thesis using assms by (auto simp: balance_one_def PerCPU_deref_def rbind_eq_Inr split: if_splits)
next
  case True
  then obtain it where it: "first_movable s (eachQueue s ! i) = Inr it"
    using assms by (auto simp: balance_one_def PerCPU_deref_def rbind_eq_Inr)
  show ?thesis
  proof (cases it)
    case None
    then show ?thesis using True it assms by (auto simp: balance_one_def PerCPU_deref_def)
  next
    case (Some a)
    with first_movable_Some it obtain e t where a: "a \<in> set (eachQueue s ! i)" "ents s a = Some e"
      "threads s a = Some t" "\<not> running e" "contextGood t" by blast
    show ?thesis
      by (intro disjI2 exI [of _ a] exI [of _ e] exI [of _ t]) (use Some True it assms a in \<open>auto simp: balance_one_def sched_ops\<close>)
  qed
qed

lemma pick_effect:
  assumes "pick c s = Inr s'"
  shows "\<exists>a q e. eachQueue s ! c = a # q \<and> ents s a = Some e \<and>
    s' = s\<lparr>ents := (ents s)(a \<mapsto> e\<lparr>running := True\<rparr>), eachQueue := (eachQueue s)[c := q],
           current := (current s)[c := a]\<rparr>"
  using assms by (auto simp: pick_def sched_ops split: option.splits list.splits)

lemma arrive_effect:
  assumes "arrive c saved prev cur s = Inr s'"
  shows "ents s' = ents s \<and> eachQueue s' = eachQueue s \<and> eachWatchList s' = eachWatchList s \<and> current s' = current s \<and>
    idle s' = idle s \<and> requests s' = requests s \<and>
    good_in (threads s') = (if prev = 0 then good_in (threads s) else (good_in (threads s))(prev \<mapsto> True)) \<and>
    (prev \<noteq> 0 \<longrightarrow> threads s prev \<noteq> None)"
  using assms by (auto simp: arrive_def rbind_eq_Inr Let_def good_in_def fun_eq_iff split: option.splits if_splits)

lemma switch_effect:
  assumes "switch c saved prev s = Some (Inr s')" "current s ! c \<noteq> prev"
  shows "current s ! c \<noteq> 0 \<and> good_in (threads s) (current s ! c) = Some True \<and>
    ents s' = ents s \<and> eachQueue s' = eachQueue s \<and> eachWatchList s' = eachWatchList s \<and> current s' = current s \<and>
    idle s' = idle s \<and> requests s' = requests s \<and> (prev \<noteq> 0 \<longrightarrow> threads s prev \<noteq> None) \<and>
    good_in (threads s') = (let G = (good_in (threads s))(current s ! c \<mapsto> False) in if prev = 0 then G else G(prev \<mapsto> True))"
  using assms
  by (auto simp: switch_def jumpTo_def rbind_eq_Inr Let_def good_in_def setFSReg_def fun_eq_iff
      dest!: arrive_effect split: option.splits if_splits)

lemma switch_same:
  assumes "switch c saved prev s = Some (Inr s')" "current s ! c = prev"
  shows "s' = s\<lparr>inInterrupt := enableInterrupt c (inInterrupt s)\<rparr>"
  using assms by (auto simp: switch_def)

section \<open>The invariant under the changes\<close>

lemma in_queues_update:
  "length Q = n \<Longrightarrow> c < n \<Longrightarrow> (\<exists>d<n. x \<in> set (Q[c := q] ! d)) \<longleftrightarrow> x \<in> set q \<or> (\<exists>d<n. d \<noteq> c \<and> x \<in> set (Q ! d))"
  by (auto simp: nth_list_update)

lemma in_queues_push:
  "length Q = n \<Longrightarrow> c < n \<Longrightarrow> (\<exists>d<n. x \<in> set (Q[c := Q ! c @ [a]] ! d)) \<longleftrightarrow> x = a \<or> (\<exists>d<n. x \<in> set (Q ! d))"
  by (auto simp: in_queues_update)

text \<open>A change of one entity that is on no queue, chosen by no CPU and idle on none.\<close>

lemma inv_entity:
  assumes inv: "inv_on Q E I cur G ph L R" and a: "E a = Some e" "a \<notin> set I"
    and q: "onQueue e' \<Longrightarrow> running e'" "onQueue e \<Longrightarrow> running e"
    and r: "running e' = running e" "running e \<Longrightarrow> home e' = home e"
  shows "inv_on Q (E(a \<mapsto> e')) I cur G ph L R"
proof -
  note i = inv [unfolded inv_on_def]
  have idl: "I ! d \<noteq> a" if "d < MAX_NUM_CPU" for d
    using i that a(2) nth_mem by metis
  have Q: "queues_ok Q E I" and H: "homes_ok Q E I" and C: "current_ok cur E I ph" and N: "running_ok cur E I ph"
    and D: "idle_ok cur E I ph" and O: "owners_ok R E I"
    using i by blast+
  show ?thesis unfolding inv_on_def
  proof (intro conjI)
    show "queues_ok Q (E(a \<mapsto> e')) I" using Q q(2) a unfolding queues_ok_def by fastforce
    show "homes_ok Q (E(a \<mapsto> e')) I" using H q(1) unfolding homes_ok_def by auto
    show "current_ok cur (E(a \<mapsto> e')) I ph" using C r a unfolding current_ok_def by fastforce
    show "running_ok cur (E(a \<mapsto> e')) I ph" using N r a unfolding running_ok_def by auto
    show "idle_ok cur (E(a \<mapsto> e')) I ph" using D idl unfolding idle_ok_def by auto
    show "owners_ok R (E(a \<mapsto> e')) I" using O unfolding owners_ok_def by auto
    show "0 \<notin> dom (E(a \<mapsto> e'))" "dom (E(a \<mapsto> e')) = dom G"
      using i a by (auto simp: insert_absorb)
  qed (use i in auto)
qed

text \<open>A thread that is on no queue goes to the end of one; \<open>c\<close> is not in \<open>schedule\<close>, or it is on the
  stack of that thread itself.\<close>

lemma inv_push:
  assumes inv: "inv_on Q E I cur G ph L R" and c: "c < MAX_NUM_CPU"
    and a: "a \<notin> set I" "E a = Some e" "onQueue e \<Longrightarrow> running e" "\<not> running e"
    and e': "onQueue e'" "\<not> running e'" "se_queue e' = Some c" 
    and L: "c \<notin> set L \<or> (\<forall>d<MAX_NUM_CPU. stack_of ph cur d = a \<longrightarrow> d = c)"
  shows "inv_on (Q[c := Q ! c @ [a]]) (E(a \<mapsto> e')) I cur G ph L R"
proof -
  note i = inv [unfolded inv_on_def]
  have len: "length Q = MAX_NUM_CPU" using i by simp
  have new: "a \<notin> set (Q ! d)" if "d < MAX_NUM_CPU" for d
    using i that a unfolding queues_ok_def by fastforce
  have cur: "cur ! d \<noteq> a" if "d < MAX_NUM_CPU" "\<not> is_put (ph d)" "a \<noteq> 0" for d
    using i that a unfolding current_ok_def by (metis option.inject option.distinct(1))
  have idl: "I ! d \<noteq> a" if "d < MAX_NUM_CPU" for d
    using i that a(1) nth_mem by metis
  have Q: "queues_ok Q E I" and H: "homes_ok Q E I" and C: "current_ok cur E I ph" and N: "running_ok cur E I ph"
    and D: "idle_ok cur E I ph" and O: "owners_ok R E I" and L': "order_ok L Q cur ph"
    using i by blast+
  show ?thesis unfolding inv_on_def
  proof (intro conjI)
    show "queues_ok (Q[c := Q ! c @ [a]]) (E(a \<mapsto> e')) I"
      using Q new a e' c len unfolding queues_ok_def by (auto simp: nth_list_update)
    show "homes_ok (Q[c := Q ! c @ [a]]) (E(a \<mapsto> e')) I"
      using H unfolding homes_ok_def in_queues_push [OF len c] by auto
    show "current_ok cur (E(a \<mapsto> e')) I ph"
      using C cur unfolding current_ok_def by auto
    show "running_ok cur (E(a \<mapsto> e')) I ph"
      using N e' unfolding running_ok_def by auto
    show "idle_ok cur (E(a \<mapsto> e')) I ph"
      using D idl unfolding idle_ok_def by auto
    show "order_ok L (Q[c := Q ! c @ [a]]) cur ph"
      using L' L c len unfolding order_ok_def waits_def by (auto simp: nth_list_update)
    show "owners_ok R (E(a \<mapsto> e')) I"
      using O unfolding owners_ok_def by auto
    show "0 \<notin> dom (E(a \<mapsto> e'))" "dom (E(a \<mapsto> e')) = dom G"
      using i a by (auto simp: insert_absorb)
  qed (use i in auto)
qed

lemma takeWhile_filter:
  "d \<in> set (takeWhile (\<lambda>x. x \<noteq> c) L) \<Longrightarrow> d \<noteq> b \<Longrightarrow> c \<noteq> b \<Longrightarrow> d \<in> set (takeWhile (\<lambda>x. x \<noteq> c) (filter (\<lambda>x. x \<noteq> b) L))"
  by (induction L) (auto split: if_splits)

lemma waiting_is_inside:
  assumes inv: "inv_on Q E I cur G ph L R" and c: "c < MAX_NUM_CPU" and d: "d < MAX_NUM_CPU" "stack_of ph cur d \<in> set (Q ! c)"
  shows "d \<in> set L"
proof (rule ccontr)
  assume "d \<notin> set L"
  with inv d(1) have r: "ph d = Run" unfolding inv_on_def order_ok_def by auto
  have s: "cur ! d \<in> set (Q ! c)" using d(2) r by (simp add: stack_of_def)
  obtain e where e: "E (cur ! d) = Some e" "\<not> running e" "cur ! d \<notin> set I"
    using inv c s unfolding inv_on_def queues_ok_def by blast
  have "cur ! d \<noteq> 0" using inv e(1) unfolding inv_on_def by (metis domI)
  then show False using inv d(1) r e unfolding inv_on_def current_ok_def by fastforce
qed

lemma order_enter:
  assumes inv: "inv_on Q E I cur G ph L R" and c: "c < MAX_NUM_CPU" "ph c = Run"
  shows "order_ok (L @ [c]) Q cur (ph(c := Put (cur ! c)))"
proof -
  let ?p = "ph(c := Put (cur ! c))"
  have L: "order_ok L Q cur ph" using inv unfolding inv_on_def by blast
  have st: "stack_of ?p cur = stack_of ph cur" using c by (auto simp: stack_of_def fun_eq_iff)
  have notL: "c \<notin> set L" using L c unfolding order_ok_def by auto
  show ?thesis unfolding order_ok_def st
  proof (intro conjI ballI allI impI)
    fix b d assume b: "b \<in> set (L @ [c])" and d: "d < MAX_NUM_CPU" "d \<noteq> b" "stack_of ph cur d \<noteq> 0" "stack_of ph cur d \<in> waits Q cur ?p b"
    show "d \<in> set (takeWhile (\<lambda>x. x \<noteq> b) (L @ [c]))"
    proof (cases "b = c")
      case True
      have "d \<in> set L" using waiting_is_inside [OF inv c(1) d(1)] d(4) True by (simp add: waits_def)
      then show ?thesis using notL True by (auto simp: takeWhile_append)
    next
      case False
      then have "b \<in> set L" "stack_of ph cur d \<in> waits Q cur ph b" using b d(4) by (auto simp: waits_def)
      then show ?thesis using L d(1-3) unfolding order_ok_def by (auto simp: takeWhile_append)
    qed
  qed (use L c in \<open>auto simp: order_ok_def\<close>)
qed

lemma inv_enter:
  assumes inv: "inv_on Q E I cur G ph L R" and c: "c < MAX_NUM_CPU" "ph c = Run"
    and E': "E' = (if cur ! c = 0 then E else E(cur ! c \<mapsto> e'))"
    and e': "\<not> running e'" "\<not> onQueue e'" "cur ! c \<in> set I \<Longrightarrow> se_queue e' = None"
  shows "inv_on Q E' I cur G (ph(c := Put (cur ! c))) (L @ [c]) R"
proof -
  let ?p = "ph(c := Put (cur ! c))"
  note i = inv [unfolded inv_on_def]
  have Q: "queues_ok Q E I" and H: "homes_ok Q E I" and C: "current_ok cur E I ph" and N: "running_ok cur E I ph"
    and D: "idle_ok cur E I ph" and O: "owners_ok R E I" and L: "order_ok L Q cur ph" and S: "stacks_ok (stack_of ph cur) G"
    using i by blast+
  have st: "stack_of ?p cur = stack_of ph cur" using c by (auto simp: stack_of_def fun_eq_iff)
  have notq: "cur ! c \<notin> set (Q ! d)" if "d < MAX_NUM_CPU" for d
    using waiting_is_inside [OF inv that c(1)] c(2) L unfolding order_ok_def stack_of_def by auto
  have other: "cur ! d \<noteq> cur ! c" if "d < MAX_NUM_CPU" "d \<noteq> c" "\<not> is_put (ph d)" "cur ! c \<noteq> 0" "cur ! c \<notin> set I" for d
    using C that c unfolding current_ok_def by (metis is_put.simps(2) option.inject)
  have inE: "cur ! c \<in> dom E" if "cur ! c \<noteq> 0"
    using S that c i unfolding stacks_ok_def stack_of_def by force
  show ?thesis unfolding inv_on_def st
  proof (intro conjI)
    show "queues_ok Q E' I" using Q notq unfolding queues_ok_def E' by auto
    show "homes_ok Q E' I" using H e' unfolding homes_ok_def E' by auto
    show "current_ok cur E' I ?p" using C other unfolding current_ok_def E' by auto
    show "running_ok cur E' I ?p" unfolding running_ok_def
    proof (intro allI impI)
      fix a e assume a: "E' a = Some e" "a \<notin> set I" "running e"
      have a': "a \<noteq> cur ! c" "E a = Some e" using a e' i unfolding E' by (auto split: if_splits)
      then obtain d where "d < MAX_NUM_CPU" "\<not> is_put (ph d)" "cur ! d = a" using N a(2,3) unfolding running_ok_def by blast
      then show "\<exists>d<MAX_NUM_CPU. \<not> is_put (?p d) \<and> cur ! d = a" using a'(1) by (intro exI [of _ d]) auto
    qed
    show "idle_ok cur E' I ?p" unfolding idle_ok_def st
    proof (intro allI impI conjI)
      fix d assume d: "d < MAX_NUM_CPU" "I ! d \<noteq> 0"
      have "I ! d \<in> set I" using d(1) i by simp
      then show "\<exists>e. E' (I ! d) = Some e \<and> \<not> onQueue e \<and> se_queue e = None"
        using D d e' unfolding E' idle_ok_def by (cases "I ! d = cur ! c") auto
    qed (use D in \<open>auto simp: idle_ok_def\<close>)
    show "puts_ok cur ?p" using i unfolding puts_ok_def by auto
    show "owners_ok R E' I" using O unfolding owners_ok_def E' by auto
    show "order_ok (L @ [c]) Q cur ?p" by (rule order_enter [OF inv c])

    show "0 \<notin> dom E'" "dom E' = dom G" using i inE unfolding E' by (auto simp: insert_absorb)
  qed (use i in auto)
qed

lemma inv_balance:
  assumes inv: "inv_on Q E I cur G ph L R" and c: "c < MAX_NUM_CPU" "i < MAX_NUM_CPU" "i \<noteq> c"
    and a: "a \<in> set (Q ! i)" "E a = Some e" "G a = Some True"
  shows "inv_on (Q[i := remove1 a (Q ! i), c := Q ! c @ [a]]) (E(a \<mapsto> e\<lparr>se_queue := Some c\<rparr>)) I cur G ph L R"
proof -
  let ?Q = "Q[i := remove1 a (Q ! i), c := Q ! c @ [a]]" and ?E = "E(a \<mapsto> e\<lparr>se_queue := Some c\<rparr>)"
  note i = inv [unfolded inv_on_def]
  have Q: "queues_ok Q E I" and H: "homes_ok Q E I" and C: "current_ok cur E I ph" and N: "running_ok cur E I ph"
    and D: "idle_ok cur E I ph" and O: "owners_ok R E I" and L: "order_ok L Q cur ph" and S: "stacks_ok (stack_of ph cur) G"
    and len: "length Q = MAX_NUM_CPU" "length I = MAX_NUM_CPU"
    using i by blast+
  have e: "onQueue e" "\<not> running e" "a \<notin> set I" "se_queue e = Some i" "distinct (Q ! i)"
    using Q a c unfolding queues_ok_def by fastforce+
  have idl: "I ! d \<noteq> a" if "d < MAX_NUM_CPU" for d
    using len that e(3) nth_mem by metis
  have st: "stack_of ph cur d \<noteq> a" if "d < MAX_NUM_CPU" "stack_of ph cur d \<noteq> 0" for d
    using S that a(3) unfolding stacks_ok_def by fastforce
  have other: "a \<notin> set (Q ! d)" if "d < MAX_NUM_CPU" "d \<noteq> i" for d
    using Q that a(2) e unfolding queues_ok_def by fastforce
  have Qd: "set (?Q ! d) = (if d = c then insert a (set (Q ! c)) else set (Q ! d) - {a})" if "d < MAX_NUM_CPU" for d
    using that c len e(5) other by (auto simp: nth_list_update)
  show ?thesis unfolding inv_on_def
  proof (intro conjI)
    show "queues_ok ?Q ?E I" unfolding queues_ok_def
    proof (intro allI impI conjI ballI)
      fix d assume d: "d < MAX_NUM_CPU"
      show "distinct (?Q ! d)" using Q d c len e(5) other by (auto simp: nth_list_update queues_ok_def)
      fix x assume "x \<in> set (?Q ! d)"
      then have x: "if d = c then x = a \<or> x \<in> set (Q ! c) else x \<in> set (Q ! d) \<and> x \<noteq> a" using Qd [OF d] by auto
      then show "x \<notin> set I" using Q d e(3) unfolding queues_ok_def by (auto split: if_splits)
      show "\<exists>e. ?E x = Some e \<and> onQueue e \<and> \<not> running e \<and> se_queue e = Some d"
        using x Q d e unfolding queues_ok_def by (auto split: if_splits)
    qed
    show "homes_ok ?Q ?E I" unfolding homes_ok_def
    proof (intro allI impI)
      fix x e' assume x: "?E x = Some e'" "x \<notin> set I" "onQueue e'" "\<not> running e'"
      show "\<exists>d<MAX_NUM_CPU. x \<in> set (?Q ! d)"
      proof (cases "x = a")
        case True then show ?thesis using c Qd by auto
      next
        case False
        then obtain d where "d < MAX_NUM_CPU" "x \<in> set (Q ! d)" using H x unfolding homes_ok_def by auto
        then show ?thesis using False Qd by auto
      qed
    qed
    show "current_ok cur ?E I ph" using C a e unfolding current_ok_def by fastforce
    show "running_ok cur ?E I ph" using N e unfolding running_ok_def by auto
    show "idle_ok cur ?E I ph" using D idl unfolding idle_ok_def by auto
    show "owners_ok R ?E I" using O unfolding owners_ok_def by auto
    show "order_ok L ?Q cur ph"
      using L st Qd unfolding order_ok_def waits_def by (auto split: if_splits)
    show "0 \<notin> dom ?E" "dom ?E = dom G" using i a by (auto simp: insert_absorb)
  qed (use i in auto)
qed

lemma inv_pick:
  assumes inv: "inv_on Q E I cur G ph L R" and c: "c < MAX_NUM_CPU" "ph c = Put p"
    and a: "Q ! c = a # q" "E a = Some e"
  shows "inv_on (Q[c := q]) (E(a \<mapsto> e\<lparr>running := True\<rparr>)) I (cur[c := a]) G (ph(c := Chosen p)) L R"
proof -
  let ?Q = "Q[c := q]" and ?E = "E(a \<mapsto> e\<lparr>running := True\<rparr>)" and ?cur = "cur[c := a]" and ?p = "ph(c := Chosen p)"
  note i = inv [unfolded inv_on_def]
  have Q: "queues_ok Q E I" and H: "homes_ok Q E I" and C: "current_ok cur E I ph" and N: "running_ok cur E I ph"
    and D: "idle_ok cur E I ph" and O: "owners_ok R E I" and L: "order_ok L Q cur ph" and P: "puts_ok cur ph"
    and len: "length Q = MAX_NUM_CPU" "length I = MAX_NUM_CPU" "length cur = MAX_NUM_CPU"
    using i by blast+
  have e: "onQueue e" "\<not> running e" "a \<notin> set I" "se_queue e = Some c" "distinct (Q ! c)"
    using Q a c unfolding queues_ok_def by fastforce+
  have idl: "I ! d \<noteq> a" if "d < MAX_NUM_CPU" for d
    using len that e(3) nth_mem by metis
  have st: "stack_of ?p ?cur = stack_of ph cur" using c by (auto simp: stack_of_def fun_eq_iff split: phase.splits)
  have other: "a \<notin> set (Q ! d)" if "d < MAX_NUM_CPU" "d \<noteq> c" for d
    using Q that a(2) e unfolding queues_ok_def by fastforce
  have w: "waits ?Q ?cur ?p d = waits Q cur ph d" if "d < MAX_NUM_CPU" for d
    using that c a len by (auto simp: waits_def nth_list_update split: phase.splits)
  show ?thesis unfolding inv_on_def st
  proof (intro conjI)
    show "queues_ok ?Q ?E I" using Q a c e len other unfolding queues_ok_def by (auto simp: nth_list_update)
    show "homes_ok ?Q ?E I" unfolding homes_ok_def
    proof (intro allI impI)
      fix x e' assume x: "?E x = Some e'" "x \<notin> set I" "onQueue e'" "\<not> running e'"
      then have ne: "x \<noteq> a" by auto
      then obtain d where d: "d < MAX_NUM_CPU" "x \<in> set (Q ! d)" using H x unfolding homes_ok_def by auto
      then show "\<exists>d<MAX_NUM_CPU. x \<in> set (?Q ! d)" using ne a len by (intro exI [of _ d]) (cases "d = c", auto)
    qed
    show "current_ok ?cur ?E I ?p"
      using C c e len a unfolding current_ok_def by (fastforce simp: nth_list_update home_def)
    show "running_ok ?cur ?E I ?p" unfolding running_ok_def
    proof (intro allI impI)
      fix x e' assume x: "?E x = Some e'" "x \<notin> set I" "running e'"
      show "\<exists>d<MAX_NUM_CPU. \<not> is_put (?p d) \<and> ?cur ! d = x"
      proof (cases "x = a")
        case True then show ?thesis using c len by (intro exI [of _ c]) auto
      next
        case False
        then obtain d where d: "d < MAX_NUM_CPU" "\<not> is_put (ph d)" "cur ! d = x" using N x unfolding running_ok_def by auto
        then have "d \<noteq> c" using c by auto
        then show ?thesis using d by (intro exI [of _ d]) auto
      qed
    qed
    show "idle_ok ?cur ?E I ?p" using D idl len c(1) unfolding idle_ok_def st by (auto simp: nth_list_update split: if_splits)
    show "puts_ok ?cur ?p" using P len unfolding puts_ok_def by auto
    show "owners_ok R ?E I" using O unfolding owners_ok_def by auto
    show "order_ok L ?Q ?cur ?p" using L c w unfolding order_ok_def st by auto
    show "0 \<notin> dom ?E" "dom ?E = dom G" using i a by (auto simp: insert_absorb)
  qed (use i in auto)
qed

lemma inv_go_idle:
  assumes inv: "inv_on Q E I cur G ph L R" and c: "c < MAX_NUM_CPU" "ph c = Put p"
  shows "inv_on Q E I (cur[c := I ! c]) G (ph(c := Chosen p)) L R"
proof -
  let ?cur = "cur[c := I ! c]" and ?p = "ph(c := Chosen p)"
  note i = inv [unfolded inv_on_def]
  have Q: "queues_ok Q E I" and C: "current_ok cur E I ph" and N: "running_ok cur E I ph"
    and D: "idle_ok cur E I ph" and L: "order_ok L Q cur ph" and P: "puts_ok cur ph"
    and len: "length I = MAX_NUM_CPU" "length cur = MAX_NUM_CPU"
    using i by blast+
  have st: "stack_of ?p ?cur = stack_of ph cur" using c by (auto simp: stack_of_def fun_eq_iff split: phase.splits)
  have mem: "I ! c \<in> set I" using c len by simp
  have w: "stack_of ph cur d \<in> waits Q cur ph b"
    if "stack_of ph cur d \<in> waits Q ?cur ?p b" "d \<noteq> b" "d < MAX_NUM_CPU" "stack_of ph cur d \<noteq> 0" for b d
  proof (cases "b = c \<and> stack_of ph cur d = I ! c")
    case True
    then have "d = c" using D that(3,4) c unfolding idle_ok_def by metis
    then show ?thesis using True that(2) by simp
  next
    case False
    then show ?thesis using that(1) c by (auto simp: waits_def len split: phase.splits if_splits)
  qed
  show ?thesis unfolding inv_on_def st
  proof (intro conjI)
    show "current_ok ?cur E I ?p" using C c mem len unfolding current_ok_def by (auto simp: nth_list_update)
    show "running_ok ?cur E I ?p" unfolding running_ok_def
    proof (intro allI impI)
      fix x e assume x: "E x = Some e" "x \<notin> set I" "running e"
      then obtain d where d: "d < MAX_NUM_CPU" "\<not> is_put (ph d)" "cur ! d = x" using N unfolding running_ok_def by blast
      then have "d \<noteq> c" using c by auto
      then show "\<exists>d<MAX_NUM_CPU. \<not> is_put (?p d) \<and> ?cur ! d = x" using d by (intro exI [of _ d]) auto
    qed
    show "idle_ok ?cur E I ?p" using D c(1) len unfolding idle_ok_def st by (auto simp: nth_list_update split: if_splits)
    show "puts_ok ?cur ?p" using P len unfolding puts_ok_def by auto
    show "order_ok L Q ?cur ?p" using L c w unfolding order_ok_def st by auto
  qed (use i in auto)
qed

lemma stacks_leave:
  assumes S: "stacks_ok st G" and c: "c < MAX_NUM_CPU" and z: "0 \<notin> dom G"
    and G: "if x = st c then G' = G
            else x \<noteq> 0 \<and> G x = Some True \<and> (st c \<noteq> 0 \<longrightarrow> G (st c) \<noteq> None) \<and>
                 G' = (let H = G(x \<mapsto> False) in if st c = 0 then H else H(st c \<mapsto> True))"
  shows "stacks_ok (st(c := x)) G'"
proof (cases "x = st c")
  case True
  then show ?thesis using S G by simp
next
  case False
  then have x: "x \<noteq> 0" "G x = Some True" and G': "G' = (let H = G(x \<mapsto> False) in if st c = 0 then H else H(st c \<mapsto> True))"
    using G by auto
  have free: "st d \<noteq> x" if "d < MAX_NUM_CPU" for d
    using S that x unfolding stacks_ok_def by fastforce
  have G'': "G' y = (if y = x then Some False else if y = st c \<and> y \<noteq> 0 then Some True else G y)" for y
    using False unfolding G' by (auto simp: Let_def)
  show ?thesis unfolding stacks_ok_def
  proof (intro conjI allI impI)
    fix d assume d: "d < MAX_NUM_CPU" "(st(c := x)) d \<noteq> 0"
    show "G' ((st(c := x)) d) = Some False"
      using S d c free unfolding stacks_ok_def G'' by (auto split: if_splits)
    show "b = d" if "b < MAX_NUM_CPU" "(st(c := x)) b = (st(c := x)) d" for b
      using S d c free that unfolding stacks_ok_def by (auto split: if_splits)
  next
    fix a assume a: "G' a = Some False"
    show "\<exists>d<MAX_NUM_CPU. (st(c := x)) d = a"
    proof (cases "a = x")
      case True then show ?thesis using c by (intro exI [of _ c]) simp
    next
      case False
      with a have a': "G a = Some False" "\<not> (a = st c \<and> a \<noteq> 0)" unfolding G'' by (auto split: if_splits)
      then have "a \<noteq> 0" using z by auto
      moreover obtain d where "d < MAX_NUM_CPU" "st d = a" using S a'(1) unfolding stacks_ok_def by blast
      ultimately have "d < MAX_NUM_CPU" "(st(c := x)) d = a" using a'(2) by auto
      then show ?thesis by blast
    qed
  qed
qed

lemma order_leave:
  assumes L: "order_ok L Q cur ph" and c: "c < MAX_NUM_CPU" "ph c = Chosen p"
    and w: "\<And>b. b \<in> set L \<Longrightarrow> b \<noteq> c \<Longrightarrow> cur ! c \<noteq> 0 \<Longrightarrow> cur ! c \<notin> waits Q cur ph b"
  shows "order_ok (filter (\<lambda>d. d \<noteq> c) L) Q cur (ph(c := Run))"
  unfolding order_ok_def
proof (intro conjI allI ballI impI)
  let ?p = "ph(c := Run)"
  fix b d assume b: "b \<in> set (filter (\<lambda>d. d \<noteq> c) L)" and d: "d < MAX_NUM_CPU" "d \<noteq> b" "stack_of ?p cur d \<noteq> 0"
    "stack_of ?p cur d \<in> waits Q cur ?p b"
  have wb: "waits Q cur ?p b = waits Q cur ph b" using b by (simp add: waits_def)
  have dc: "d \<noteq> c" using w [of b] b d wb by (auto simp: stack_of_def)
  then have "stack_of ?p cur d = stack_of ph cur d" by (simp add: stack_of_def)
  then have "d \<in> set (takeWhile (\<lambda>x. x \<noteq> b) L)" using L b d wb unfolding order_ok_def by auto
  then show "d \<in> set (takeWhile (\<lambda>x. x \<noteq> b) (filter (\<lambda>d. d \<noteq> c) L))" using dc b by (intro takeWhile_filter) auto
qed (use L in \<open>auto simp: order_ok_def\<close>)

lemma inv_leave:
  assumes inv: "inv_on Q E I cur G ph L R" and c: "c < MAX_NUM_CPU" "ph c = Chosen p"
    and G: "if cur ! c = p then G' = G
            else cur ! c \<noteq> 0 \<and> G (cur ! c) = Some True \<and> (p \<noteq> 0 \<longrightarrow> G p \<noteq> None) \<and>
                 G' = (let H = G(cur ! c \<mapsto> False) in if p = 0 then H else H(p \<mapsto> True))"
  shows "inv_on Q E I cur G' (ph(c := Run)) (filter (\<lambda>d. d \<noteq> c) L) R"
proof -
  let ?p = "ph(c := Run)"
  note i = inv [unfolded inv_on_def]
  have Q: "queues_ok Q E I" and C: "current_ok cur E I ph" and N: "running_ok cur E I ph"
    and D: "idle_ok cur E I ph" and L: "order_ok L Q cur ph" and P: "puts_ok cur ph" and S: "stacks_ok (stack_of ph cur) G"
    and dom: "dom E = dom G" "0 \<notin> dom E" and len: "length I = MAX_NUM_CPU"
    using i by blast+
  have st: "stack_of ?p cur = (stack_of ph cur)(c := cur ! c)" by (auto simp: stack_of_def fun_eq_iff)
  have stc: "stack_of ph cur c = p" using c by (simp add: stack_of_def)
  have notw: "cur ! c \<notin> waits Q cur ph b" if b: "b \<in> set L" "b \<noteq> c" and nz: "cur ! c \<noteq> 0" for b
  proof (cases "cur ! c \<in> set I")
    case True
    then obtain k where k: "k < MAX_NUM_CPU" "I ! k = cur ! c" using len by (metis in_set_conv_nth)
    then have "k = c" "cur ! b = I ! k \<longrightarrow> b = k" "b < MAX_NUM_CPU" using D c nz b L unfolding idle_ok_def order_ok_def by metis+
    moreover have "cur ! c \<notin> set (Q ! b)" using Q True calculation(3) unfolding queues_ok_def by blast
    ultimately show ?thesis using b k by (auto simp: waits_def split: phase.splits)
  next
    case False
    then obtain e where e: "E (cur ! c) = Some e" "running e" "home e = Some c" using C c nz unfolding current_ok_def by fastforce
    have bN: "b < MAX_NUM_CPU" using b L unfolding order_ok_def by auto
    have "cur ! c \<notin> set (Q ! b)" using Q bN e unfolding queues_ok_def by fastforce
    moreover have "cur ! b \<noteq> cur ! c" if "ph b = Chosen r" for r
      using C bN b(2) e that False nz unfolding current_ok_def by (metis is_put.simps(3) option.inject)
    ultimately show ?thesis by (auto simp: waits_def split: phase.splits)
  qed
  show ?thesis unfolding inv_on_def
  proof (intro conjI)
    show "current_ok cur E I ?p" using C c unfolding current_ok_def by auto
    show "running_ok cur E I ?p" using N unfolding running_ok_def by fastforce
    show "idle_ok cur E I ?p" using D c unfolding idle_ok_def st by auto
    show "puts_ok cur ?p" using P unfolding puts_ok_def by auto
    show "stacks_ok (stack_of ?p cur) G'" unfolding st by (rule stacks_leave [OF S c(1)]) (use G dom in \<open>auto simp: stc Let_def\<close>)
    show "order_ok (filter (\<lambda>d. d \<noteq> c) L) Q cur ?p" by (rule order_leave [OF L c notw])
    show "dom E = dom G'" using dom G by (auto simp: Let_def insert_absorb split: if_splits)
  qed (use i in auto)
qed

lemma inv_new:
  assumes inv: "inv_on Q E I cur G ph L R" and a: "a \<noteq> 0" "E a = None"
    and e: "\<not> onQueue e" "\<not> running e"
  shows "inv_on Q (E(a \<mapsto> e)) I cur (G(a \<mapsto> True)) ph L R"
proof -
  note i = inv [unfolded inv_on_def]
  have new: "a \<notin> dom G" using i a by auto
  have idl: "I ! d \<noteq> a" if "d < MAX_NUM_CPU" for d
    using i that a unfolding idle_ok_def by auto
  have st: "stack_of ph cur d \<noteq> a" if "d < MAX_NUM_CPU" for d
    using i that a new unfolding stacks_ok_def by auto
  show ?thesis unfolding inv_on_def
  proof (intro conjI)
    show "queues_ok Q (E(a \<mapsto> e)) I" using i a unfolding queues_ok_def by fastforce
    show "homes_ok Q (E(a \<mapsto> e)) I" using i e unfolding homes_ok_def by auto
    show "current_ok cur (E(a \<mapsto> e)) I ph" using i a unfolding current_ok_def by fastforce
    show "running_ok cur (E(a \<mapsto> e)) I ph" using i e unfolding running_ok_def by auto
    show "idle_ok cur (E(a \<mapsto> e)) I ph" using i idl unfolding idle_ok_def by auto
    show "stacks_ok (stack_of ph cur) (G(a \<mapsto> True))" using i st unfolding stacks_ok_def by auto
    show "owners_ok R (E(a \<mapsto> e)) I" using i unfolding owners_ok_def by auto
    show "0 \<notin> dom (E(a \<mapsto> e))" "dom (E(a \<mapsto> e)) = dom (G(a \<mapsto> True))" using i a by auto
  qed (use i in auto)
qed

lemma inv_new_idle:
  assumes inv: "inv_on Q E I cur G ph L R" and a: "a \<noteq> 0" "E a = None" and c: "c < MAX_NUM_CPU" "I ! c = 0"
    and e: "\<not> onQueue e" "se_queue e = None"
  shows "inv_on Q (E(a \<mapsto> e)) (I[c := a]) cur (G(a \<mapsto> True)) ph L R"
proof -
  note i = inv [unfolded inv_on_def]
  have new: "a \<notin> dom G" using i a by auto
  have len: "length I = MAX_NUM_CPU" using i by simp
  have sub: "x \<in> set I \<Longrightarrow> x \<noteq> 0 \<Longrightarrow> x \<in> set (I[c := a])" for x
    using c len by (metis in_set_conv_nth length_list_update nth_list_update_neq)
  have sup: "set (I[c := a]) \<subseteq> insert a (set I)" by (rule set_update_subset_insert)
  have st: "stack_of ph cur d \<noteq> a" if "d < MAX_NUM_CPU" for d
    using i that a new unfolding stacks_ok_def by auto
  have idl: "I ! d \<noteq> a" if "d < MAX_NUM_CPU" for d
    using i that a unfolding idle_ok_def by auto
  have cur: "cur ! d \<noteq> a" if d: "d < MAX_NUM_CPU" for d
  proof (cases "is_put (ph d)")
    case True
    then show ?thesis using i d st [OF d] unfolding puts_ok_def stack_of_def by (cases "ph d") auto
  next
    case False
    then have "cur ! d \<noteq> 0 \<longrightarrow> cur ! d \<notin> set I \<longrightarrow> cur ! d \<noteq> a" using i d a unfolding current_ok_def by fastforce
    moreover have "a \<notin> set I" using idl len by (metis in_set_conv_nth)
    ultimately show ?thesis using a(1) by metis
  qed
  have out: "x \<notin> set I" "x \<noteq> a" if "x \<notin> set (I[c := a])" "x \<noteq> 0" for x
    using that sub c len by (auto simp: set_update_memI)
  have z: "x \<noteq> 0" if "E x = Some e'" for x e' using i that by auto
  show ?thesis unfolding inv_on_def
  proof (intro conjI)
    show "queues_ok Q (E(a \<mapsto> e)) (I[c := a])" using i a sup unfolding queues_ok_def by fastforce
    show "homes_ok Q (E(a \<mapsto> e)) (I[c := a])"
      using i e out z unfolding homes_ok_def by (metis fun_upd_apply option.inject)
    show "current_ok cur (E(a \<mapsto> e)) (I[c := a]) ph" using i out cur unfolding current_ok_def by simp
    show "running_ok cur (E(a \<mapsto> e)) (I[c := a]) ph"
      using i out z a(1) unfolding running_ok_def by (metis fun_upd_apply)
    show "idle_ok cur (E(a \<mapsto> e)) (I[c := a]) ph" 
      using i idl cur st e c len unfolding idle_ok_def by (auto simp: nth_list_update split: if_splits)
    show "stacks_ok (stack_of ph cur) (G(a \<mapsto> True))" using i st unfolding stacks_ok_def by auto
    show "owners_ok R (E(a \<mapsto> e)) (I[c := a])" using i a sup unfolding owners_ok_def by fastforce
    show "0 \<notin> dom (E(a \<mapsto> e))" "dom (E(a \<mapsto> e)) = dom (G(a \<mapsto> True))" using i a by auto
  qed (use i in auto)
qed

lemma inv_request:
  "inv_on Q E I cur G ph L R \<Longrightarrow> owner r = 0 \<or> owner r \<notin> set I \<and> owner r \<in> dom E \<Longrightarrow>
    inv_on Q E I cur G ph L (R(q \<mapsto> r))"
  unfolding inv_on_def owners_ok_def by auto

end
