(* ===== verification/Sched_Safety.thy ===== *)
theory Sched_Safety
  imports Sched_Inv
begin

text \<open>
  Every step of the interleaved scheduler keeps the invariant of \<open>Sched_Inv\<close>; from it the safety of the
  scheduler and the absence of circular waits in \<open>jumpTo\<close>.
\<close>

section \<open>Every step keeps the invariant\<close>

lemma inv_enqueue:
  assumes "sched_inv m" "c < MAX_NUM_CPU" "phase m c = Run" "a \<notin> set (idle (sys m))" "enqueueTask c a (sys m) = Inr s"
  shows "sched_inv (m\<lparr>sys := s\<rparr>)"
proof -
  obtain e where e: "ents (sys m) a = Some e" "\<not> onQueue e" and s: "s = (sys m)
      \<lparr>ents := (ents (sys m))(a \<mapsto> e\<lparr>se_queue := if running e then oldQueue e else Some c, oldQueue := None, onQueue := True\<rparr>),
       eachQueue := (if running e then eachQueue (sys m) else (eachQueue (sys m))[c := eachQueue (sys m) ! c @ [a]]),
       numTotalThread := numTotalThread (sys m) + 1\<rparr>"
    using enqueueTask_effect [OF assms(5)] by blast
  have "c \<notin> set (entered m)" using assms(1,3) unfolding sched_inv_def inv_on_def order_ok_def by auto
  then show ?thesis
  proof (cases "running e")
    case True
    then show ?thesis
      using assms(1-4) e unfolding sched_inv_def s by (auto intro!: inv_entity [where e = e] simp: home_def)
  next
    case False
    then show ?thesis
      using assms(1-4) e \<open>c \<notin> _\<close> unfolding sched_inv_def s by (auto intro!: inv_push [where e = e])
  qed
qed

lemma queued_not_idle:
  assumes inv: "sched_inv m" and e: "ents (sys m) a = Some e" "onQueue e"
  shows "a \<notin> set (idle (sys m))"
proof
  have z: "a \<noteq> 0" and len: "length (idle (sys m)) = MAX_NUM_CPU"
    using inv e(1) unfolding sched_inv_def inv_on_def by (metis domI, blast)
  have D: "idle_ok (current (sys m)) (ents (sys m)) (idle (sys m)) (phase m)"
    using inv unfolding sched_inv_def inv_on_def by blast
  assume "a \<in> set (idle (sys m))"
  then obtain k where "k < MAX_NUM_CPU" "idle (sys m) ! k = a" using len by (metis in_set_conv_nth)
  then show False using D e z unfolding idle_ok_def by (metis option.inject)
qed

lemma inv_dequeue:
  assumes inv: "sched_inv m" and c: "c < MAX_NUM_CPU" "phase m c = Run" and d: "dequeueTask (current (sys m) ! c) (sys m) = Inr s"
  shows "sched_inv (m\<lparr>sys := s\<rparr>) \<and> current (sys m) ! c \<notin> set (idle (sys m)) \<and> idle s = idle (sys m) \<and>
    current (sys m) ! c \<in> dom (ents s) \<and> current s = current (sys m)"
proof -
  let ?a = "current (sys m) ! c"
  obtain e q where e: "ents (sys m) ?a = Some e" "onQueue e" "se_queue e = Some q" and s: "s = (sys m)
      \<lparr>ents := (ents (sys m))(?a \<mapsto> e\<lparr>oldQueue := Some q, se_queue := None, onQueue := False\<rparr>),
       eachQueue := (if running e then eachQueue (sys m) else (eachQueue (sys m))[q := remove1 ?a (eachQueue (sys m) ! q)]),
       numTotalThread := numTotalThread (sys m) - 1\<rparr>"
    using dequeueTask_effect [OF d] by blast
  have z: "?a \<noteq> 0"
    using inv e(1) unfolding sched_inv_def inv_on_def by (metis domI)
  have C: "current_ok (current (sys m)) (ents (sys m)) (idle (sys m)) (phase m)"
    using inv unfolding sched_inv_def inv_on_def by blast
  have ni: "?a \<notin> set (idle (sys m))" by (rule queued_not_idle [OF inv e(1,2)])
  have r: "running e" "home e = Some c" using C c e(1) ni z unfolding current_ok_def by (metis is_put.simps(2) option.inject)+
  then have "inv_on (eachQueue (sys m)) ((ents (sys m))(?a \<mapsto> e\<lparr>oldQueue := Some q, se_queue := None, onQueue := False\<rparr>))
      (idle (sys m)) (current (sys m)) (good_in (threads (sys m))) (phase m) (entered m) (requests (sys m))"
    using inv e ni by (intro inv_entity [where e = e]) (auto simp: sched_inv_def home_def)
  then show ?thesis using ni s r(1) by (simp add: sched_inv_def)
qed

lemma inv_wait:
  assumes inv: "sched_inv m" and c: "c < MAX_NUM_CPU" "phase m c = Run" and w: "sleepWait_begin c rq (sys m) = Inr s"
  shows "sched_inv (m\<lparr>sys := s\<rparr>)"
proof -
  let ?a = "current (sys m) ! c"
  obtain r s2 l where r: "requests (sys m) rq = Some r"
    and d: "dequeueTask ?a ((sys m)\<lparr>inInterrupt := (inInterrupt (sys m))(c := True),
              requests := (requests (sys m))(rq \<mapsto> r\<lparr>owner := ?a\<rparr>)\<rparr>) = Inr s2"
    and s: "s = s2\<lparr>eachWatchList := (eachWatchList s2)[c := rq # l]\<rparr> \<or>
            s = s2\<lparr>eachWatchList := (eachWatchList s2)[c := rq # l], inInterrupt := enableInterrupt c (inInterrupt s2)\<rparr>"
    using w by (fastforce simp: sleepWait_begin_def disableInterrupt_def rbind_eq_Inr Let_def split: option.splits if_splits)
  obtain e where e: "ents (sys m) ?a = Some e" "onQueue e" using dequeueTask_effect [OF d] by auto
  let ?m = "m\<lparr>sys := (sys m)\<lparr>inInterrupt := (inInterrupt (sys m))(c := True),
              requests := (requests (sys m))(rq \<mapsto> r\<lparr>owner := ?a\<rparr>)\<rparr>\<rparr>"
  have "sched_inv ?m"
    using inv e queued_not_idle [OF inv e] unfolding sched_inv_def by (auto intro!: inv_request)
  then have "sched_inv (?m\<lparr>sys := s2\<rparr>)" using inv_dequeue [of ?m c s2] c d by simp
  then show ?thesis using s by (auto simp: sched_inv_def)
qed

lemma inv_watch_loop:
  "sched_inv m \<Longrightarrow> c < MAX_NUM_CPU \<Longrightarrow> phase m c = Run \<Longrightarrow> watch_loop c rqs (sys m) = Inr s \<Longrightarrow> sched_inv (m\<lparr>sys := s\<rparr>)"
proof (induction rqs arbitrary: m)
  case Nil
  then show ?case by (simp add: sched_inv_def)
next
  case (Cons rq rqs)
  obtain r where r: "requests (sys m) rq = Some r" using Cons.prems(4) by (auto split: option.splits)
  show ?case
  proof (cases "waitOnDone (\<lambda>_. req_done r) 1")
    case False
    then show ?thesis using Cons.IH [OF Cons.prems(1-3)] Cons.prems(4) r by simp
  next
    case True
    let ?s1 = "(sys m)\<lparr>requests := (requests (sys m))(rq \<mapsto> r\<lparr>owner := 0\<rparr>),
                       eachWatchList := (eachWatchList (sys m))[c := remove1 rq (eachWatchList (sys m) ! c)]\<rparr>"
    obtain s2 where nz: "owner r \<noteq> 0" and q: "enqueueTask c (owner r) ?s1 = Inr s2" and rest: "watch_loop c rqs s2 = Inr s"
      using Cons.prems(4) r True by (auto simp: rbind_eq_Inr Let_def split: if_splits)
    have "sched_inv (m\<lparr>sys := ?s1\<rparr>)" using Cons.prems(1) by (auto simp: sched_inv_def intro!: inv_request)
    moreover have "owner r \<notin> set (idle (sys m))"
      using Cons.prems(1) r nz unfolding sched_inv_def inv_on_def owners_ok_def by blast
    ultimately have "sched_inv (m\<lparr>sys := s2\<rparr>)"
      using inv_enqueue [of "m\<lparr>sys := ?s1\<rparr>" c "owner r" s2] Cons.prems(2,3) q by simp
    then show ?thesis using Cons.IH [of "m\<lparr>sys := s2\<rparr>"] Cons.prems(2,3) rest by simp
  qed
qed

lemma inv_clone:
  assumes inv: "sched_inv m" and c: "c < MAX_NUM_CPU" "phase m c = Run" and a: "a \<noteq> 0" "ents (sys m) a = None"
    and j: "\<not> onQueue junk" "\<not> running junk"
    and s: "libos_clone junk junk_thread mkf stk pre xs tls n detach c a (sys m) = Inr s"
  shows "sched_inv (m\<lparr>sys := s\<rparr>)"
proof -
  obtain s1 where q: "enqueueTask c a s1 = Inr s" and f: "eachQueue s1 = eachQueue (sys m)"
      "ents s1 = (ents (sys m))(a \<mapsto> SchedEntity junk)" "idle s1 = idle (sys m)" "current s1 = current (sys m)"
      "good_in (threads s1) = (good_in (threads (sys m)))(a \<mapsto> True)" "requests s1 = requests (sys m)"
    using s by (fastforce simp: libos_clone_def new_UserThread_def good_in_def fun_eq_iff Let_def split: option.splits)
  have "sched_inv (m\<lparr>sys := s1\<rparr>)" using inv a j by (auto simp: sched_inv_def f SchedEntity_def intro!: inv_new)
  moreover have "a \<notin> set (idle (sys m))"
  proof
    assume "a \<in> set (idle (sys m))"
    then obtain k where "k < length (idle (sys m))" "idle (sys m) ! k = a" by (metis in_set_conv_nth)
    then show False using inv a unfolding sched_inv_def inv_on_def idle_ok_def by (metis option.distinct(1))
  qed
  ultimately show ?thesis using inv_enqueue [of "m\<lparr>sys := s1\<rparr>" c a s] c q f by simp
qed

lemma inv_setIdle:
  assumes inv: "sched_inv m" and c: "c < MAX_NUM_CPU" and a: "a \<noteq> 0" "ents (sys m) a = None"
    and s: "setIdle junk mkf stk pre xs tcb n c a (sys m) = Inr s"
  shows "sched_inv (m\<lparr>sys := s\<rparr>)"
proof (cases "idle (sys m) ! c = 0")
  case False
  then have "s = sys m" using s by (auto simp: setIdle_def PerCPU_deref_def rbind_eq_Inr split: if_splits)
  then show ?thesis using inv by (simp add: sched_inv_def)
next
  case True
  have f: "eachQueue s = eachQueue (sys m)" "ents s = (ents (sys m))(a \<mapsto> (SchedEntity junk)\<lparr>onQueue := False\<rparr>)"
      "idle s = (idle (sys m))[c := a]" "current s = current (sys m)"
      "good_in (threads s) = (good_in (threads (sys m)))(a \<mapsto> True)" "requests s = requests (sys m)"
    using s True by (auto simp: setIdle_def UserThread_def good_in_def fun_eq_iff sched_ops split: if_splits)
  show ?thesis using inv a c True by (auto simp: sched_inv_def f SchedEntity_def intro!: inv_new_idle)
qed

lemma inv_put_prev:
  assumes inv: "sched_inv m" and c: "c < MAX_NUM_CPU" "phase m c = Run" and s: "tick c (sys m) = Inr (True, s1)" "put_prev c s1 = Inr s"
  shows "sched_inv (enter c (current (sys m) ! c) (m\<lparr>sys := s\<rparr>))"
proof (cases "current (sys m) ! c = 0")
  case True
  then have "s = sys m" using put_prev_none s by blast
  then show ?thesis
    using inv_enter [OF inv [unfolded sched_inv_def] c, of "ents (sys m)" "SchedEntity undefined\<lparr>running := False, onQueue := False\<rparr>"] True
    by (simp add: sched_inv_def enter_def SchedEntity_def)
next
  case False
  let ?a = "current (sys m) ! c" and ?ph = "(phase m)(c := Put (current (sys m) ! c))"
  obtain e where e: "ents (sys m) ?a = Some e" and s': "s = (sys m)
     \<lparr>ents := (ents (sys m))(?a \<mapsto> e\<lparr>timeSlot := 0, running := False\<rparr>),
      eachQueue := (if onQueue e then (eachQueue (sys m))[the (se_queue e) := eachQueue (sys m) ! the (se_queue e) @ [?a]]
                    else eachQueue (sys m))\<rparr>"
    using put_prev_effect [OF s False] by blast
  let ?e' = "e\<lparr>timeSlot := 0, running := False, onQueue := False\<rparr>"
  have D: "idle_ok (current (sys m)) (ents (sys m)) (idle (sys m)) (phase m)" and len: "length (idle (sys m)) = MAX_NUM_CPU"
    and C: "current_ok (current (sys m)) (ents (sys m)) (idle (sys m)) (phase m)"
    and S: "stacks_ok (stack_of (phase m) (current (sys m))) (good_in (threads (sys m)))"
    using inv unfolding sched_inv_def inv_on_def by blast+
  have idl: "se_queue e = None" if "?a \<in> set (idle (sys m))"
    using D that len e False unfolding idle_ok_def by (metis in_set_conv_nth option.inject)
  have base: "inv_on (eachQueue (sys m)) ((ents (sys m))(?a \<mapsto> ?e')) (idle (sys m)) (current (sys m)) (good_in (threads (sys m)))
      ?ph (entered m @ [c]) (requests (sys m))"
    using inv_enter [OF inv [unfolded sched_inv_def] c, of _ ?e'] False idl by simp
  show ?thesis
  proof (cases "onQueue e")
    case False
    then show ?thesis
      using inv_enter [OF inv [unfolded sched_inv_def] c, of _ "e\<lparr>timeSlot := 0, running := False\<rparr>"] \<open>?a \<noteq> 0\<close> idl s'
      by (simp add: sched_inv_def enter_def)
  next
    case True
    have ni: "?a \<notin> set (idle (sys m))" by (rule queued_not_idle [OF inv e True])
    then have q: "se_queue e = Some c"
      using C c e False True unfolding current_ok_def home_def by (metis is_put.simps(2) option.inject)
    have own: "\<forall>d<MAX_NUM_CPU. stack_of ?ph (current (sys m)) d = ?a \<longrightarrow> d = c"
      using S c False unfolding stacks_ok_def by (auto simp: stack_of_def split: if_splits)
    show ?thesis
      using inv_push [OF base c(1) ni, of ?e' "e\<lparr>timeSlot := 0, running := False\<rparr>"] own True q s'
      by (simp add: sched_inv_def enter_def)
  qed
qed

lemma inv_sched_step: "sched_step m m' \<Longrightarrow> sched_inv m \<Longrightarrow> sched_inv m'"
proof (induction rule: sched_step.induct)
  case (Wake c m a s) then show ?case by (intro inv_enqueue)
next
  case (Sleep c m s) then show ?case using inv_dequeue by blast
next
  case (Wait c m rq s) then show ?case by (intro inv_wait)
next
  case (Watch c m s) then show ?case by (auto simp: watchListCheck_def rbind_eq_Inr intro: inv_watch_loop)
next
  case (Submit r m rq) then show ?case by (auto simp: sched_inv_def intro!: inv_request)
next
  case (Finish m rq r)
  then have "owner (setDone r) = 0 \<or> owner (setDone r) \<notin> set (idle (sys m)) \<and> owner (setDone r) \<in> dom (ents (sys m))"
    unfolding sched_inv_def inv_on_def owners_ok_def by (auto simp: setDone_def)
  with Finish show ?case by (auto simp: sched_inv_def intro!: inv_request)
next
  case (Library m t) then show ?case by (simp add: sched_inv_def)
next
  case (New a m junk mkf stk pre xs tcb n)
  have "good_in (threads (UserThread junk mkf stk pre xs tcb n a (sys m))) = (good_in (threads (sys m)))(a \<mapsto> True)"
    by (auto simp: UserThread_def good_in_def)
  then show ?case using New unfolding sched_inv_def by (auto simp: UserThread_def SchedEntity_def intro!: inv_new)
next
  case (Clone c m a junk junk_thread mkf stk pre xs tls n detach s) then show ?case by (intro inv_clone)
next
  case (Idle c m a junk mkf stk pre xs tcb n s) then show ?case by (intro inv_setIdle)
next
  case (Put_Prev c m t s) then show ?case by (intro inv_put_prev)
next
  case (Balance c m p i b s)
  have "length (eachQueue (sys m)) = MAX_NUM_CPU" using Balance unfolding sched_inv_def inv_on_def by blast
  then show ?case
    using balance_one_effect [OF Balance(3)] Balance
    by (auto simp: sched_inv_def good_in_def intro!: inv_balance)
next
  case (Pick c m p s)
  then show ?case using pick_effect [OF Pick(3)] by (auto simp: sched_inv_def intro!: inv_pick)
next
  case (Go_Idle c m p) then show ?case by (auto simp: sched_inv_def go_idle_def intro!: inv_go_idle)
next
  case (Switch c m p saved s)
  show ?case
  proof (cases "current (sys m) ! c = p")
    case True
    then show ?thesis
      using switch_same [OF Switch(3)] inv_leave [OF Switch(4) [unfolded sched_inv_def] Switch(1,2)]
      by (simp add: sched_inv_def leave_def)
  next
    case False
    have "p \<noteq> 0 \<longrightarrow> good_in (threads (sys m)) p \<noteq> None" using switch_effect [OF Switch(3) False] by (auto simp: good_in_def)
    then show ?thesis
      using switch_effect [OF Switch(3) False] False inv_leave [OF Switch(4) [unfolded sched_inv_def] Switch(1,2)]
      by (simp add: sched_inv_def leave_def)
  qed
qed

lemma inv_sys_init: "sched_inv (sys_init n)"
  by (auto simp: sched_inv_def inv_on_def sys_init_def scheduler_init_def PerCPU_def queues_ok_def homes_ok_def current_ok_def
      running_ok_def idle_ok_def stacks_ok_def puts_ok_def order_ok_def owners_ok_def good_in_def stack_of_def)

lemma sched_reach_inv: "sched_reach n m \<Longrightarrow> sched_inv m"
  by (induction rule: sched_reach.induct) (auto simp: inv_sys_init intro: inv_sched_step)

section \<open>Safety and progress\<close>

lemma current_exists:
  assumes inv: "sched_inv m" and c: "c < MAX_NUM_CPU" "\<not> is_put (phase m c)" "current (sys m) ! c \<noteq> 0"
  shows "current (sys m) ! c \<in> dom (ents (sys m))"
proof (cases "current (sys m) ! c \<in> set (idle (sys m))")
  case True
  have "idle_ok (current (sys m)) (ents (sys m)) (idle (sys m)) (phase m)" "length (idle (sys m)) = MAX_NUM_CPU"
    using inv unfolding sched_inv_def inv_on_def by blast+
  then show ?thesis using c True unfolding idle_ok_def by (metis in_set_conv_nth domI)
next
  case False
  have "current_ok (current (sys m)) (ents (sys m)) (idle (sys m)) (phase m)"
    using inv unfolding sched_inv_def inv_on_def by blast
  then show ?thesis using c False unfolding current_ok_def by blast
qed

lemma chosen_once:
  assumes inv: "sched_inv m" and c: "c < MAX_NUM_CPU" "\<not> is_put (phase m c)" "current (sys m) ! c \<noteq> 0"
    and d: "d < MAX_NUM_CPU" "\<not> is_put (phase m d)" "current (sys m) ! c = current (sys m) ! d"
  shows "c = d"
proof (cases "current (sys m) ! c \<in> set (idle (sys m))")
  case True
  have "idle_ok (current (sys m)) (ents (sys m)) (idle (sys m)) (phase m)" "length (idle (sys m)) = MAX_NUM_CPU"
    using inv unfolding sched_inv_def inv_on_def by blast+
  then show ?thesis using c d True unfolding idle_ok_def by (metis in_set_conv_nth)
next
  case False
  have "current_ok (current (sys m)) (ents (sys m)) (idle (sys m)) (phase m)"
    using inv unfolding sched_inv_def inv_on_def by blast
  then show ?thesis using c d False unfolding current_ok_def by (metis option.inject)
qed

text \<open>
  C1. In every state that the CPUs reach by any interleaving: no thread is twice on the run queues; a
  thread that is queued does not run; two CPUs never run the same thread, nor ever use the same stack; the
  thread whose stack a CPU uses has no good context to jump to; and a thread that may run and does not
  run is on the queue of its entity, so that it is not lost. The steps that create a thread take memory in which the
  flags \<open>onQueue\<close> and \<open>running\<close> are false, because the constructor of the entity does not set them.
\<close>

theorem sched_safe:
  assumes "sched_reach n m"
  shows "(\<forall>c<MAX_NUM_CPU. distinct (eachQueue (sys m) ! c)) \<and>
    (\<forall>c<MAX_NUM_CPU. \<forall>d<MAX_NUM_CPU. c \<noteq> d \<longrightarrow>
       set (eachQueue (sys m) ! c) \<inter> set (eachQueue (sys m) ! d) = {} \<and>
       (\<not> is_put (phase m c) \<and> \<not> is_put (phase m d) \<and> current (sys m) ! c \<noteq> 0 \<longrightarrow> current (sys m) ! c \<noteq> current (sys m) ! d) \<and>
       (stack_of (phase m) (current (sys m)) c \<noteq> 0 \<longrightarrow>
          stack_of (phase m) (current (sys m)) c \<noteq> stack_of (phase m) (current (sys m)) d)) \<and>
    (\<forall>c<MAX_NUM_CPU. stack_of (phase m) (current (sys m)) c \<noteq> 0 \<longrightarrow>
       good_in (threads (sys m)) (stack_of (phase m) (current (sys m)) c) = Some False) \<and>
    (\<forall>a e. ents (sys m) a = Some e \<and> onQueue e \<longrightarrow>
       (if running e then (\<exists>c<MAX_NUM_CPU. current (sys m) ! c = a)
        else (\<exists>c<MAX_NUM_CPU. se_queue e = Some c \<and> a \<in> set (eachQueue (sys m) ! c))))"
proof -
  let ?s = "sys m"
  have inv: "sched_inv m" by (rule sched_reach_inv [OF assms])
  have Q: "queues_ok (eachQueue ?s) (ents ?s) (idle ?s)" and H: "homes_ok (eachQueue ?s) (ents ?s) (idle ?s)"
    and N: "running_ok (current ?s) (ents ?s) (idle ?s) (phase m)"
    and S: "stacks_ok (stack_of (phase m) (current ?s)) (good_in (threads ?s))"
    using inv unfolding sched_inv_def inv_on_def by blast+
  show ?thesis
  proof (intro conjI allI impI)
    fix c assume c: "c < MAX_NUM_CPU"
    show "distinct (eachQueue ?s ! c)" using Q c unfolding queues_ok_def by blast
    show "good_in (threads ?s) (stack_of (phase m) (current ?s) c) = Some False" if "stack_of (phase m) (current ?s) c \<noteq> 0"
      using S c that unfolding stacks_ok_def by blast
    fix d assume d: "d < MAX_NUM_CPU" "c \<noteq> d"
    show "set (eachQueue ?s ! c) \<inter> set (eachQueue ?s ! d) = {}"
      using Q c d unfolding queues_ok_def disjoint_iff by (metis option.inject)
    show "current ?s ! c \<noteq> current ?s ! d"
      if "\<not> is_put (phase m c) \<and> \<not> is_put (phase m d) \<and> current ?s ! c \<noteq> 0"
      using chosen_once [OF inv c _ _ d(1)] d(2) that by blast
    show "stack_of (phase m) (current ?s) c \<noteq> stack_of (phase m) (current ?s) d" if "stack_of (phase m) (current ?s) c \<noteq> 0"
      using S c d that unfolding stacks_ok_def by metis
  next
    fix a e assume e: "ents ?s a = Some e \<and> onQueue e"
    then have ni: "a \<notin> set (idle ?s)" using queued_not_idle [OF inv] by blast
    show "if running e then (\<exists>c<MAX_NUM_CPU. current ?s ! c = a)
        else (\<exists>c<MAX_NUM_CPU. se_queue e = Some c \<and> a \<in> set (eachQueue ?s ! c))"
    proof (cases "running e")
      case True then show ?thesis using N e ni unfolding running_ok_def by auto
    next
      case False
      then obtain c where "c < MAX_NUM_CPU" "a \<in> set (eachQueue ?s ! c)" using H e ni unfolding homes_ok_def by blast
      then show ?thesis using Q e False unfolding queues_ok_def by fastforce
    qed
  qed
qed

text \<open>A run: two threads are made and queued on CPU 0, which takes the first one.\<close>

definition demo_entity :: sched_entity where
  "demo_entity = \<lparr>se_ticket = 0, se_queue = None, oldQueue = None, onQueue = False, running = False, timeSlot = 0\<rparr>"

definition demo_thread :: "nat \<Rightarrow> sched_sys \<Rightarrow> sched_sys" where
  "demo_thread a m = m\<lparr>sys := UserThread demo_entity (\<lambda>_ _. 0) 0 0 0 0 0 a (sys m)\<rparr>"

definition demo_queued :: sched_sys where
  "demo_queued =
     (let m = demo_thread 2 (demo_thread 1 (sys_init 2)) in
      m\<lparr>sys := projr (rbind (enqueueTask 0 1 (sys m)) (enqueueTask 0 2))\<rparr>)"

definition demo_chosen :: sched_sys where
  "demo_chosen =
     (let m = enter 0 0 demo_queued in m\<lparr>sys := projr (pick 0 (sys m)), phase := (phase m)(0 := Chosen 0)\<rparr>)"

definition demo_running :: sched_sys where
  "demo_running = leave 0 (demo_chosen\<lparr>sys := projr (the (switch 0 5 0 (sys demo_chosen)))\<rparr>)"

lemma PerCPU_slots: "PerCPU x = [x, x, x, x, x, x, x, x]"
  by (simp add: PerCPU_def MAX_NUM_CPU_def numeral_eq_Suc)

lemmas demo_simps = demo_entity_def demo_thread_def UserThread_def SchedEntity_def sys_init_def scheduler_init_def PerCPU_slots
  MAX_NUM_CPU_def enqueueTask_def schedNotify_def with_se_def put_se_def put_queue_def PerCPU_deref_def LIBOS_ASSERT_def
  enter_def leave_def pick_def switch_def jumpTo_def arrive_def setFSReg_def getFSReg_def tick_def put_prev_def Let_def

lemma demo_queued_reach: "sched_reach 2 demo_queued"
proof -
  let ?m = "demo_thread 2 (demo_thread 1 (sys_init 2))"
  have 1: "sched_reach 2 (demo_thread 1 (sys_init 2))"
    unfolding demo_thread_def by (rule sched_reach.Step [OF sched_reach.Start sched_step.New]) (simp_all add: demo_simps)
  have 2: "sched_reach 2 ?m"
    unfolding demo_thread_def [of 2] by (rule sched_reach.Step [OF 1 sched_step.New]) (simp_all add: demo_simps)
  obtain s1 where s1: "enqueueTask 0 1 (sys ?m) = Inr s1" by (simp add: demo_simps)
  have 3: "sched_reach 2 (?m\<lparr>sys := s1\<rparr>)"
    by (rule sched_reach.Step [OF 2 sched_step.Wake [of 0 _ 1]]) (use s1 in \<open>simp_all add: demo_simps\<close>)
  obtain s2 where s2: "enqueueTask 0 2 s1 = Inr s2" using s1 by (auto simp add: demo_simps)
  have "sched_reach 2 ((?m\<lparr>sys := s1\<rparr>)\<lparr>sys := s2\<rparr>)"
    by (rule sched_reach.Step [OF 3 sched_step.Wake [of 0 _ 2]]) (use s1 s2 in \<open>auto simp add: demo_simps\<close>)
  then show ?thesis using s1 s2 by (simp add: demo_queued_def)
qed

lemma demo_chosen_reach: "sched_reach 2 demo_chosen"
proof -
  have "sched_reach 2 (enter 0 (current (sys demo_queued) ! 0) (demo_queued\<lparr>sys := sys demo_queued\<rparr>))"
    by (rule sched_reach.Step [OF demo_queued_reach sched_step.Put_Prev [where t = "sys demo_queued"]]) (simp_all add: demo_queued_def demo_simps)
  then have 1: "sched_reach 2 (enter 0 0 demo_queued)" by (simp add: demo_queued_def demo_simps)
  show ?thesis
    unfolding demo_chosen_def Let_def
    by (rule sched_reach.Step [OF 1 sched_step.Pick]) (simp_all add: demo_queued_def demo_simps)
qed

lemma demo_running_reach: "sched_reach 2 demo_running"
  unfolding demo_running_def
  by (rule sched_reach.Step [OF demo_chosen_reach sched_step.Switch [where p = 0 and saved = 5]]) (simp_all add: demo_chosen_def demo_queued_def demo_simps)

theorem sched_safe_witness:
  "eachQueue (sys demo_running) ! 0 = [2] \<and> distinct (eachQueue (sys demo_running) ! 0) \<and> current (sys demo_running) ! 0 = 1 \<and>
   stack_of (phase demo_running) (current (sys demo_running)) 0 = 1 \<and> good_in (threads (sys demo_running)) 1 = Some False"
proof -
  have eqs: "eachQueue (sys demo_running) ! 0 = [2]" "current (sys demo_running) ! 0 = 1"
    "stack_of (phase demo_running) (current (sys demo_running)) 0 = 1"
    by (simp_all add: demo_running_def demo_chosen_def demo_queued_def demo_simps stack_of_def)
  have "(0::nat) < MAX_NUM_CPU" by (simp add: MAX_NUM_CPU_def)
  moreover have "\<forall>c<MAX_NUM_CPU. distinct (eachQueue (sys demo_running) ! c)"
    "\<forall>c<MAX_NUM_CPU. stack_of (phase demo_running) (current (sys demo_running)) c \<noteq> 0 \<longrightarrow>
       good_in (threads (sys demo_running)) (stack_of (phase demo_running) (current (sys demo_running)) c) = Some False"
    using sched_safe [OF demo_running_reach] by blast+
  ultimately show ?thesis using eqs by (metis zero_neq_one)
qed

text \<open>
  C13. Of the CPUs inside \<open>schedule\<close>, the one that went in first is never blocked in \<open>jumpTo\<close>: when
  it has chosen a thread, the context of that thread is saved, and the switch happens. The waits for the
  contexts of other CPUs therefore always end; no set of CPUs can wait for one another.
\<close>

theorem schedule_not_blocked:
  assumes "sched_reach n m" "entered m = c # L" "phase m c = Chosen p" "current (sys m) ! c \<noteq> 0"
  shows "\<exists>s. switch c saved p (sys m) = Some (Inr s)"
proof (cases "current (sys m) ! c = p")
  case True
  then show ?thesis by (simp add: switch_def)
next
  case False
  let ?x = "current (sys m) ! c"
  have inv: "sched_inv m" by (rule sched_reach_inv [OF assms(1)])
  have O: "order_ok (entered m) (eachQueue (sys m)) (current (sys m)) (phase m)"
    and S: "stacks_ok (stack_of (phase m) (current (sys m))) (good_in (threads (sys m)))"
    and dom: "dom (ents (sys m)) = dom (good_in (threads (sys m)))"
    using inv unfolding sched_inv_def inv_on_def by blast+
  have c: "c < MAX_NUM_CPU" using O assms(2) unfolding order_ok_def by auto
  have st: "stack_of (phase m) (current (sys m)) c = p" using assms(3) by (simp add: stack_of_def)
  have "good_in (threads (sys m)) ?x \<noteq> Some False"
  proof
    assume "good_in (threads (sys m)) ?x = Some False"
    then obtain d where d: "d < MAX_NUM_CPU" "stack_of (phase m) (current (sys m)) d = ?x" using S unfolding stacks_ok_def by blast
    then have "d \<noteq> c" using st False by auto
    moreover have "c \<in> set (entered m)" "?x \<in> waits (eachQueue (sys m)) (current (sys m)) (phase m) c"
      using assms(2,3) by (simp_all add: waits_def)
    ultimately have "d \<in> set (takeWhile (\<lambda>x. x \<noteq> c) (entered m))"
      using O d assms(4) unfolding order_ok_def by metis
    then show False using assms(2) by simp
  qed
  moreover have "?x \<in> dom (ents (sys m))" by (rule current_exists [OF inv c _ assms(4)]) (simp add: assms(3))
  ultimately obtain t where t: "threads (sys m) ?x = Some t" "contextGood t" using dom by (auto simp: good_in_def)
  moreover have "threads (sys m) p \<noteq> None" if "p \<noteq> 0"
    using S c st that unfolding stacks_ok_def good_in_def by fastforce
  ultimately show ?thesis
    using False assms(4) by (auto simp: switch_def jumpTo_def arrive_def setFSReg_def Let_def)
qed

theorem schedule_not_blocked_witness:
  "entered demo_chosen = [0] \<and> phase demo_chosen 0 = Chosen 0 \<and> (\<exists>s. switch 0 5 0 (sys demo_chosen) = Some (Inr s))"
proof -
  have *: "entered demo_chosen = [0]" "phase demo_chosen 0 = Chosen 0" "current (sys demo_chosen) ! 0 \<noteq> 0"
    by (simp_all add: demo_chosen_def demo_queued_def demo_simps)
  show ?thesis using schedule_not_blocked [OF demo_chosen_reach *, of 5] * by simp
qed

end
