(* ===== verification/Futex.thy ===== *)
theory Futex
  imports Sched_Safety
begin

unbundle bit_operations_syntax

text \<open>
  Futexes (\<open>libOS/futex.h\<close>, \<open>libOS/futex.cpp\<close>) on the scheduler. A bucket is found by its address and
  is never released, so that the hash table is a map from addresses to buckets. The code under the lock of
  a bucket is one step. A wait that sleeps is in two parts: \<open>futex_wait_begin\<close> up to the call of
  \<open>schedule\<close>, and \<open>futex_wait_end\<close> when the thread runs again.
\<close>

section \<open>Constants and buckets\<close>

definition FUTEX_WAIT :: "32 word" where
  "FUTEX_WAIT = 0"

definition FUTEX_WAKE :: "32 word" where
  "FUTEX_WAKE = 1"

definition FUTEX_REQUEUE :: "32 word" where
  "FUTEX_REQUEUE = 3"

definition FUTEX_CMP_REQUEUE :: "32 word" where
  "FUTEX_CMP_REQUEUE = 4"

definition FUTEX_WAKE_OP :: "32 word" where
  "FUTEX_WAKE_OP = 5"

definition FUTEX_CMP_REQUEUE_PI :: "32 word" where
  "FUTEX_CMP_REQUEUE_PI = 12"

definition FUTEX_PRIVATE_FLAG :: "32 word" where
  "FUTEX_PRIVATE_FLAG = 128"

definition FUTEX_CLOCK_REALTIME :: "32 word" where
  "FUTEX_CLOCK_REALTIME = 256"

definition FUTEX_CMD_MASK :: "32 word" where
  "FUTEX_CMD_MASK = NOT (FUTEX_PRIVATE_FLAG OR FUTEX_CLOCK_REALTIME)"

definition INT_MAX :: int where
  "INT_MAX = 2 ^ 31 - 1"

definition ENOSYS :: nat where
  "ENOSYS = 38"

record futex_bucket =
  fq :: "nat list"
  waiters :: int

record futex_world =
  sched :: scheduler
  futexHash :: "nat \<rightharpoonup> futex_bucket"
  futex_counter :: int

definition FutexBucket :: futex_bucket where
  "FutexBucket = \<lparr>fq = [], waiters = 0\<rparr>"

definition INIT_FUTEX_QUEUE :: "futex_world \<Rightarrow> futex_world" where
  "INIT_FUTEX_QUEUE w = w\<lparr>futexHash := Map.empty\<rparr>"

definition bucket_enqueue :: "nat \<Rightarrow> futex_bucket \<Rightarrow> futex_bucket" where
  "bucket_enqueue t fb = fb\<lparr>fq := fq fb @ [t]\<rparr>"

definition bucket_pop_front :: "futex_bucket \<Rightarrow> (nat \<times> futex_bucket) result" where
  "bucket_pop_front fb = (case fq fb of [] \<Rightarrow> Inl Undefined | t # q \<Rightarrow> Inr (t, fb\<lparr>fq := q\<rparr>))"

definition bucket_remove :: "nat \<Rightarrow> futex_bucket \<Rightarrow> futex_bucket result" where
  "bucket_remove t fb = (if t \<in> set (fq fb) then Inr (fb\<lparr>fq := remove1 t (fq fb)\<rparr>) else Inl Undefined)"

definition BucketEqual :: "nat \<Rightarrow> nat \<Rightarrow> bool" where
  "BucketEqual lhs rhs \<longleftrightarrow> lhs = rhs"

definition get_user_val :: "nat \<Rightarrow> (nat \<Rightarrow> nat) \<Rightarrow> nat \<Rightarrow> (nat \<Rightarrow> bool) \<Rightarrow> nat \<times> (nat \<Rightarrow> bool)" where
  "get_user_val cpu seen addr fl =
     (let (intFlag, fl1) = disableInterrupt cpu fl
      in (seen addr, if \<not> intFlag then enableInterrupt cpu fl1 else fl1))"

section \<open>Locking a bucket\<close>

definition libos_get_bucket :: "nat \<Rightarrow> futex_world \<Rightarrow> futex_bucket \<times> futex_world" where
  "libos_get_bucket addr w =
     (case futexHash w addr of
        None \<Rightarrow> (FutexBucket, w\<lparr>futexHash := (futexHash w)(addr \<mapsto> FutexBucket)\<rparr>)
      | Some fb \<Rightarrow> (fb, w))"

definition libos_futex_queue_lock :: "nat \<Rightarrow> futex_world \<Rightarrow> futex_world" where
  "libos_futex_queue_lock addr w =
     (let (fb, w1) = libos_get_bucket addr w
      in w1\<lparr>futexHash := (futexHash w1)(addr \<mapsto> fb\<lparr>waiters := waiters fb + 1\<rparr>)\<rparr>)"

definition libos_futex_queue_unlock :: "nat \<Rightarrow> futex_world \<Rightarrow> futex_world result" where
  "libos_futex_queue_unlock addr w =
     (case futexHash w addr of
        None \<Rightarrow> Inl Wild
      | Some fb \<Rightarrow> Inr (w\<lparr>futexHash := (futexHash w)(addr \<mapsto> fb\<lparr>waiters := waiters fb - 1\<rparr>)\<rparr>))"

definition libos_futex_enqueue :: "nat \<Rightarrow> nat \<Rightarrow> futex_world \<Rightarrow> futex_world result" where
  "libos_futex_enqueue cpu addr w =
     rbind (dequeueTask (current (sched w) ! cpu) (sched w)) (\<lambda>s.
       case futexHash w addr of
         None \<Rightarrow> Inl Wild
       | Some fb \<Rightarrow> Inr (w\<lparr>sched := s, futexHash := (futexHash w)(addr \<mapsto> bucket_enqueue (current s ! cpu) fb)\<rparr>))"

section \<open>Wait\<close>

text \<open>\<open>seen i\<close> is what the \<open>i\<close>-th load of the user's word returns; other threads may write it meanwhile.\<close>

fun spin_on :: "nat \<Rightarrow> (nat \<Rightarrow> nat) \<Rightarrow> nat \<Rightarrow> nat \<Rightarrow> nat" where
  "spin_on val seen i 0 = seen i"
| "spin_on val seen i (Suc n) = (if seen i = val then spin_on val seen (Suc i) n else seen i)"

definition max_wait :: nat where
  "max_wait = 500000"

text \<open>The flag says that the thread sleeps.\<close>

definition futex_wait_begin :: "nat \<Rightarrow> nat \<Rightarrow> nat \<Rightarrow> (nat \<Rightarrow> nat) \<Rightarrow> futex_world \<Rightarrow> (bool \<times> futex_world) result" where
  "futex_wait_begin cpu addr val seen w =
     (let w1 = libos_futex_queue_lock addr w in
      if spin_on val seen 0 max_wait \<noteq> val
      then rbind (libos_futex_queue_unlock addr w1) (\<lambda>w2. Inr (False, w2))
      else
        let (intFlag, fl) = disableInterrupt cpu (inInterrupt (sched w1)) in
        rbind (libos_futex_enqueue cpu addr (w1\<lparr>sched := (sched w1)\<lparr>inInterrupt := fl\<rparr>\<rparr>)) (\<lambda>w2.
        let w3 = w2\<lparr>futex_counter := futex_counter w2 + 1\<rparr>; s = sched w3 in
        Inr (True, w3\<lparr>sched := (if \<not> intFlag then s\<lparr>inInterrupt := enableInterrupt cpu (inInterrupt s)\<rparr> else s)\<rparr>)))"

definition futex_wait_end :: "nat \<Rightarrow> nat \<Rightarrow> futex_world \<Rightarrow> futex_world result" where
  "futex_wait_end cpu addr w =
     (let s = sched w;
          w1 = w\<lparr>sched := s\<lparr>inInterrupt := snd (disableInterrupt cpu (inInterrupt s))\<rparr>\<rparr>;
          intFlag = (futex_counter w1 \<noteq> 0);
          w2 = w1\<lparr>futex_counter := futex_counter w1 - 1\<rparr>
      in rbind (libos_futex_queue_unlock addr w2) (\<lambda>w3.
           let s3 = sched w3 in
           Inr (w3\<lparr>sched := (if \<not> intFlag then s3\<lparr>inInterrupt := enableInterrupt cpu (inInterrupt s3)\<rparr> else s3)\<rparr>)))"

text \<open>
  Until the thread runs again or returns: the state after the switch to another thread, or after the return
  with 0 when the wait did not sleep. \<open>futex_wait_end\<close> runs when the thread does.
\<close>

definition libos_futex_wait ::
  "nat \<Rightarrow> nat \<Rightarrow> nat \<Rightarrow> nat \<Rightarrow> (nat \<Rightarrow> nat) \<Rightarrow> futex_world \<Rightarrow> (bool \<times> futex_world) result option" where
  "libos_futex_wait cpu saved addr val seen w =
     lbind (Some (futex_wait_begin cpu addr val seen w)) (\<lambda>(sleeps, w1).
       if \<not> sleeps then Some (Inr (False, w1))
       else lbind (schedule cpu saved (sched w1)) (\<lambda>s. Some (Inr (True, w1\<lparr>sched := s\<rparr>))))"

section \<open>Wake\<close>

text \<open>The loop over the queue of a bucket: how many were woken, who is left, and the scheduler.\<close>

fun wake_loop :: "nat \<Rightarrow> int \<Rightarrow> int \<Rightarrow> nat list \<Rightarrow> scheduler \<Rightarrow> (int \<times> nat list \<times> scheduler) result" where
  "wake_loop cpu nr ret [] s = Inr (ret, [], s)"
| "wake_loop cpu nr ret (t # q) s =
     (if ret < nr then rbind (enqueueTask cpu t s) (wake_loop cpu nr (ret + 1) q) else Inr (ret, t # q, s))"

definition futex_wake :: "nat \<Rightarrow> nat \<Rightarrow> nat \<Rightarrow> futex_world \<Rightarrow> (int \<times> futex_world) result" where
  "futex_wake cpu addr nr_wake w =
     (let nr = (if nr_wake \<noteq> 1 then INT_MAX else 1) in
      case futexHash w addr of
        None \<Rightarrow> Inr (0, w)
      | Some fb \<Rightarrow>
          if waiters fb = 0 then Inr (0, w)
          else rbind (wake_loop cpu nr 0 (fq fb) (sched w)) (\<lambda>(ret, q, s).
                 Inr (ret, w\<lparr>sched := s, futexHash := (futexHash w)(addr \<mapsto> fb\<lparr>fq := q\<rparr>)\<rparr>)))"

section \<open>Requeue\<close>

text \<open>The first loop also counts down the waiters of the bucket, by one for each thread it wakes.\<close>

fun requeue_loop :: "int \<Rightarrow> int \<Rightarrow> futex_bucket \<Rightarrow> futex_bucket \<Rightarrow> nat list \<Rightarrow> futex_bucket \<times> futex_bucket" where
  "requeue_loop nr req_count fb1 fb2 [] = (fb1, fb2)"
| "requeue_loop nr req_count fb1 fb2 (t # q) =
     (if req_count < nr
      then requeue_loop nr (req_count + 1) (fb1\<lparr>fq := q, waiters := waiters fb1 - 1\<rparr>)
             ((bucket_enqueue t fb2)\<lparr>waiters := waiters fb2 + 1\<rparr>) q
      else (fb1, fb2))"

text \<open>With equal addresses the second lock is the first one, and the call never returns.\<close>

definition futex_requeue :: "nat \<Rightarrow> nat \<Rightarrow> nat \<Rightarrow> int \<Rightarrow> int \<Rightarrow> futex_world \<Rightarrow> (int \<times> futex_world) result option" where
  "futex_requeue cpu addr1 addr2 nr_wake nr_requeue w =
     (case futexHash w addr1 of
        None \<Rightarrow> Some (Inr (0, w))
      | Some fb1 \<Rightarrow>
          let (fb2, w1) = libos_get_bucket addr2 w in
          if addr1 = addr2 then None
          else if waiters fb1 = 0 then Some (Inr (0, w1))
          else
            Some (rbind (wake_loop cpu nr_wake 0 (fq fb1) (sched w1)) (\<lambda>(ret, q, s).
              let (fb1', fb2') = requeue_loop nr_requeue 0 (fb1\<lparr>fq := q, waiters := waiters fb1 - ret\<rparr>) fb2 q
              in Inr (ret, w1\<lparr>sched := s, futexHash := (futexHash w1)(addr1 \<mapsto> fb1', addr2 \<mapsto> fb2')\<rparr>))))"

section \<open>The system call\<close>

text \<open>The numbers arrive as unsigned words; \<open>futex_requeue\<close> takes them as \<open>int\<close>.\<close>

definition libos_do_futex ::
  "nat \<Rightarrow> nat \<Rightarrow> (nat \<Rightarrow> nat) \<Rightarrow> nat \<Rightarrow> 32 word \<Rightarrow> nat \<Rightarrow> nat \<Rightarrow> nat \<Rightarrow> futex_world \<Rightarrow> (nat \<times> futex_world) result option" where
  "libos_do_futex cpu saved seen addr op val addr2 val2 w =
     (let cmd = op AND FUTEX_CMD_MASK in
      if cmd = FUTEX_WAIT then lbind (libos_futex_wait cpu saved addr val seen w) (\<lambda>(_, w1). Some (Inr (0, w1)))
      else if cmd = FUTEX_WAKE
      then lbind (Some (futex_wake cpu addr val w)) (\<lambda>(r, w1). Some (Inr (u64_of_int r, w1)))
      else if cmd = FUTEX_REQUEUE
      then lbind (futex_requeue cpu addr addr2 (s32 (int val)) (s32 (int val2)) w)
             (\<lambda>(r, w1). Some (Inr (u64_of_int r, w1)))
      else Some (Inr (u64_of_int (- int ENOSYS), w)))"

definition libos_futex ::
  "nat \<Rightarrow> nat \<Rightarrow> (nat \<Rightarrow> nat) \<Rightarrow> nat \<Rightarrow> 32 word \<Rightarrow> nat \<Rightarrow> nat \<Rightarrow> nat \<Rightarrow> futex_world \<Rightarrow> (nat \<times> futex_world) result option" where
  "libos_futex cpu saved seen addr op val utime addr2 w =
     (let cmd = op AND FUTEX_CMD_MASK;
          val2 = (if cmd = FUTEX_REQUEUE \<or> cmd = FUTEX_CMP_REQUEUE \<or> cmd = FUTEX_CMP_REQUEUE_PI \<or> cmd = FUTEX_WAKE_OP
                  then utime mod 2 ^ 32 else 0)
      in libos_do_futex cpu saved seen addr op val addr2 val2 w)"

section \<open>Waking in order\<close>

lemma get_user_val_flags: "get_user_val cpu seen addr fl = (seen addr, fl)"
  by (auto simp: get_user_val_def disableInterrupt_def enableInterrupt_def fun_eq_iff)

lemma spin_on_equal: "(\<And>j. i \<le> j \<Longrightarrow> j \<le> i + n \<Longrightarrow> seen j = val) \<Longrightarrow> spin_on val seen i n = val"
  by (induction n arbitrary: i) auto

lemma spin_on_differs: "seen (i + k) \<noteq> val \<Longrightarrow> k \<le> n \<Longrightarrow> spin_on val seen i n \<noteq> val"
proof (induction n arbitrary: i k)
  case 0 then show ?case by simp
next
  case (Suc n)
  show ?case
  proof (cases k)
    case 0 then show ?thesis using Suc.prems by simp
  next
    case (Suc j) then show ?thesis using Suc.IH [of "Suc i" j] Suc.prems by simp
  qed
qed

text \<open>A thread that sleeps on a futex: in no run queue, and off its CPU or on its way.\<close>

definition asleep :: "scheduler \<Rightarrow> nat \<Rightarrow> bool" where
  "asleep s a \<longleftrightarrow> (case ents s a of None \<Rightarrow> False | Some e \<Rightarrow> \<not> onQueue e)"

lemma enqueueTask_asleep:
  assumes "asleep s a" "cpu < length (eachQueue s)"
  shows "\<exists>s'. enqueueTask cpu a s = Inr s' \<and> \<not> asleep s' a \<and> (\<forall>b. b \<noteq> a \<longrightarrow> asleep s' b = asleep s b) \<and>
    length (eachQueue s') = length (eachQueue s)"
  using assms by (auto simp: asleep_def enqueueTask_def schedNotify_def sched_ops split: option.splits)

lemma wake_loop_correct:
  assumes "distinct q" "\<forall>a\<in>set q. asleep s a" "cpu < length (eachQueue s)"
  shows "\<exists>s'. wake_loop cpu nr ret q s = Inr (ret + int (min (nat (nr - ret)) (length q)), drop (nat (nr - ret)) q, s') \<and>
    (\<forall>a. asleep s' a \<longleftrightarrow> asleep s a \<and> a \<notin> set (take (nat (nr - ret)) q)) \<and> length (eachQueue s') = length (eachQueue s)"
  using assms
proof (induction q arbitrary: ret s)
  case Nil then show ?case by simp
next
  case (Cons t q)
  show ?case
  proof (cases "ret < nr")
    case False then show ?thesis by simp
  next
    case True
    then have n: "nat (nr - ret) = Suc (nat (nr - (ret + 1)))" by simp
    obtain s1 where s1: "enqueueTask cpu t s = Inr s1" "\<not> asleep s1 t" "\<forall>b. b \<noteq> t \<longrightarrow> asleep s1 b = asleep s b"
        "length (eachQueue s1) = length (eachQueue s)"
      using enqueueTask_asleep [of s t cpu] Cons.prems by auto
    have "\<forall>a\<in>set q. asleep s1 a" using Cons.prems s1(3) by auto
    then obtain s' where s': "wake_loop cpu nr (ret + 1) q s1 =
        Inr (ret + 1 + int (min (nat (nr - (ret + 1))) (length q)), drop (nat (nr - (ret + 1))) q, s')"
      "\<forall>a. asleep s' a \<longleftrightarrow> asleep s1 a \<and> a \<notin> set (take (nat (nr - (ret + 1))) q)" "length (eachQueue s') = length (eachQueue s1)"
      using Cons.IH [of s1 "ret + 1"] Cons.prems s1(4) by auto
    show ?thesis
      using True s1 s' Cons.prems unfolding n by (intro exI [of _ s']) (auto simp: min_def)
  qed
qed

text \<open>
  C18. A wake on a bucket that counts waiters takes threads from the front of its queue, one for
  \<open>nr_wake = 1\<close> and all of them for any other number, including 0; it returns how many, makes exactly
  these runnable, and leaves the rest asleep in their order.
\<close>

theorem futex_wake_correct:
  assumes "futexHash w addr = Some fb" "waiters fb \<noteq> 0" "distinct (fq fb)" "\<forall>a\<in>set (fq fb). asleep (sched w) a"
    and "cpu < length (eachQueue (sched w))" "length (fq fb) < 2 ^ 31"
    and k: "k = (if nr_wake = 1 then min 1 (length (fq fb)) else length (fq fb))"
  shows "\<exists>s. futex_wake cpu addr nr_wake w =
      Inr (int k, w\<lparr>sched := s, futexHash := (futexHash w)(addr \<mapsto> fb\<lparr>fq := drop k (fq fb)\<rparr>)\<rparr>) \<and>
    (\<forall>a. asleep s a \<longleftrightarrow> asleep (sched w) a \<and> a \<notin> set (take k (fq fb)))"
proof -
  define nr where "nr = (if nr_wake \<noteq> 1 then INT_MAX else 1)"
  obtain s where s: "wake_loop cpu nr 0 (fq fb) (sched w) = Inr (int (min (nat nr) (length (fq fb))), drop (nat nr) (fq fb), s)"
      "\<forall>a. asleep s a \<longleftrightarrow> asleep (sched w) a \<and> a \<notin> set (take (nat nr) (fq fb))"
    using wake_loop_correct [OF assms(3-5), of nr 0] by auto
  have "min (nat nr) (length (fq fb)) = k" using k assms(6) by (auto simp: nr_def INT_MAX_def)
  moreover have "drop (nat nr) (fq fb) = drop k (fq fb)" "take (nat nr) (fq fb) = take k (fq fb)"
    using k assms(6) by (auto simp: nr_def INT_MAX_def min_def)
  ultimately show ?thesis using s assms(1,2) by (auto simp: futex_wake_def nr_def)
qed

definition sleeping_world :: futex_world where
  "sleeping_world =
     \<lparr>sched = sys (demo_thread 2 (demo_thread 1 (sys_init 2))), futexHash = [100 \<mapsto> \<lparr>fq = [1, 2], waiters = 2\<rparr>],
      futex_counter = 2\<rparr>"

theorem futex_wake_correct_witness:
  "\<exists>s. futex_wake 0 100 1 sleeping_world =
      Inr (1, sleeping_world\<lparr>sched := s, futexHash := [100 \<mapsto> \<lparr>fq = [2], waiters = 2\<rparr>]\<rparr>) \<and> \<not> asleep s 1 \<and> asleep s 2"
proof -
  have "asleep (sched sleeping_world) 1" "asleep (sched sleeping_world) 2" "0 < length (eachQueue (sched sleeping_world))"
    by (simp_all add: sleeping_world_def asleep_def demo_simps)
  then show ?thesis
    using futex_wake_correct [of sleeping_world 100 "\<lparr>fq = [1, 2], waiters = 2\<rparr>" 0 1 1]
    by (auto simp: sleeping_world_def)
qed

section \<open>Lost wake-ups\<close>

lemma queue_unlock_waiters:
  "libos_futex_queue_unlock addr w = Inr w' \<Longrightarrow>
    futexHash w addr = Some fb \<Longrightarrow> w' = w\<lparr>futexHash := (futexHash w)(addr \<mapsto> fb\<lparr>waiters := waiters fb - 1\<rparr>)\<rparr>"
  by (simp add: libos_futex_queue_unlock_def)

lemma wait_end_effect:
  assumes "futex_wait_end cpu addr w = Inr w'" "futexHash w addr = Some fb"
  shows "futexHash w' = (futexHash w)(addr \<mapsto> fb\<lparr>waiters := waiters fb - 1\<rparr>)"
  using assms by (auto simp: futex_wait_end_def libos_futex_queue_unlock_def Let_def rbind_eq_Inr split: if_splits)

lemma wait_begin_effect:
  assumes "futex_wait_begin cpu addr val seen w = Inr (True, w')" "futexHash w addr = Some fb"
  shows "\<exists>t. futexHash w' = (futexHash w)(addr \<mapsto> fb\<lparr>waiters := waiters fb + 1, fq := fq fb @ [t]\<rparr>)"
  using assms
  by (auto simp: futex_wait_begin_def libos_futex_queue_lock_def libos_get_bucket_def libos_futex_enqueue_def bucket_enqueue_def
      Let_def rbind_eq_Inr split: if_splits option.splits prod.splits)

lemma wake_other:
  assumes "futex_wake cpu addr n w = Inr (r, w')" "addr' \<noteq> addr"
  shows "futexHash w' addr' = futexHash w addr'"
  using assms by (auto simp: futex_wake_def Let_def rbind_eq_Inr split: option.splits if_splits)

lemma requeue_one:
  assumes "futex_requeue cpu a1 a2 0 1 w = Some (Inr (r, w'))" "futexHash w a1 = Some \<lparr>fq = [t], waiters = 1\<rparr>"
  shows "futexHash w' a1 = Some \<lparr>fq = [], waiters = 0\<rparr>"
  using assms
  by (auto simp: futex_requeue_def Let_def bucket_enqueue_def split: prod.splits if_splits)


definition requeue_world :: futex_world where
  "requeue_world =
     \<lparr>sched = sys (demo_thread 3 demo_running), futexHash = [100 \<mapsto> \<lparr>fq = [3], waiters = 1\<rparr>], futex_counter = 1\<rparr>"

lemmas futex_simps = futex_requeue_def libos_get_bucket_def FutexBucket_def bucket_enqueue_def futex_wake_def INT_MAX_def
  futex_wait_end_def libos_futex_queue_unlock_def futex_wait_begin_def libos_futex_queue_lock_def libos_futex_enqueue_def
  disableInterrupt_def enableInterrupt_def dequeueTask_def


section \<open>Futexes and the scheduler's invariant\<close>

text \<open>The operations are sequences of the scheduler's steps \<open>Sleep\<close> and \<open>Wake\<close>; no idle thread sleeps.\<close>

definition sleepers_ok :: "futex_world \<Rightarrow> bool" where
  "sleepers_ok w \<longleftrightarrow> (\<forall>addr fb. futexHash w addr = Some fb \<longrightarrow> set (fq fb) \<inter> set (idle (sched w)) = {})"

lemma wake_loop_keeps:
  assumes "sched_inv m" "c < MAX_NUM_CPU" "phase m c = Run" "set q \<inter> set (idle (sys m)) = {}"
    and "wake_loop c nr ret q (sys m) = Inr (r, q', s)"
  shows "sched_inv (m\<lparr>sys := s\<rparr>) \<and> idle s = idle (sys m) \<and> set q' \<subseteq> set q"
  using assms
proof (induction q arbitrary: ret m)
  case Nil then show ?case by (auto simp: sched_inv_def)
next
  case (Cons t q)
  show ?case
  proof (cases "ret < nr")
    case False then show ?thesis using Cons.prems by (auto simp: sched_inv_def)
  next
    case True
    then obtain s1 where s1: "enqueueTask c t (sys m) = Inr s1" "wake_loop c nr (ret + 1) q s1 = Inr (r, q', s)"
      using Cons.prems(5) by (auto simp: rbind_eq_Inr)
    have i: "idle s1 = idle (sys m)" using enqueueTask_effect [OF s1(1)] by auto
    have "sched_inv (m\<lparr>sys := s1\<rparr>)" using inv_enqueue [OF Cons.prems(1-3) _ s1(1)] Cons.prems(4) by auto
    then show ?thesis using Cons.IH [of "m\<lparr>sys := s1\<rparr>" "ret + 1"] Cons.prems i s1(2) by auto
  qed
qed

lemma futex_wake_keeps_sched:
  assumes "sched_inv m" "sys m = sched w" "c < MAX_NUM_CPU" "phase m c = Run" "sleepers_ok w" "futex_wake c addr n w = Inr (r, w')"
  shows "sched_inv (m\<lparr>sys := sched w'\<rparr>) \<and> sleepers_ok w'"
proof (cases "\<exists>fb. futexHash w addr = Some fb \<and> waiters fb \<noteq> 0")
  case False
  then have "w' = w" using assms(6) by (auto simp: futex_wake_def Let_def split: option.splits)
  then show ?thesis using assms(1,2,5) by (simp add: sched_inv_def)
next
  case True
  then obtain fb nr q s where fb: "futexHash w addr = Some fb" "wake_loop c nr 0 (fq fb) (sched w) = Inr (r, q, s)"
      "w' = w\<lparr>sched := s, futexHash := (futexHash w)(addr \<mapsto> fb\<lparr>fq := q\<rparr>)\<rparr>"
    using assms(6) by (auto simp: futex_wake_def Let_def rbind_eq_Inr split: if_splits)
  have "sched_inv (m\<lparr>sys := s\<rparr>) \<and> idle s = idle (sys m) \<and> set q \<subseteq> set (fq fb)"
    using wake_loop_keeps [of m c "fq fb"] assms fb unfolding sleepers_ok_def by auto
  then show ?thesis using assms(2,5) fb unfolding sleepers_ok_def by (simp, blast)
qed

lemma futex_wait_keeps_sched:
  assumes inv: "sched_inv m" and w: "sys m = sched w" "c < MAX_NUM_CPU" "phase m c = Run" "sleepers_ok w"
    and b: "futex_wait_begin c addr val seen w = Inr (b, w')"
  shows "sched_inv (m\<lparr>sys := sched w'\<rparr>) \<and> sleepers_ok w'"
proof (cases "spin_on val seen 0 max_wait = val")
  case False
  then show ?thesis using inv w b
    by (auto simp: futex_wait_begin_def libos_futex_queue_lock_def libos_get_bucket_def libos_futex_queue_unlock_def
        sleepers_ok_def FutexBucket_def sched_inv_def disjoint_iff split: option.splits if_splits)
next
  case True
  let ?s = "(sched w)\<lparr>inInterrupt := (inInterrupt (sched w))(c := True)\<rparr>"
  define fb where "fb = (case futexHash w addr of None \<Rightarrow> FutexBucket | Some fb \<Rightarrow> fb)"
  have lock: "libos_futex_queue_lock addr w = w\<lparr>futexHash := (futexHash w)(addr \<mapsto> fb\<lparr>waiters := waiters fb + 1\<rparr>)\<rparr>"
    by (cases "futexHash w addr") (simp_all add: libos_futex_queue_lock_def libos_get_bucket_def fb_def)
  obtain s where s: "dequeueTask (current ?s ! c) ?s = Inr s"
    using b by (cases "dequeueTask (current ?s ! c) ?s")
      (simp_all add: futex_wait_begin_def True lock libos_futex_enqueue_def disableInterrupt_def)
  have h: "futexHash w' = (futexHash w)(addr \<mapsto> fb\<lparr>waiters := waiters fb + 1, fq := fq fb @ [current s ! c]\<rparr>)"
    and s': "sched w' = s \<or> sched w' = s\<lparr>inInterrupt := enableInterrupt c (inInterrupt s)\<rparr>"
    using b s by (auto simp: futex_wait_begin_def True lock libos_futex_enqueue_def bucket_enqueue_def disableInterrupt_def Let_def)
  have q: "fq fb = [] \<or> (\<exists>fb0. futexHash w addr = Some fb0 \<and> fq fb = fq fb0)"
    by (auto simp: fb_def FutexBucket_def split: option.splits)
  have "sched_inv (m\<lparr>sys := ?s\<rparr>)" using inv w(1) by (simp add: sched_inv_def)
  then have d: "sched_inv (m\<lparr>sys := s\<rparr>)" "current s ! c \<notin> set (idle s)" "idle s = idle (sched w)"
    using inv_dequeue [of "m\<lparr>sys := ?s\<rparr>" c s] w(2,3) s by auto
  have "sched_inv (m\<lparr>sys := sched w'\<rparr>)" "idle (sched w') = idle s" using d(1) s' by (auto simp: sched_inv_def)
  moreover have "set (fq fb) \<inter> set (idle s) = {}" using q d(3) w(4) unfolding sleepers_ok_def by (elim disjE exE conjE) simp_all
  moreover have "set (fq fb') \<inter> set (idle s) = {}" if "futexHash w' x = Some fb'" for x fb'
    using that d(2,3) w(4) h \<open>set (fq fb) \<inter> set (idle s) = {}\<close> unfolding sleepers_ok_def by (cases "x = addr") auto
  ultimately show ?thesis unfolding sleepers_ok_def by simp
qed

end
