(* ===== verification/Async_Request.thy ===== *)
theory Async_Request
  imports Sched
begin

text \<open>
  The requests that a thread of the enclave makes (\<open>libOS/async_request.cpp\<close>): it takes the request object
  of its thread, fills it, pushes it on the queue and sleeps until the server is done. Each call is in two
  parts: \<open>..._begin\<close> until the thread waits, and \<open>..._end\<close> when it runs again.
\<close>

text \<open>\<open>umaps\<close> is the map of \<open>Singleton<ReqT>\<close>, by the tag of the type. The objects are those of the scheduler.\<close>

record 'h async_world =
  asched :: scheduler
  umaps :: "int \<Rightarrow> (int \<rightharpoonup> nat) option"
  amem :: "'h memory"
  requestQueue :: "nat list"

definition current_id :: "nat \<Rightarrow> scheduler \<Rightarrow> int option result" where
  "current_id cpu s =
     (let a = current s ! cpu in
      if a = 0 then Inr None else case threads s a of None \<Rightarrow> Inl Wild | Some t \<Rightarrow> Inr (Some (thread_id t)))"

definition take_request ::
  "('h \<Rightarrow> (nat \<times> 'h) result) \<Rightarrow> nat \<Rightarrow> request \<Rightarrow> 'h async_world \<Rightarrow> (nat \<times> 'h async_world) result" where
  "take_request alloc cpu init w =
     rbind (current_id cpu (asched w)) (\<lambda>i.
     let tag = requestType init in
     rbind (getRequest alloc i init
              \<lparr>umap = umaps w tag, objects = requests (asched w), pool_heap = heap (amem w)\<rparr>) (\<lambda>(a, p).
       Inr (a, w\<lparr>umaps := (umaps w)(tag := umap p), asched := (asched w)\<lparr>requests := objects p\<rparr>,
                 amem := (amem w)\<lparr>heap := pool_heap p\<rparr>\<rparr>)))"

definition put_request :: "nat \<Rightarrow> request \<Rightarrow> 'h async_world \<Rightarrow> 'h async_world" where
  "put_request a r w = w\<lparr>asched := (asched w)\<lparr>requests := (requests (asched w))(a \<mapsto> r)\<rparr>\<rparr>"

definition push_request :: "nat \<Rightarrow> 'h async_world \<Rightarrow> 'h async_world" where
  "push_request a w = w\<lparr>requestQueue := requestQueue w @ [a]\<rparr>"

definition async_wait :: "nat \<Rightarrow> nat \<Rightarrow> nat \<Rightarrow> 'h async_world \<Rightarrow> 'h async_world result option" where
  "async_wait cpu saved a w = lbind (sleepWait cpu saved a (asched w)) (\<lambda>s. Some (Inr (w\<lparr>asched := s\<rparr>)))"

section \<open>Sleep and swap\<close>

definition async_sleep ::
  "('h \<Rightarrow> (nat \<times> 'h) result) \<Rightarrow> nat \<Rightarrow> nat \<Rightarrow> nat \<Rightarrow> 'h async_world \<Rightarrow> 'h async_world result option" where
  "async_sleep alloc cpu saved ns w =
     lbind (Some (take_request alloc cpu (SleepRequest ns) w)) (\<lambda>(a, w1). async_wait cpu saved a (push_request a w1))"

text \<open>\<open>junk\<close> is the address that the object holds before it is set.\<close>

definition async_swap ::
  "('h \<Rightarrow> (nat \<times> 'h) result) \<Rightarrow> nat \<Rightarrow> nat \<Rightarrow> nat \<Rightarrow> nat \<Rightarrow> 'h async_world \<Rightarrow> (nat \<times> 'h async_world) result option" where
  "async_swap alloc cpu saved junk addr w =
     lbind (Some (take_request alloc cpu (SwapRequest junk) w)) (\<lambda>(a, w1).
       case requests (asched w1) a of
         None \<Rightarrow> Some (Inl Wild)
       | Some r \<Rightarrow>
           lbind (async_wait cpu saved a (push_request a (put_request a (r\<lparr>body := SwapBody addr\<rparr>) w1)))
             (\<lambda>w2. Some (Inr (a, w2))))"

definition async_swap_end :: "nat \<Rightarrow> 'h async_world \<Rightarrow> int result" where
  "async_swap_end a w =
     (case requests (asched w) a of
        None \<Rightarrow> Inl Wild
      | Some r \<Rightarrow> (case body r of SwapBody addr \<Rightarrow> Inr (s32 (int addr)) | _ \<Rightarrow> Inl Undefined))"

text \<open>\<open>hint\<close>: a read in a transaction tells whether the page is there; \<open>started\<close> says that it did not abort.\<close>

definition hint ::
  "('h \<Rightarrow> (nat \<times> 'h) result) \<Rightarrow> bool \<Rightarrow> nat \<Rightarrow> nat \<Rightarrow> nat \<Rightarrow> nat \<Rightarrow> 'h async_world \<Rightarrow> 'h async_world result option" where
  "hint alloc started cpu saved junk addr w =
     (if started then Some (Inr w) else lbind (async_swap alloc cpu saved junk addr w) (\<lambda>(_, w1). Some (Inr w1)))"

section \<open>System calls\<close>

text \<open>Calls that the tables do not know: some return at once, the others stop the libOS.\<close>

definition unsupported :: "nat \<Rightarrow> nat result" where
  "unsupported n =
     (if 13 \<le> n \<and> n \<le> 15 then Inr 0
      else if n = 160 \<or> n = 97 \<or> n = 302 then Inr 0
      else if n = 12 then Inr (u64_of_int (- 1))
      else Inl Ud2)"

definition spin_first :: "nat \<Rightarrow> bool" where
  "spin_first n \<longleftrightarrow> n = SYS_READ \<or> n = SYS_WRITE \<or> n = SYS_WRITEV \<or> n = SYS_CLOSE \<or> n = SYS_GETPID"

definition set_args :: "int list \<Rightarrow> SyscallRequest \<Rightarrow> SyscallRequest" where
  "set_args vals q = q\<lparr>args := map (\<lambda>i. if i < args_num (fm_list q) then (args q ! i)\<lparr>arg := vals ! i\<rparr> else args q ! i) [0..<6]\<rparr>"

datatype syscall_start = Returned nat | Waiting nat "int list" | Ready nat "int list"

text \<open>
  \<open>vals\<close> are the variadic arguments, \<open>stack\<close> and \<open>ret\<close> what memory held, and \<open>seen\<close> what the loads of
  the flag return. \<open>Ready\<close> and \<open>Waiting\<close> carry the request and the saved arguments.
\<close>

definition async_syscall_begin ::
  "('h \<Rightarrow> (nat \<times> 'h) result) \<Rightarrow> 'h allocate \<Rightarrow> 'h release \<Rightarrow> syscall_tables \<Rightarrow> format_t \<Rightarrow> int \<Rightarrow> (nat \<Rightarrow> bool) \<Rightarrow>
   nat \<Rightarrow> nat \<Rightarrow> nat \<Rightarrow> int list \<Rightarrow> 'h async_world \<Rightarrow> (syscall_start \<times> 'h async_world) result option" where
  "async_syscall_begin alloc blk rel tables stack ret seen cpu saved n vals w =
     (let (known, fm) = interpretSyscall tables stack stack n in
      if \<not> known then lbind (Some (unsupported n)) (\<lambda>v. Some (Inr (Returned v, w)))
      else
        lbind (Some (take_request alloc cpu (new_SyscallRequest ret stack) w)) (\<lambda>(a, w1).
        if a = 0 then Some (Inr (Returned (u64_of_int (- 1)), w1))
        else case requests (asched w1) a of
          None \<Rightarrow> Some (Inl Wild)
        | Some r \<Rightarrow>
            (case body r of
               SyscallBody q0 \<Rightarrow>
                 let q = set_args vals (q0\<lparr>fm_list := fm\<rparr>); saved_args = take (args_num fm) vals in
                 lbind (Some (fillArgs blk tables q (amem w1))) (\<lambda>(filled, q1, m).
                 let w2 = (put_request a (r\<lparr>body := SyscallBody q1\<rparr>) w1)\<lparr>amem := m\<rparr> in
                 if \<not> filled
                 then lbind (Some (destroy_SyscallRequest rel q1 m))
                        (\<lambda>m2. Some (Inr (Returned (u64_of_int (- 1)), w2\<lparr>amem := m2\<rparr>)))
                 else
                   let w3 = push_request a w2 in
                   if spin_first n \<and> waitOnDone seen 0x50000 then Some (Inr (Ready a saved_args, w3))
                   else lbind (async_wait cpu saved a w3) (\<lambda>w4. Some (Inr (Waiting a saved_args, w4))))
             | _ \<Rightarrow> Some (Inl Undefined))))"

definition async_syscall_end :: "'h release \<Rightarrow> nat \<Rightarrow> int list \<Rightarrow> 'h async_world \<Rightarrow> (nat \<times> 'h async_world) result" where
  "async_syscall_end rel a enclave_args w =
     (case requests (asched w) a of
        None \<Rightarrow> Inl Wild
      | Some r \<Rightarrow>
          (case body r of
             SyscallBody q \<Rightarrow>
               rbind (fillEnclave q enclave_args (amem w)) (\<lambda>(_, m).
               rbind (destroy_SyscallRequest rel q m) (\<lambda>m2. Inr (u64_of_int (sys_ret q), w\<lparr>amem := m2\<rparr>)))
           | _ \<Rightarrow> Inl Undefined))"

lemma unsupported_only:
  assumes "map_of (st_table tables) n = None"
  shows "async_syscall_begin alloc blk rel tables stack ret seen cpu saved n vals w =
    (case unsupported n of Inl e \<Rightarrow> Some (Inl e) | Inr v \<Rightarrow> Some (Inr (Returned v, w)))"
  using assms by (cases "unsupported n") (simp_all add: async_syscall_begin_def interpretSyscall_def)

end
