(* ===== verification/Libos_Main.thy ===== *)
theory Libos_Main
  imports Libos_Start Futex Async_Request
begin

text \<open>
  The start of the libOS on the main thread (\<open>libOS/libOS_main.cpp\<close>): it checks the control structure, sets the two
  heaps up, fills the tables, makes the scheduler with its idle thread and the thread of the program, and hands
  over to the scheduler. A thread that is not the main thread only gets an idle thread and enters the scheduler.
  Memory that a constructor leaves as it was is a parameter, and so are the blocks for stacks.
\<close>

section \<open>State and operations\<close>

record libos_state =
  lo_heap :: libos_heap
  lo_buckets :: "slub_cache_obj list"
  lo_tables :: "syscall_tables option"
  lo_sched :: scheduler
  lo_requestQueue :: nat
  lo_panic :: nat
  lo_tlsBase :: nat
  lo_tlsLength :: nat
  lo_pjiffies :: nat
  lo_argv :: nat

text \<open>
  \<open>bm_size\<close> and \<open>bm_alloc\<close> are the sizes of a chunk header and of an allocator object, \<open>bm_bits\<close> the bytes
  of the heap before it is set up, \<open>bm_csizeof\<close> the sizes of C types. A thread is made from its stack, its
  stack for preemption, its save region, its TCB, its number and its address.
\<close>

record thread_blocks =
  tb_stack :: nat
  tb_pre :: nat
  tb_xsave :: nat
  tb_tcb :: nat
  tb_num :: int
  tb_addr :: nat

record boot_memory =
  bm_size :: nat
  bm_alloc :: nat
  bm_bits :: "nat \<Rightarrow> u8"
  bm_csizeof :: "nat \<Rightarrow> nat"
  bm_entity :: sched_entity
  bm_fcontext :: "nat \<Rightarrow> nat \<Rightarrow> nat"
  bm_kernel_threads :: nat
  bm_idle :: thread_blocks
  bm_main :: thread_blocks
  bm_context :: nat

definition start_heaps :: "boot_memory \<Rightarrow> main_args_t \<Rightarrow> libos_heap \<Rightarrow> libos_heap option result" where
  "start_heaps bm ma h =
     rbind (initUnsafeMalloc (bm_size bm) (bm_alloc bm) (unsafeHeapBase ma) (unsafeHeapLength ma) h) (\<lambda>h1.
       initSafeMalloc (bm_size bm) (bm_alloc bm) (10 * 4096)
         (h1\<lparr>pageManager := mmap_init (heapBase ma) (heapLength ma) (bm_bits bm)\<rparr>))"

definition start_idle :: "boot_memory \<Rightarrow> nat \<Rightarrow> scheduler \<Rightarrow> scheduler result" where
  "start_idle bm cpu =
     setIdle (bm_entity bm) (bm_fcontext bm) (tb_stack (bm_idle bm)) (tb_pre (bm_idle bm)) (tb_xsave (bm_idle bm))
       (tb_tcb (bm_idle bm)) (tb_num (bm_idle bm)) cpu (tb_addr (bm_idle bm))"

definition start_thread :: "boot_memory \<Rightarrow> scheduler \<Rightarrow> scheduler" where
  "start_thread bm =
     UserThread (bm_entity bm) (bm_fcontext bm) (tb_stack (bm_main bm)) (tb_pre (bm_main bm)) (tb_xsave (bm_main bm))
       (tb_tcb (bm_main bm)) (tb_num (bm_main bm)) (tb_addr (bm_main bm))"

definition start_sched :: "boot_memory \<Rightarrow> nat \<Rightarrow> scheduler result option" where
  "start_sched bm cpu =
     lbind (Some (start_idle bm cpu (scheduler_init (bm_kernel_threads bm)))) (\<lambda>s1.
     lbind (Some (enqueueTask cpu (tb_addr (bm_main bm)) (start_thread bm s1))) (\<lambda>s2.
       schedule cpu (bm_context bm) s2))"

text \<open>
  The result of the whole call: the return value for a bad control structure, or the state in which the
  scheduler has switched to a thread. \<open>m\<close> is the memory that holds the vectors.
\<close>

datatype start_result = Returned int | Running libos_state libOS_control_struct

definition libOS_start ::
  "boot_memory \<Rightarrow> (nat \<Rightarrow> nat) \<Rightarrow> nat \<Rightarrow> nat \<Rightarrow> libOS_shared_tls \<Rightarrow> libOS_control_struct option \<Rightarrow> libos_state \<Rightarrow> start_result result option" where
  "libOS_start bm m cpu sp tls ctrl st =
     (case ctrl of
        None \<Rightarrow> Some (Inr (Returned (-1)))
      | Some cs \<Rightarrow>
          if magic cs \<noteq> CONTROL_STRUCT_MAGIC then Some (Inr (Returned (-1)))
          else if \<not> cs_isMain cs
          then
            lbind (Some (start_idle bm cpu (lo_sched st))) (\<lambda>s1.
            lbind (schedule cpu (bm_context bm) s1) (\<lambda>s2. Some (Inr (Running (st\<lparr>lo_sched := s2\<rparr>) cs))))
          else
            let ma = mainArgs cs in
            lbind (case start_heaps bm ma (lo_heap st) of
                     Inl e \<Rightarrow> Some (Inl e) | Inr None \<Rightarrow> None | Inr (Some h) \<Rightarrow> Some (Inr h)) (\<lambda>h.
            lbind (test_auxv m sp (argc ma)) (\<lambda>_.
            lbind (Some (initSyscallTable (bm_csizeof bm) (lo_tables st))) (\<lambda>tables.
            lbind (start_sched bm cpu) (\<lambda>s.
              Some (Inr (Running
                (st\<lparr>lo_heap := h, lo_buckets := init_unsafe_slub_buckets, lo_tables := tables, lo_sched := s,
                    lo_requestQueue := cs_requestQueue cs, lo_panic := cs_panic cs, lo_tlsBase := tlsBase ma,
                    lo_tlsLength := tlsSize ma, lo_pjiffies := pjiffies tls, lo_argv := sp\<rparr>)
                (cs\<lparr>cs_isMain := False\<rparr>))))))))"

text \<open>\<open>newThread\<close> is the first function of the program's thread: it lets interrupts in, sets the futexes up and tells
  the loader that the scheduler runs; \<open>queue\<close> are the requests under way. Then it calls the C library.\<close>

definition newThread_begin :: "nat \<Rightarrow> nat \<Rightarrow> nat list \<Rightarrow> futex_world \<Rightarrow> nat list \<times> futex_world" where
  "newThread_begin cpu ready queue w =
     (let w1 = w\<lparr>sched := (sched w)\<lparr>scheduler.inInterrupt := (scheduler.inInterrupt (sched w))(cpu := False)\<rparr>\<rparr>
      in (queue @ [ready], INIT_FUTEX_QUEUE w1))"

section \<open>The heaps\<close>

definition boot_ok :: "boot_memory \<Rightarrow> main_args_t \<Rightarrow> nat \<Rightarrow> bool" where
  "boot_ok bm ma q \<longleftrightarrow>
     heapBase ma mod 4096 = 0 \<and> 0 < heapBase ma \<and> heapLength ma = q * 32768 \<and> 3 \<le> q \<and>
     heapBase ma + q * 32768 + 4096 < 2 ^ 64 \<and> q * 32768 + 4096 < 2 ^ 31 \<and>
     0 < bm_size bm \<and> bm_alloc bm + bm_size bm < 10 * 4096 \<and>
     0 < unsafeHeapBase ma \<and> bm_alloc bm + bm_size bm < unsafeHeapLength ma \<and> unsafeHeapLength ma \<le> 2 ^ 32 \<and>
     unsafeHeapBase ma + unsafeHeapLength ma < 2 ^ 64"

lemma Allocator_fresh:
  assumes "heap_ok MA lo hi" "lo \<le> base" "base + len \<le> hi" "MA < len"
  shows "\<exists>al. Allocator MA Map.empty len base = Inr al \<and> alloc_inv MA lo hi {} al \<and> free_bytes MA al = {base ..< base + len}"
  using expandHeap_aux [OF empty_inv [OF assms(1), of Map.empty] assms(2-4)]
  by (fastforce simp: Allocator_def free_bytes_def CHUNK_LIST_SIZE_def)

lemma initUnsafeMalloc_ok:
  assumes "boot_ok bm ma q"
  shows "\<exists>al. initUnsafeMalloc (bm_size bm) (bm_alloc bm) (unsafeHeapBase ma) (unsafeHeapLength ma) h = Inr (h\<lparr>unsafeAllocator := Some al\<rparr>) \<and>
    alloc_inv (bm_size bm) (unsafeHeapBase ma) (unsafeHeapBase ma + unsafeHeapLength ma) {} al"
proof -
  have "sub64 (unsafeHeapLength ma) (bm_alloc bm) = unsafeHeapLength ma - bm_alloc bm"
      "add64 (unsafeHeapBase ma) (bm_alloc bm) = unsafeHeapBase ma + bm_alloc bm"
    using assms by (auto simp: boot_ok_def sub64_small add64_small)
  moreover have "\<exists>al. Allocator (bm_size bm) Map.empty (unsafeHeapLength ma - bm_alloc bm) (unsafeHeapBase ma + bm_alloc bm) = Inr al \<and>
      alloc_inv (bm_size bm) (unsafeHeapBase ma) (unsafeHeapBase ma + unsafeHeapLength ma) {} al \<and>
      free_bytes (bm_size bm) al = {unsafeHeapBase ma + bm_alloc bm ..< unsafeHeapBase ma + bm_alloc bm + (unsafeHeapLength ma - bm_alloc bm)}"
    using assms by (intro Allocator_fresh) (auto simp: boot_ok_def heap_ok_def)
  ultimately show ?thesis by (auto simp: initUnsafeMalloc_def)
qed

lemma fresh_page_manager:
  assumes "boot_ok bm ma q"
  shows "pm_inv (PageManager (heapBase ma) (heapLength ma) bits)" "used (PageManager (heapBase ma) (heapLength ma) bits) = {}"
    "10 \<le> pages (PageManager (heapBase ma) (heapLength ma) bits)" "clock (PageManager (heapBase ma) (heapLength ma) bits) = 0"
proof -
  have b: "heapBase ma mod 4096 = 0" "0 < q" "heapBase ma + q * 32768 + 4096 < 2 ^ 64" "q * 32768 + 4096 < 2 ^ 31" "0 < heapBase ma"
    and len: "heapLength ma = q * 32768" "3 \<le> q" using assms by (auto simp: boot_ok_def)
  show "pm_inv (PageManager (heapBase ma) (heapLength ma) bits)" "used (PageManager (heapBase ma) (heapLength ma) bits) = {}"
    using PageManager_wf [OF b, of bits] len(1) by auto
  show "clock (PageManager (heapBase ma) (heapLength ma) bits) = 0" by (simp add: PageManager_def Let_def)
  have "page_mask (headerLen + q + 4095) \<le> q + 4127" using page_mask_le [of "headerLen + q + 4095"] by (simp add: headerLen_def)
  then have "10 * 4096 \<le> q * 32768 - page_mask (headerLen + q + 4095)" using len(2) by linarith
  then show "10 \<le> pages (PageManager (heapBase ma) (heapLength ma) bits)"
    using PageManager_fields(2) [OF b(1-3), of bits] len(1) by (simp add: pages_def less_eq_div_iff_mult_less_eq)
qed

lemma initSafeMalloc_ok:
  assumes "boot_ok bm ma q" "pageManager h = Some (PageManager (heapBase ma) (heapLength ma) bits)"
  shows "\<exists>h'. initSafeMalloc (bm_size bm) (bm_alloc bm) (10 * 4096) h = Inr (Some h') \<and> heap_inv (bm_size bm) {} h' \<and>
    unsafeAllocator h' = unsafeAllocator h"
proof -
  let ?pm = "PageManager (heapBase ma) (heapLength ma) bits" and ?MA = "bm_size bm" and ?as = "bm_alloc bm"
  note pm = fresh_page_manager [OF assms(1), of bits]
  have n: "add64 40960 4095 = 45055" "s32 10 = 10" by (simp_all add: add64_def s32_small)
  obtain j pm' where a: "allocPages (int 10) ?pm = Some (availableBase ?pm + j * 4096, pm')" and j: "j \<le> 0"
    using allocPages_succeeds_aux [OF pm(1), of 10 0] pm(2-4) by auto
  define r where "r = availableBase ?pm + j * 4096"
  have g: "libos_mmap 0 40960 (Some ?pm) = Some (r, Some pm')"
    using a by (simp add: libos_mmap_def Let_def n r_def)
  have inv: "0 < availableBase ?pm" "availableBase ?pm + availableLength ?pm + 4096 < 2 ^ 64" "availableLength ?pm + 4096 < 2 ^ 31"
    using pm(1) by (simp_all add: pm_inv_def)
  have r: "r = availableBase ?pm" "r \<noteq> MAP_FAILED" "r \<noteq> 0" using j inv by (auto simp: r_def MAP_FAILED_def)
  have pm': "pm_inv pm'" "availableBase pm' = availableBase ?pm" "availableLength pm' = availableLength ?pm"
    using libos_mmap_alloc [OF pm(1), of 40960] g by (auto simp: alloc_spec_def)
  have f: "{r ..< r + 40960} \<subseteq> taken (Some pm')" "r + 40960 \<le> availableBase ?pm + availableLength ?pm"
    using libos_mmap_fresh [OF pm(1) _ _ g r(2)] by auto
  have as: "?as + ?MA < 40960" "0 < ?MA" "?MA < 40960 - ?as" using assms(1) by (auto simp: boot_ok_def)
  obtain al where al: "Allocator ?MA Map.empty (40960 - ?as) (r + ?as) = Inr al"
      "alloc_inv ?MA (availableBase ?pm) (availableBase ?pm + availableLength ?pm) {} al"
      "free_bytes ?MA al = {r + ?as ..< r + ?as + (40960 - ?as)}"
    using Allocator_fresh [of ?MA "availableBase ?pm" "availableBase ?pm + availableLength ?pm" "r + ?as" "40960 - ?as"] inv r(1) f(2) as
    by (auto simp: heap_ok_def)
  have "heap.backed ?MA {} al (Some pm')"
  proof -
    have "free_bytes ?MA al \<subseteq> {r ..< r + 40960}" using al(3) as(1) by auto
    then have "region ?MA al x \<subseteq> taken (Some pm')" if "x \<in> set (root al)" for x
      using that f(1) unfolding free_bytes_def by blast
    then show ?thesis using al(2) pm' unfolding heap.backed_def pm_ok_def heap_lo_def heap_hi_def by simp
  qed
  moreover have "sub64 40960 ?as = 40960 - ?as" "add64 r ?as = r + ?as"
    using as f(2) inv(2) by (simp_all add: sub64_small add64_small)
  ultimately show ?thesis using g r(2,3) al(1) assms(2) by (auto simp: initSafeMalloc_def heap_inv_def)
qed

lemma start_heaps_ok:
  assumes "boot_ok bm ma q"
  shows "\<exists>h'. start_heaps bm ma h = Inr (Some h') \<and> heap_inv (bm_size bm) {} h' \<and>
    (\<exists>al. unsafeAllocator h' = Some al \<and>
       alloc_inv (bm_size bm) (unsafeHeapBase ma) (unsafeHeapBase ma + unsafeHeapLength ma) {} al)"
proof -
  obtain al where al: "initUnsafeMalloc (bm_size bm) (bm_alloc bm) (unsafeHeapBase ma) (unsafeHeapLength ma) h = Inr (h\<lparr>unsafeAllocator := Some al\<rparr>)"
      "alloc_inv (bm_size bm) (unsafeHeapBase ma) (unsafeHeapBase ma + unsafeHeapLength ma) {} al"
    using initUnsafeMalloc_ok [OF assms] by blast
  obtain h' where "initSafeMalloc (bm_size bm) (bm_alloc bm) (10 * 4096)
        (h\<lparr>unsafeAllocator := Some al, pageManager := mmap_init (heapBase ma) (heapLength ma) (bm_bits bm)\<rparr>) = Inr (Some h')"
      "heap_inv (bm_size bm) {} h'" "unsafeAllocator h' = Some al"
    using initSafeMalloc_ok [OF assms, of "h\<lparr>unsafeAllocator := Some al, pageManager := mmap_init (heapBase ma) (heapLength ma) (bm_bits bm)\<rparr>" "bm_bits bm"]
    by (auto simp: mmap_init_def)
  then show ?thesis using al by (auto simp: start_heaps_def)
qed

lemma start_sched_ok:
  assumes "cpu < MAX_NUM_CPU" "\<not> onQueue (bm_entity bm)" "\<not> running (bm_entity bm)" "tb_addr (bm_main bm) \<noteq> 0" "tb_addr (bm_idle bm) \<noteq> 0"
    "tb_addr (bm_main bm) \<noteq> tb_addr (bm_idle bm)"
  shows "\<exists>s. start_sched bm cpu = Some (Inr s) \<and> current s ! cpu = tb_addr (bm_main bm) \<and> idle s ! cpu = tb_addr (bm_idle bm) \<and>
    \<not> scheduler.inInterrupt s cpu \<and> numTotalThread s = 1 \<and> (\<forall>c < MAX_NUM_CPU. eachQueue s ! c = [])"
  using assms unfolding start_sched_def start_idle_def start_thread_def
  by (simp add: setIdle_def schedule_def watchListCheck_def UserThread_def scheduler_init_def PerCPU_def enqueueTask_def SchedEntity_def
    LIBOS_ASSERT_def PerCPU_deref_def with_se_def put_se_def put_queue_def schedNotify_def tick_def put_prev_def pick_def switch_def jumpTo_def
    arrive_def setFSReg_def enableInterrupt_def disableInterrupt_def Let_def nth_list_update)

section \<open>Starting\<close>

definition sched_blocks_ok :: "boot_memory \<Rightarrow> bool" where
  "sched_blocks_ok bm \<longleftrightarrow> \<not> onQueue (bm_entity bm) \<and> \<not> running (bm_entity bm) \<and> tb_addr (bm_main bm) \<noteq> 0 \<and>
     tb_addr (bm_idle bm) \<noteq> 0 \<and> tb_addr (bm_main bm) \<noteq> tb_addr (bm_idle bm)"

lemma libOS_start_rejects:
  "libOS_start bm m cpu sp tls None st = Some (Inr (Returned (-1)))"
  "magic cs \<noteq> CONTROL_STRUCT_MAGIC \<Longrightarrow> libOS_start bm m cpu sp tls (Some cs) st = Some (Inr (Returned (-1)))"
  by (simp_all add: libOS_start_def)


definition demo_boot :: boot_memory where
  "demo_boot = \<lparr>bm_size = 96, bm_alloc = 1000, bm_bits = \<lambda>_. 255, bm_csizeof = \<lambda>_. 8,
     bm_entity = demo_entity, bm_fcontext = \<lambda>a _. a, bm_kernel_threads = 2,
     bm_idle = \<lparr>tb_stack = 0x1000, tb_pre = 0x2000, tb_xsave = 0x3000, tb_tcb = 0x4000, tb_num = 0, tb_addr = 0x5000\<rparr>,
     bm_main = \<lparr>tb_stack = 0x6000, tb_pre = 0x7000, tb_xsave = 0x8000, tb_tcb = 0x9000, tb_num = 1, tb_addr = 0xa000\<rparr>, bm_context = 0\<rparr>"

definition demo_control :: libOS_control_struct where
  "demo_control = \<lparr>mainArgs = demo_args\<lparr>heapBase := 0x100000, heapLength := 10 * 32768, unsafeHeapBase := 0x900000, unsafeHeapLength := 0x10000\<rparr>,
     magic = CONTROL_STRUCT_MAGIC, cs_isMain = True, cs_requestQueue = 1, cs_panic = 2, cs_timeStamp = 3\<rparr>"

definition demo_libos :: libos_state where
  "demo_libos = \<lparr>lo_heap = ex_heap, lo_buckets = [], lo_tables = None, lo_sched = scheduler_init 0, lo_requestQueue = 0, lo_panic = 0,
     lo_tlsBase = 0, lo_tlsLength = 0, lo_pjiffies = 0, lo_argv = 0\<rparr>"

definition demo_shared_tls :: libOS_shared_tls where
  "demo_shared_tls = \<lparr>next_exit = 0, loader_stack = 0, enclave_stack = 0, reentry = 0, enclave_return_val = 0, controlStruct_ptr = 0,
     interrupt_stack = 0, loadBias = 0, threadID = 0, interrupt_exit = 0, interrupt_outside_stack = 0, tls_preempt_stack = 0, inInterrupt_ptr = 0,
     numTotalThread_ptr = 0, tls_isMain = 1, pjiffies = 0, request_obj = 0, buffer_index = 0, tls_buffer = [], dbg_pbuffer_index = 0,
     dbg_buffer = 0, numActiveThread_ptr = 0, tls_numKernelThreads = 2\<rparr>"

lemma test_auxv_zero: "test_auxv (\<lambda>_. 0) sp c = Some (Inr Map.empty)"
  unfolding test_auxv_def Let_def by (subst find_null.simps, subst find_null.simps, subst aux_scan.simps) simp


end
