(* ===== verification/Loader_Entry.thy ===== *)
theory Loader_Entry
  imports Libos_Start
begin

text \<open>
  How the loader enters the enclave and handles asynchronous exits (\<open>loader/entry.s\<close>), on the machine of the
  preemption code, together with the code on the other side (\<open>libOS/start.s\<close>, \<open>libOS/interrupt.cpp\<close>). The two
  lemmas at the end compose them: a call of \<open>__eenter\<close> returns to its caller, and an asynchronous exit is
  not noticed by the interrupted code, whatever the loader decides short of a dump. Loader and enclave share one
  memory. C functions are the definitions of the other theories; what a compiled function does to the registers
  and to its own stack beside that is an argument.
\<close>

section \<open>Entering\<close>

definition EENTER_PROLOG :: "instr list" where
  "EENTER_PROLOG =
     [Push RBP, Mov RSP RBP, Push RBX, Push R12, Push R13, Push R14, Push R15, Push R8, Push RCX, Push RDX, Push RSI, Push RDI]"

text \<open>The saved registers are read relative to \<open>rbp\<close>.\<close>

definition load_rbp :: "nat \<Rightarrow> reg \<Rightarrow> cpu_state \<Rightarrow> cpu_state" where
  "load_rbp k r s = set_reg r (cpu_mem s (sub64 (cpu_regs s RBP) (8 * k))) s"

definition EENTER_EPILOG :: "cpu_state \<Rightarrow> cpu_state" where
  "EENTER_EPILOG s =
     exec [Mov RBP RSP, Pop RBP] (load_rbp 5 R15 (load_rbp 4 R14 (load_rbp 3 R13 (load_rbp 2 R12 (load_rbp 1 RBX s)))))"

text \<open>\<open>__eenter\<close> up to the instruction that enters, and from \<open>__back\<close> on; \<open>aex\<close> is the address of the handler.\<close>

definition eenter_enter :: "nat \<Rightarrow> cpu_state \<Rightarrow> cpu_state" where
  "eenter_enter aex s =
     (let s1 = exec [Mov RDI RBX] (set_reg RAX 2 (exec EENTER_PROLOG s))
      in exec [Push RBP] (set_reg RCX aex (set_reg RDI 0 s1)))"

definition eenter_back :: "cpu_state \<Rightarrow> cpu_state" where
  "eenter_back s = exec [Ret] (EENTER_EPILOG (exec [Pop RBP] s))"

text \<open>A stay in the enclave: \<open>inside\<close> is the code from the dispatch to the call of \<open>__eexit\<close>.\<close>

type_synonym enclave_code = "start_action \<Rightarrow> cpu_state \<Rightarrow> libOS_shared_tls \<Rightarrow> cpu_state \<times> libOS_shared_tls"

definition eenter :: "nat \<Rightarrow> nat \<Rightarrow> enclave_code \<Rightarrow> cpu_state \<Rightarrow> libOS_shared_tls \<Rightarrow> cpu_state \<times> libOS_shared_tls" where
  "eenter aex reentry_point inside s tls =
     (let (act, s1, tls1) = start_entry (eenter_enter aex s) tls;
          (s2, tls2) = inside act s1 tls1;
          (s3, tls3) = eexit reentry_point s2 tls2
      in (eenter_back s3, tls3))"

section \<open>Asynchronous exits\<close>

text \<open>
  What the processor does on an asynchronous exit: the registers go to the save area (\<open>g\<close>; \<open>t\<close> is the TCS), \<open>rsp\<close> and \<open>rbp\<close> get
  the values they had when the thread entered, and \<open>rax\<close>, \<open>rbx\<close> and \<open>rcx\<close> are ready for \<open>ERESUME\<close>. The other
  registers get the values \<open>junk\<close>.
\<close>

definition async_exit :: "nat \<Rightarrow> nat \<Rightarrow> ssa_gpr_t \<Rightarrow> (reg \<Rightarrow> nat) \<Rightarrow> cpu_state \<Rightarrow> cpu_state" where
  "async_exit aex t g junk s =
     s\<lparr>cpu_regs := junk(RAX := 3, RBX := t, RCX := aex, RSP := gpr_sp_u g, RBP := gpr_bp_u g), cpu_rip := aex\<rparr>"

definition go_dump :: "nat \<Rightarrow> cpu_state \<Rightarrow> cpu_state" where
  "go_dump aex s = set_reg RCX aex (set_reg RAX 2 (exec [Mov RBX RSI] (set_reg RDI 1 s)))"

definition go_interrupt :: "nat \<Rightarrow> cpu_state \<Rightarrow> cpu_state" where
  "go_interrupt aex s = set_reg RCX aex (set_reg RAX 2 (exec [Mov RBX RSI] (set_reg RDI 2 (exec [Push RBX] s))))"

definition aex_handler ::
  "nat \<Rightarrow> int \<Rightarrow> (cpu_state \<Rightarrow> cpu_state) \<Rightarrow> threadpool \<Rightarrow> cpu_state \<Rightarrow> (cpu_state \<times> threadpool) result" where
  "aex_handler aex now clobber p s =
     (let s1 = exec [Push RAX, Push RBX, Push RCX, Mov RBX RDI] s in
      rbind (do_aex now (cpu_regs s1 RDI) p) (\<lambda>(r, p1).
        let s2 = exec [Mov RAX R13, Pop RCX, Pop RBX, Pop RAX] (set_reg RAX r (clobber s1)) in
        Inr (if cpu_regs s2 R13 = 1 then go_dump aex s2 else if cpu_regs s2 R13 = 2 then go_interrupt aex s2 else s2, p1)))"

definition interrupt_back :: "nat \<Rightarrow> cpu_state \<Rightarrow> cpu_state" where
  "interrupt_back aex s = set_reg RCX aex (exec [Pop RBX] (set_reg RAX 3 (exec [Pop RBX, Push RBX, Mov RBX RDI] s)))"

text \<open>
  The handler and the code it enters, up to the instruction that resumes the thread or to the call of \<open>dump_ssa\<close>,
  which does not come back.
\<close>

datatype aex_outcome = Resume ssa_gpr_t cpu_state | Dump cpu_state

definition aex_round ::
  "nat \<Rightarrow> int \<Rightarrow> code_symbols \<Rightarrow> (cpu_state \<Rightarrow> cpu_state) \<Rightarrow> threadpool \<Rightarrow> ssa_gpr_t \<Rightarrow> cpu_state \<Rightarrow> libOS_shared_tls \<Rightarrow>
   (aex_outcome \<times> libOS_shared_tls \<times> threadpool) result" where
  "aex_round aex now sy clobber p g s tls =
     rbind (aex_handler aex now clobber p s) (\<lambda>(s1, p1).
       if cpu_regs s1 RAX = 3 then Inr (Resume g s1, tls, p1)
       else (case start_entry s1 tls of
               (Do_Interrupt, s2, tls2) \<Rightarrow>
                 (let (g', s3) = do_interrupt sy (tls_preempt_stack tls2) g (clobber s2)
                  in Inr (Resume g' (interrupt_back aex (interrupt_exit_code tls2 s3)), tls2, p1))
             | (_, s2, tls2) \<Rightarrow> Inr (Dump s2, tls2, p1)))"

section \<open>A call of the enclave returns\<close>

text \<open>
  What the code in the enclave must not do: write to the frame of the loader from \<open>lo\<close> to \<open>hi\<close>, move the saved
  stack pointer of the loader, or leave with a stack that reaches into that frame.
\<close>

definition inside_keeps :: "nat \<Rightarrow> nat \<Rightarrow> enclave_code \<Rightarrow> bool" where
  "inside_keeps lo hi inside \<longleftrightarrow>
     (\<forall>act s tls. case inside act s tls of (s', tls') \<Rightarrow>
        loader_stack tls' = loader_stack tls \<and> (\<forall>x. lo \<le> x \<and> x < hi \<longrightarrow> cpu_mem s' x = cpu_mem s x) \<and>
        48 \<le> cpu_regs s' RSP \<and> cpu_regs s' RSP < 2 ^ 64 \<and> (cpu_regs s' RSP \<le> lo \<or> hi + 48 \<le> cpu_regs s' RSP))"

lemma enter_frame:
  assumes "cpu_regs s RSP = b + 96" "b + 104 < 2 ^ 64"
  shows "cpu_regs (eenter_enter aex s) RSP = b" "cpu_regs (eenter_enter aex s) RDI = 0" "cpu_gs (eenter_enter aex s) = cpu_gs s"
    "map (\<lambda>k. cpu_mem (eenter_enter aex s) (b + k)) [0, 48, 56, 64, 72, 80, 88, 96] =
       [b + 88, cpu_regs s R15, cpu_regs s R14, cpu_regs s R13, cpu_regs s R12, cpu_regs s RBX, cpu_regs s RBP, cpu_mem s (b + 96)]"
proof -
  have e: "sub64 (b + 96) 8 = b + 88" "sub64 (b + 88) 8 = b + 80" "sub64 (b + 80) 8 = b + 72" "sub64 (b + 72) 8 = b + 64"
    "sub64 (b + 64) 8 = b + 56" "sub64 (b + 56) 8 = b + 48" "sub64 (b + 48) 8 = b + 40" "sub64 (b + 40) 8 = b + 32"
    "sub64 (b + 32) 8 = b + 24" "sub64 (b + 24) 8 = b + 16" "sub64 (b + 16) 8 = b + 8" "sub64 (b + 8) 8 = b"
    using assms(2) by (simp_all add: sub64_small)
  note code = eenter_enter_def EENTER_PROLOG_def exec_def push_word_def set_reg_def Let_def assms(1) e
  show "cpu_regs (eenter_enter aex s) RSP = b" "cpu_regs (eenter_enter aex s) RDI = 0" "cpu_gs (eenter_enter aex s) = cpu_gs s"
    by (simp_all add: code)
  show "map (\<lambda>k. cpu_mem (eenter_enter aex s) (b + k)) [0, 48, 56, 64, 72, 80, 88, 96] =
       [b + 88, cpu_regs s R15, cpu_regs s R14, cpu_regs s R13, cpu_regs s R12, cpu_regs s RBX, cpu_regs s RBP, cpu_mem s (b + 96)]"
    by (simp add: code)
qed

lemma back_frame:
  assumes "cpu_regs s RSP = b" "b + 104 < 2 ^ 64"
    "map (\<lambda>k. cpu_mem s (b + k)) [0, 48, 56, 64, 72, 80, 88, 96] = [b + 88, r15, r14, r13, r12, rbx, rbp, ip]"
  shows "map (cpu_regs (eenter_back s)) [RBX, RBP, R12, R13, R14, R15, RSP] = [rbx, rbp, r12, r13, r14, r15, b + 104]"
    "cpu_rip (eenter_back s) = ip"
proof -
  have e: "sub64 (b + 88) 8 = b + 80" "sub64 (b + 88) 16 = b + 72" "sub64 (b + 88) 24 = b + 64" "sub64 (b + 88) 32 = b + 56"
    "sub64 (b + 88) 40 = b + 48" "add64 b 8 = b + 8" "add64 (b + 88) 8 = b + 96" "add64 (b + 96) 8 = b + 104"
    using assms(2) by (simp_all add: sub64_small add64_small)
  note cells = assms(3) [simplified]
  show "map (cpu_regs (eenter_back s)) [RBX, RBP, R12, R13, R14, R15, RSP] = [rbx, rbp, r12, r13, r14, r15, b + 104]"
    "cpu_rip (eenter_back s) = ip"
    using cells by (simp_all add: eenter_back_def EENTER_EPILOG_def load_rbp_def exec_def pop_word_def set_reg_def Let_def assms(1) e)
qed

lemma eexit_frame:
  assumes "eexit pt s tls = (s1, tls1)" "48 \<le> cpu_regs s RSP" "cpu_regs s RSP < 2 ^ 64"
  shows "cpu_regs s1 RSP = loader_stack tls" "reentry tls1 = pt" "enclave_return_val tls1 = cpu_regs s RDI" "cpu_regs s1 RBX = next_exit tls"
    "x + 48 < cpu_regs s RSP \<or> cpu_regs s RSP \<le> x \<Longrightarrow> cpu_mem s1 x = cpu_mem s x"
proof -
  obtain c where c: "cpu_regs s RSP = c + 48" "c + 48 < 2 ^ 64" using assms(2,3) by (metis le_add_diff_inverse2)
  have e: "sub64 (c + 48) 8 = c + 40" "sub64 (c + 40) 8 = c + 32" "sub64 (c + 32) 8 = c + 24" "sub64 (c + 24) 8 = c + 16"
    "sub64 (c + 16) 8 = c + 8" "sub64 (c + 8) 8 = c" using c(2) by (simp_all add: sub64_small)
  note x = assms(1) [unfolded eexit_def exec_def set_reg_def Let_def, symmetric]
  show "cpu_regs s1 RSP = loader_stack tls" "reentry tls1 = pt" "enclave_return_val tls1 = cpu_regs s RDI" "cpu_regs s1 RBX = next_exit tls"
    using x by (simp_all add: push_word_def Let_def)
  show "cpu_mem s1 x = cpu_mem s x" if "x + 48 < cpu_regs s RSP \<or> cpu_regs s RSP \<le> x"
    using x that by (auto simp: push_word_def Let_def c(1) e)
qed

text \<open>\<open>__eenter\<close> returns to its caller with the registers that a callee must keep; the thread comes back at \<open>pt\<close>.\<close>

lemma eenter_returns:
  assumes "cpu_regs s RSP = b + 96" "b + 104 < 2 ^ 64" "inside_keeps b (b + 104) inside" "eenter aex pt inside s tls = (s', tls')"
  shows "\<forall>q \<in> {RBX, RBP, R12, R13, R14, R15}. cpu_regs s' q = cpu_regs s q" "cpu_regs s' RSP = b + 104"
    "cpu_rip s' = cpu_mem s (b + 96)" "reentry tls' = pt"
proof -
  note ent = enter_frame [OF assms(1,2), of aex]
  obtain act s1 tls1 where st: "start_entry (eenter_enter aex s) tls = (act, s1, tls1)" by (metis prod_cases3)
  obtain s2 tls2 where bd: "inside act s1 tls1 = (s2, tls2)" by fastforce
  obtain s3 where ex: "eexit pt s2 tls2 = (s3, tls')" and s': "s' = eenter_back s3"
    using assms(4) st bd by (auto simp: eenter_def Let_def split: prod.splits)
  have s1: "cpu_mem s1 = cpu_mem (eenter_enter aex s)" "loader_stack tls1 = b"
    using st ent(1,2) by (auto simp: start_entry_def exec_def set_reg_def Let_def split: if_splits)
  have k: "loader_stack tls2 = b" "48 \<le> cpu_regs s2 RSP" "cpu_regs s2 RSP < 2 ^ 64" "cpu_regs s2 RSP \<le> b \<or> b + 104 + 48 \<le> cpu_regs s2 RSP"
    and m2: "\<And>x. b \<le> x \<Longrightarrow> x < b + 104 \<Longrightarrow> cpu_mem s2 x = cpu_mem s1 x"
    using assms(3) bd s1(2) by (auto simp: inside_keeps_def dest!: spec [of _ act] spec [of _ s1] spec [of _ tls1])
  note xf = eexit_frame [OF ex k(2,3)]
  have "cpu_mem s3 x = cpu_mem (eenter_enter aex s) x" if "b \<le> x" "x < b + 104" for x
    using xf(5) [of x] m2 [OF that] k(4) that by (auto simp: s1)
  then have "map (\<lambda>k. cpu_mem s3 (b + k)) [0, 48, 56, 64, 72, 80, 88, 96] = map (\<lambda>k. cpu_mem (eenter_enter aex s) (b + k)) [0, 48, 56, 64, 72, 80, 88, 96]"
    by simp
  note bk = back_frame [OF trans [OF xf(1) k(1)] assms(2) trans [OF this ent(4)]]
  show "\<forall>q \<in> {RBX, RBP, R12, R13, R14, R15}. cpu_regs s' q = cpu_regs s q" "cpu_regs s' RSP = b + 104" "cpu_rip s' = cpu_mem s (b + 96)"
    using bk by (simp_all add: s')
  show "reentry tls' = pt" by (rule xf(2))
qed

section \<open>Asynchronous exits are transparent\<close>

text \<open>The calling convention: a function leaves the stack pointer and the cells from \<open>lo\<close> to \<open>hi\<close> as they were.\<close>

definition callee :: "nat \<Rightarrow> nat \<Rightarrow> (cpu_state \<Rightarrow> cpu_state) \<Rightarrow> bool" where
  "callee lo hi f \<longleftrightarrow>
     (\<forall>s. cpu_regs (f s) RSP = cpu_regs s RSP \<and> cpu_gs (f s) = cpu_gs s \<and> (\<forall>x. lo \<le> x \<and> x < hi \<longrightarrow> cpu_mem (f s) x = cpu_mem s x))"

text \<open>The state at the \<open>enclu\<close> instruction of the handler, for each answer of \<open>do_aex\<close>.\<close>

definition at_enclu :: "nat \<Rightarrow> nat \<Rightarrow> nat \<Rightarrow> nat \<Rightarrow> cpu_state \<Rightarrow> bool" where
  "at_enclu aex t u r s \<longleftrightarrow>
     cpu_regs s RBX = t \<and> cpu_regs s RCX = aex \<and>
     (if r = 1 then cpu_regs s RAX = 2 \<and> cpu_regs s RDI = 1 \<and> cpu_regs s RSI = t \<and> cpu_regs s RSP = u
      else if r = 2 then cpu_regs s RAX = 2 \<and> cpu_regs s RDI = 2 \<and> cpu_regs s RSI = t \<and> cpu_regs s RSP = u - 8 \<and> cpu_mem s (u - 8) = t
      else cpu_regs s RAX = 3 \<and> cpu_regs s RSP = u)"

lemma aex_handler_at_enclu:
  assumes "gpr_sp_u g = c + 24" "c + 24 < 2 ^ 64" "c + 24 \<le> hi" "callee c hi clobber" "do_aex now t p = Inr (r, p1)"
  shows "\<exists>s1. aex_handler aex now clobber p (async_exit aex t g junk s) = Inr (s1, p1) \<and> at_enclu aex t (c + 24) r s1 \<and>
    cpu_gs s1 = cpu_gs s \<and> (\<forall>x. c + 24 \<le> x \<and> x < hi \<longrightarrow> cpu_mem s1 x = cpu_mem s x)"
proof -
  let ?s = "exec [Push RAX, Push RBX, Push RCX, Mov RBX RDI] (async_exit aex t g junk s)"
  have e: "sub64 (c + 24) 8 = c + 16" "sub64 (c + 16) 8 = c + 8" "sub64 (c + 8) 8 = c" "add64 c 8 = c + 8" "add64 (c + 8) 8 = c + 16"
    "add64 (c + 16) 8 = c + 24" using assms(2) by (simp_all add: sub64_small add64_small)
  have s: "cpu_regs ?s RSP = c" "cpu_regs ?s RDI = t" "cpu_mem ?s = (cpu_mem s)(c + 16 := 3, c + 8 := t, c := aex)" "cpu_gs ?s = cpu_gs s"
    by (simp_all add: exec_def async_exit_def push_word_def Let_def assms(1) e)
  have c: "cpu_regs (clobber ?s) RSP = c" "cpu_gs (clobber ?s) = cpu_gs s" "cpu_mem (clobber ?s) (c + 16) = 3"
      "cpu_mem (clobber ?s) (c + 8) = t" "cpu_mem (clobber ?s) c = aex"
      "\<And>x. c + 24 \<le> x \<Longrightarrow> x < hi \<Longrightarrow> cpu_mem (clobber ?s) x = cpu_mem s x"
    using assms(3,4) by (auto simp: callee_def s dest!: spec [of _ ?s])
  define d where "d = clobber ?s"
  define s2 where "s2 = exec [Mov RAX R13, Pop RCX, Pop RBX, Pop RAX] (set_reg RAX r d)"
  have h: "aex_handler aex now clobber p (async_exit aex t g junk s) =
      Inr (if cpu_regs s2 R13 = 1 then go_dump aex s2 else if cpu_regs s2 R13 = 2 then go_interrupt aex s2 else s2, p1)"
    by (simp only: aex_handler_def Let_def s(2) assms(5) rbind_Inr s2_def d_def prod.case)
  have s2: "cpu_regs s2 R13 = r" "cpu_regs s2 RAX = 3" "cpu_regs s2 RBX = t" "cpu_regs s2 RCX = aex" "cpu_regs s2 RSP = c + 24"
      "cpu_gs s2 = cpu_gs s" "\<And>x. c + 24 \<le> x \<Longrightarrow> x < hi \<Longrightarrow> cpu_mem s2 x = cpu_mem s x"
    using c [folded d_def] unfolding s2_def by (simp_all add: exec_def pop_word_def set_reg_def Let_def e)
  show ?thesis unfolding h
    by (auto simp: s2 at_enclu_def go_dump_def go_interrupt_def exec_def push_word_def set_reg_def Let_def e)
qed

text \<open>The way through the preemption handler: the thread is resumed with the stack of the loader as before.\<close>

definition ready_to_resume :: "nat \<Rightarrow> nat \<Rightarrow> nat \<Rightarrow> nat \<Rightarrow> cpu_state \<Rightarrow> cpu_state \<Rightarrow> bool" where
  "ready_to_resume aex t u hi s s' \<longleftrightarrow>
     cpu_regs s' RAX = 3 \<and> cpu_regs s' RBX = t \<and> cpu_regs s' RCX = aex \<and> cpu_regs s' RSP = u \<and>
     (\<forall>x. u \<le> x \<and> x < hi \<longrightarrow> cpu_mem s' x = cpu_mem s x)"

lemma interrupt_back_ready:
  fixes aex :: nat
  assumes "cpu_mem s3 (c + 16) = t" "c + 24 < 2 ^ 64" "interrupt_outside_stack tls = c + 16"
  defines "s4 \<equiv> interrupt_back aex (interrupt_exit_code tls s3)"
  shows "map (cpu_regs s4) [RAX, RBX, RCX, RSP] = [3, t, aex, c + 24]" "cpu_mem s4 = cpu_mem s3" "cpu_gs s4 = cpu_gs s3" "cpu_x s4 = cpu_x s3"
proof -
  have e: "add64 (c + 16) 8 = c + 24" "sub64 (c + 24) 8 = c + 16" using assms(2) by (simp_all add: sub64_small add64_small)
  note code = s4_def interrupt_back_def interrupt_exit_code_def exec_def push_word_def pop_word_def set_reg_def Let_def assms(1,3) e
  show "map (cpu_regs s4) [RAX, RBX, RCX, RSP] = [3, t, aex, c + 24]" "cpu_gs s4 = cpu_gs s3" "cpu_x s4 = cpu_x s3"
    by (simp_all add: code)
  show "cpu_mem s4 = cpu_mem s3" by (simp add: code fun_upd_idem)
qed

lemma interrupt_ready:
  assumes "at_enclu aex t (c + 24) 2 s1" "c + 24 < 2 ^ 64" "c + 24 \<le> hi" "callee c hi clobber" "tls_apart c hi s1"
    "start_entry s1 tls = (act, s2, tls2)" "do_interrupt sy (tls_preempt_stack tls2) g (clobber s2) = (g', s3)"
  defines "s4 \<equiv> interrupt_back aex (interrupt_exit_code tls2 s3)"
  shows "act = Do_Interrupt" "ready_to_resume aex t (c + 24) hi s1 s4" "cpu_gs s4 = cpu_gs s1"
    "if no_interrupt_zone sy (gpr_ip g) then g' = g
     else g' = g\<lparr>gpr_ip := injectedFunc_addr sy, gpr_sp := tls_preempt_stack tls\<rparr> \<and>
          cpu_mem s4 (cpu_gs s1 + 48) = gpr_sp g \<and> cpu_mem s4 (cpu_gs s1 + 56) = gpr_ip g"
proof -
  have st: "act = Do_Interrupt" "cpu_gs s2 = cpu_gs s1" "cpu_mem s2 = cpu_mem s1" "tls2 = tls\<lparr>interrupt_outside_stack := c + 16\<rparr>"
    using assms(1,6) by (auto simp: start_entry_def at_enclu_def exec_def set_reg_def Let_def)
  have cl: "cpu_gs (clobber s2) = cpu_gs s1" "\<And>x. c \<le> x \<Longrightarrow> x < hi \<Longrightarrow> cpu_mem (clobber s2) x = cpu_mem s1 x"
    using assms(4) st(2,3) by (simp_all add: callee_def)
  have ne: "x \<noteq> cpu_gs s1 + 48" "x \<noteq> cpu_gs s1 + 56" if "c \<le> x" "x < hi" for x
    using assms(5) that by (auto simp: tls_apart_def)
  have s3: "cpu_gs s3 = cpu_gs s1" "\<And>x. c \<le> x \<Longrightarrow> x < hi \<Longrightarrow> cpu_mem s3 x = cpu_mem s1 x"
    using assms(7) cl ne by (auto simp: do_interrupt_def split: if_splits)
  have t: "cpu_mem s3 (c + 16) = t" using s3(2) [of "c + 16"] assms(1,3) by (simp add: at_enclu_def add.commute)
  note b = interrupt_back_ready [OF t assms(2), of tls2 aex, folded s4_def]
  show "act = Do_Interrupt" by (rule st)
  show "ready_to_resume aex t (c + 24) hi s1 s4" "cpu_gs s4 = cpu_gs s1" using b s3 by (simp_all add: ready_to_resume_def st(4))
  show "if no_interrupt_zone sy (gpr_ip g) then g' = g
     else g' = g\<lparr>gpr_ip := injectedFunc_addr sy, gpr_sp := tls_preempt_stack tls\<rparr> \<and>
          cpu_mem s4 (cpu_gs s1 + 48) = gpr_sp g \<and> cpu_mem s4 (cpu_gs s1 + 56) = gpr_ip g"
    using assms(7) b(2) cl(1) by (auto simp: st(4) do_interrupt_def)
qed

text \<open>C8. An asynchronous exit is transparent to the interrupted thread. For a known thread the handler of the loader follows
  the answer of \<open>do_aex\<close>. On 1 it enters the enclave for a dump of this thread. On every other answer it ends at
  \<open>ERESUME\<close> of this thread, with the stack pointer of the loader and all its stack as at the exit, also when it went through the
  preemption handler in the enclave. The resumed thread then reaches the interrupted instruction with all registers, the
  flags and the extended state as they were, after 2 by way of the injected code and the scheduler.\<close>

theorem aex_transparent:
  assumes "thread_map p t \<noteq> None" "24 \<le> gpr_sp_u g" "gpr_sp_u g < 2 ^ 64" "gpr_sp_u g \<le> hi" "callee (gpr_sp_u g - 24) hi clobber"
    "tls_apart (gpr_sp_u g - 24) hi s" "144 \<le> tls_preempt_stack tls" "tls_preempt_stack tls < 2 ^ 64"
    "tls_apart (tls_preempt_stack tls - 144) (tls_preempt_stack tls) s" "sched_returns (tls_preempt_stack tls) xs sched"
  shows "\<exists>r p1 out tls1. do_aex now t p = Inr (r, p1) \<and>
    aex_round aex now sy clobber p g (async_exit aex t g junk s) tls = Inr (out, tls1, p1) \<and>
    (case out of
       Dump s' \<Rightarrow> r = 1 \<and> cpu_regs s' RDI = t \<and> cpu_regs s' RSP = enclave_stack tls
     | Resume g' s' \<Rightarrow> r \<noteq> 1 \<and> ready_to_resume aex t (gpr_sp_u g) hi s s' \<and>
         resumed g x
           (if r = 2 \<and> \<not> no_interrupt_zone sy (gpr_ip g)
            then exec (injectedFunc (do_preempt xs sched)) (eresume g' (s'\<lparr>cpu_x := x\<rparr>))
            else eresume g' (s'\<lparr>cpu_x := x\<rparr>)))"
proof -
  obtain c where c: "gpr_sp_u g = c + 24" "c + 24 < 2 ^ 64" "c + 24 \<le> hi" "callee c hi clobber" "tls_apart c hi s"
    using assms(2-6) by (metis le_add_diff_inverse2)
  obtain r p1 where d: "do_aex now t p = Inr (r, p1)" using do_aex_correct [OF assms(1)] by blast
  obtain s1 where s1: "aex_handler aex now clobber p (async_exit aex t g junk s) = Inr (s1, p1)" "at_enclu aex t (c + 24) r s1"
      "cpu_gs s1 = cpu_gs s" "\<forall>x. c + 24 \<le> x \<and> x < hi \<longrightarrow> cpu_mem s1 x = cpu_mem s x"
    using aex_handler_at_enclu [OF c(1-4) d] by blast
  obtain act s2 tls2 where st: "start_entry s1 tls = (act, s2, tls2)" by (metis prod_cases3)
  consider (dump) "r = 1" | (int) "r = 2" | (go) "r \<noteq> 1" "r \<noteq> 2" by blast
  then show ?thesis
  proof cases
    case dump
    then have "act = Dump_Ssa" "cpu_regs s2 RDI = t" "cpu_regs s2 RSP = enclave_stack tls" "cpu_regs s1 RAX \<noteq> 3"
      using s1(2) st by (auto simp: at_enclu_def start_entry_def exec_def set_reg_def Let_def)
    then show ?thesis using dump d by (simp add: aex_round_def s1(1) st)
  next
    case int
    obtain g' s3 where di: "do_interrupt sy (tls_preempt_stack tls2) g (clobber s2) = (g', s3)" by fastforce
    have apart: "tls_apart c hi s1" using c(5) s1(3) by (simp add: tls_apart_def)
    note i = interrupt_ready [OF s1(2) [unfolded int] c(2-4) apart st di]
    let ?s = "interrupt_back aex (interrupt_exit_code tls2 s3)"
    have round: "aex_round aex now sy clobber p g (async_exit aex t g junk s) tls = Inr (Resume g' ?s, tls2, p1)"
      using s1(2) int i(1) by (simp add: aex_round_def s1(1) st di at_enclu_def)
    have "ready_to_resume aex t (c + 24) hi s ?s" using i(2) s1(4) by (simp add: ready_to_resume_def)
    moreover have "resumed g x (if no_interrupt_zone sy (gpr_ip g) then eresume g' (?s\<lparr>cpu_x := x\<rparr>)
        else exec (injectedFunc (do_preempt xs sched)) (eresume g' (?s\<lparr>cpu_x := x\<rparr>)))"
      using i(3,4) s1(3) assms(9) injected_resumes [OF assms(7,8) _ assms(10), of "?s\<lparr>cpu_x := x\<rparr>" g "injectedFunc_addr sy"]
      by (auto simp: resumed_def eresume_def tls_apart_def split: if_splits)
    ultimately show ?thesis using int d round c(1) by auto
  next
    case go
    then show ?thesis using d s1(2,4) c(1)
      by (auto simp: aex_round_def s1(1) at_enclu_def ready_to_resume_def resumed_def eresume_def)
  qed
qed

definition demo_outside :: ssa_gpr_t where
  "demo_outside = demo_ssa\<lparr>gpr_sp_u := 0x3018\<rparr>"

definition demo_tls :: libOS_shared_tls where
  "demo_tls = undefined\<lparr>tls_preempt_stack := 0x7000\<rparr>"

text \<open>A compiled function that leaves nothing of the registers and the memory beside what it must.\<close>

definition demo_clobber :: "cpu_state \<Rightarrow> cpu_state" where
  "demo_clobber s = s\<lparr>cpu_regs := (\<lambda>q. if q = RSP then cpu_regs s RSP else 99), cpu_x := 0,
     cpu_mem := (\<lambda>a. if 0x3000 \<le> a \<and> a < 0x4000 then cpu_mem s a else 0)\<rparr>"

theorem aex_transparent_witness:
  "\<exists>g' s' tls1 p1. aex_round 0x500 2000000 demo_symbols demo_clobber demo_pool demo_outside
       (async_exit 0x500 4096 demo_outside (\<lambda>_. 0) demo_cpu) demo_tls = Inr (Resume g' s', tls1, p1) \<and>
     ready_to_resume 0x500 4096 0x3018 0x4000 demo_cpu s' \<and>
     resumed demo_outside 77 (exec (injectedFunc (do_preempt 1 demo_sched)) (eresume g' (s'\<lparr>cpu_x := 77\<rparr>)))"
proof -
  have h: "thread_map demo_pool 4096 \<noteq> None" "gpr_sp_u demo_outside = 0x3018" "tls_preempt_stack demo_tls = 0x7000"
      "\<not> no_interrupt_zone demo_symbols (gpr_ip demo_outside)"
    by (simp_all add: demo_pool_def demo_outside_def demo_tls_def no_interrupt_zone_def demo_symbols_def demo_ssa_def)
  have c: "callee (gpr_sp_u demo_outside - 24) 0x4000 demo_clobber" by (simp add: callee_def demo_clobber_def h)
  have s: "sched_returns (tls_preempt_stack demo_tls) 1 demo_sched" by (simp add: sched_returns_def demo_sched_def tls_apart_def h)
  obtain q where q: "do_aex 2000000 4096 demo_pool = Inr (2, q)"
    using do_aex_correct [OF h(1), of 2000000] by (auto simp: demo_pool_def)
  have "tls_apart (gpr_sp_u demo_outside - 24) 0x4000 demo_cpu" "tls_apart (0x7000 - 144) 0x7000 demo_cpu"
    by (simp_all add: tls_apart_def demo_cpu_def h)
  then obtain r p1 out tls1 where "do_aex 2000000 4096 demo_pool = Inr (r, p1)"
      "aex_round 0x500 2000000 demo_symbols demo_clobber demo_pool demo_outside
         (async_exit 0x500 4096 demo_outside (\<lambda>_. 0) demo_cpu) demo_tls = Inr (out, tls1, p1)" and
      "case out of
         Dump s' \<Rightarrow> r = 1 \<and> cpu_regs s' RDI = 4096 \<and> cpu_regs s' RSP = enclave_stack demo_tls
       | Resume g' s' \<Rightarrow> r \<noteq> 1 \<and> ready_to_resume 0x500 4096 (gpr_sp_u demo_outside) 0x4000 demo_cpu s' \<and>
           resumed demo_outside 77
             (if r = 2 \<and> \<not> no_interrupt_zone demo_symbols (gpr_ip demo_outside)
              then exec (injectedFunc (do_preempt 1 demo_sched)) (eresume g' (s'\<lparr>cpu_x := 77\<rparr>))
              else eresume g' (s'\<lparr>cpu_x := 77\<rparr>))"
    using aex_transparent [OF h(1) _ _ _ c _ _ _ _ s, where s = demo_cpu and now = 2000000 and aex = "0x500" and sy = demo_symbols
        and junk = "\<lambda>_. 0" and x = 77] by (simp add: h(2,3)) blast
  then show ?thesis using q h by (cases out) auto
qed

end
