(* ===== verification/Spec2Isabelle.thy ===== *)
theory Spec2Isabelle
  imports Malloc Slub_Heap Linked_List Rbtree Mpmc_Queue Swapper Loader_Main Libos_Main Loader_Entry
begin

text \<open>
  \<^bold>\<open>The libOS, loader and swapper of the SGX exitless page swapping project\<close>

  The program runs an unmodified ELF program inside an SGX enclave. The \<^emph>\<open>loader\<close> (\<open>src/loader\<close>) creates the
  enclave, relocates and loads the file, adds heap, stacks and thread control structures, measures and signs what it
  added and starts one kernel thread per enclave thread. The \<^emph>\<open>libOS\<close> (\<open>src/libOS\<close>) is linked to the program and
  runs inside: page manager, heaps, slab caches, user-level threads with a preemptive scheduler, futexes, and the
  marshalling of system calls. The \<^emph>\<open>swapper\<close> (\<open>src/swapper\<close>) runs outside and serves the requests that the enclave
  puts on a shared queue (\<open>src/include/queue.h\<close>), so that system calls need no exit of the enclave.

  \<^bold>\<open>Conventions.\<close> Addresses and byte counts are natural numbers below \<open>2 ^ 64\<close>, and arithmetic on them is \<open>add64\<close>,
  \<open>sub64\<close>, \<open>mul64\<close>, which wrap; \<open>s32\<close> is the conversion to \<open>int\<close>; bit sets are \<open>w word\<close> values. A \<open>fault\<close> is what
  ends a run: \<open>ud2\<close>, \<open>exit(-1)\<close>, \<open>abort\<close>, a wild access or undefined behaviour; an operation that can fault returns
  \<open>fault + 'a\<close>. Where a loop need not end it is a \<open>partial_function (option)\<close> and \<open>None\<close> means that it does not; the
  theorems about such code state that it returns. Objects that the code links by pointers live in stores, maps from
  addresses to records. What runs under a lock is one step; theory \<open>Locks\<close> shows that the locks exclude.

  \<^bold>\<open>Theories, code and results.\<close>
  \<^item> \<open>Prelude\<close>: faults, results, arithmetic with its simplification rules \<open>wrap_simps\<close>, page rounding.
  \<^item> \<open>Page_Manager\<close> (\<open>libOS/mmap.cpp\<close>, \<open>mmap.h\<close>): \<open>PageManager\<close>, \<open>allocPages\<close>, \<open>libos_mmap\<close>, \<open>libos_munmap\<close>. Allocation
    returns unused contiguous pages of the heap and marks exactly these; it succeeds if a run of pages lies ahead of the
    clock; unmapping restores the set of used pages; the clock can get stuck behind the last page.
  \<^item> \<open>Allocator\<close> (\<open>libOS/allocator.cpp\<close>, \<open>allocator.h\<close>): class \<open>Allocator\<close> with its tree of free chunks and its buckets.
    Invariant, and the exact effect of \<open>malloc\<close>, \<open>free\<close>, \<open>memAlign\<close> and \<open>expandHeap\<close> on the free bytes.
  \<^item> \<open>Malloc\<close> (\<open>libOS/malloc.cpp\<close>): the C heap on both of them. The locale \<open>page_source\<close> is what it needs of the page
    manager, with \<open>libos_mmap\<close> as its interpretation. \<open>malloc\<close>, \<open>calloc\<close>, and what is wrong with \<open>realloc\<close>.
  \<^item> \<open>Bitmap\<close> (\<open>libOS/bitmap.h\<close>), \<open>Linked_List\<close> (\<open>libOS/linked_list.h\<close>), \<open>Rbtree\<close> (\<open>libOS/mm/rbtree.cpp\<close>): the
    containers. Scan-and-set finds the lowest clear bit; the pointer operations of the list refine those on a
    sequence; insertion ends and keeps the red-black search tree although its second case is never taken on one side,
    lookup and iteration are correct, and erasing a black node whose successor is red faults.
  \<^item> \<open>Slub\<close>, \<open>Slub_Heap\<close> (\<open>libOS/slub.cpp\<close>, \<open>slub.h\<close>): the slab caches. A cache keeps its three lists, bitmaps and headers
    consistent and never gives out a live object. The locale \<open>slab_source\<close> is what it needs of its mapper, with
    \<open>unsafeMalloc\<close> as its interpretation, so that the memory of a cache is never in use elsewhere.
  \<^item> \<open>Locks\<close> (\<open>include/spin_lock.h\<close>, \<open>libOS/tsx.h\<close>, \<open>util.h\<close>, \<open>thread_local.h\<close>): both spin locks as steps of any number of
    CPUs; the locale \<open>exclusive_lock\<close>, interpreted for both, gives mutual exclusion and the interrupt flag.
  \<^item> \<open>Mpmc_Queue\<close> (\<open>include/queue.h\<close>): the queue, one shared access per step. The take that claims a position
    returns what the push that claimed it wrote, under every interleaving, with positions that wrap.
  \<^item> \<open>Syscall_Format\<close>, \<open>Request\<close> (\<open>include/syscall_format.h\<close>, \<open>libOS/syscall_format.cpp\<close>, \<open>include/request.h\<close>,
    \<open>libOS/singleton.h\<close>): tables, deep copies and requests. The format is always well formed, \<open>read\<close> survives the
    round trip, and the data of \<open>recvfrom\<close> is lost.
  \<^item> \<open>Sched\<close>, \<open>Sched_Inv\<close>, \<open>Sched_Safety\<close> (\<open>libOS/sched.cpp\<close>, \<open>user_thread.cpp\<close>): threads and the scheduler, as
    functions and, split at the critical sections, as a step relation over all CPUs. No thread is queued twice, runs on two
    CPUs or shares its stack, no runnable thread is lost, and the waits for contexts are not circular.
  \<^item> \<open>Futex\<close>, \<open>Async_Request\<close> (\<open>libOS/futex.cpp\<close>, \<open>async_request.cpp\<close>, \<open>hint.cpp\<close>): sleeping and waking on the scheduler, and
    the requests of a thread. A wake takes the sleepers from the front; a requeue can lose a wake-up.
  \<^item> \<open>Swapper\<close> (\<open>swapper/*.cpp\<close>): the handlers and the worker, over an operating system that is a parameter. A round
    acknowledges and finishes a request or files it; sleeps end when a stale clock says so.
  \<^item> \<open>Sgx_Arch\<close>, \<open>Signature\<close>, \<open>Enclave_Manager\<close>, \<open>Load_Elf\<close> (\<open>include/sgx_arch.h\<close>, \<open>loader/signature.cpp\<close>,
    \<open>enclave_manager.cpp\<close>, \<open>load_elf.cpp\<close>): building the enclave. Mappings never overlap or leave the enclave, every page
    is measured, room that \<open>allocate\<close> finds can be added, threads get disjoint regions, the quotients of the signature are
    those of the reference definition, relocation changes exactly the relocated words, and after loading
    every segment stands at its address plus the bias.
  \<^item> \<open>Enclave_Thread\<close>, \<open>Interrupt\<close>, \<open>Libos_Start\<close>, \<open>Loader_Entry\<close> (\<open>loader/enclave_thread.cpp\<close>,
    \<open>enclave_threadpool.cpp\<close>, \<open>entry.s\<close>, \<open>libOS/interrupt.cpp\<close>, \<open>start.s\<close>): the threads of the loader and, on a small x86
    machine, the assembly code on both sides. A call of the enclave returns; an asynchronous exit, with or without
    preemption, is transparent to the interrupted code; the vectors of the program arrive.
  \<^item> \<open>Libos_Main\<close>, \<open>Loader_Main\<close> (\<open>libOS/libOS_main.cpp\<close>, \<open>loader/loader_main.cpp\<close>): both programs as compositions.
    Starting the libOS establishes the invariants of the heaps and runs the main thread.

  \<^bold>\<open>Parameters and bounds.\<close> The operating system, the SGX driver, SHA-256, RSA and big numbers of OpenSSL, the file as ELFIO
  parses it, Boost contexts, sizes of C structures and values of uninitialised memory are arguments of the definitions.
  No theorem is about a bounded run: worker rounds and interleavings are of any length, and the only counts
  are those of the code (40 buckets, 64 objects per slab, 80 words of the auxiliary vector). Sizes are bounded where
  the code would wrap: heaps below \<open>2 ^ 32\<close> bytes, single mappings below \<open>2 ^ 31\<close>.

  \<^bold>\<open>Not modelled.\<close> Output: \<open>libOS/panic.cpp\<close>, \<open>ssa_dump.cpp\<close> and the log calls format and print. Glue to the C library:
  \<open>libOS/misc.cpp\<close>. Threads of the host: CPU affinity, priorities, starting and joining the workers of the swapper, the timer
  of the loader. Key handling: \<open>generatePriRSA\<close>, \<open>generatePubRSA\<close>, \<open>RSASign\<close> only call OpenSSL. Memory order
  annotations of the queue: steps are sequentially consistent. Dead code: \<open>loadBalance_sender\<close> and \<open>fd_set_blocking\<close>,
  which nothing calls. The third-party parts (\<open>musl\<close>, \<open>deps\<close>, \<open>samples\<close>, \<open>memtier_benchmark\<close>), generated code and the tests.
  The processor's own instructions have the meaning of the SGX manual as far as the assembly code relies on it.
\<close>

end
